(* ===== verification/Prelude.thy ===== *)
theory Prelude
  imports Main "HOL-Library.Word" "HOL-Library.List_Lexorder"
begin

text \<open>
  Shared vocabulary of the development.
  \<^item> Type names for the machine types of the source: \<open>u8\<close>, \<open>u16\<close>, \<open>u32\<close>, \<open>u64\<close> are words,
    \<open>i64\<close> values are integers passed through \<open>wrap_i64\<close> where an addition may leave the range.
  \<^item> Fallible stateful code is an \<open>('s, 'e, 'a) op\<close>: it maps a state to a result
    (\<open>Inl\<close> the error, \<open>Inr\<close> the value) and the state after the call. A failing call keeps
    the updates that were made before the failure, as an early return with \<open>?\<close> does in Rust.
  \<^item> String formatting of the standard library that the code relies on: hexadecimal bytes,
    decimal integers, parsing of \<open>i64\<close>.
\<close>

section \<open>Machine types\<close>

type_synonym u8 = "8 word"
type_synonym u16 = "16 word"
type_synonym u32 = "32 word"
type_synonym u64 = "64 word"
type_synonym bytes = "8 word list"

text \<open>A 32-byte array; the length is a well-formedness condition where it matters.\<close>

type_synonym bytes32 = "8 word list"

definition zeros32 :: bytes32 where
  "zeros32 = replicate 32 0"

text \<open>
  Two's complement wrap-around of an \<open>i64\<close> result. All \<open>i64\<close> arithmetic of the source is
  plain \<open>+\<close>, \<open>-\<close> compiled without overflow checks in release builds, i.e. wrapping.
\<close>

definition wrap_i64 :: "int \<Rightarrow> int" where
  "wrap_i64 x = signed_take_bit 63 x"

definition in_i64 :: "int \<Rightarrow> bool" where
  "in_i64 x \<longleftrightarrow> - (2 ^ 63) \<le> x \<and> x < 2 ^ 63"

lemma wrap_i64_id [simp]: "in_i64 x \<Longrightarrow> wrap_i64 x = x"
  unfolding wrap_i64_def in_i64_def
  by (intro signed_take_bit_int_eq_self) auto

lemma wrap_i64_range: "in_i64 (wrap_i64 x)"
  unfolding wrap_i64_def in_i64_def
  using signed_take_bit_int_greater_eq_minus_exp[of 63 x] signed_take_bit_int_less_exp[of 63 x]
  by simp

lemma wrap_i64_add_left [simp]: "wrap_i64 (wrap_i64 a + b) = wrap_i64 (a + b)"
  unfolding wrap_i64_def
  by (metis signed_take_bit_add signed_take_bit_signed_take_bit min.idem)

lemma wrap_i64_add_right [simp]: "wrap_i64 (a + wrap_i64 b) = wrap_i64 (a + b)"
  using wrap_i64_add_left[of b a] by (simp add: add.commute)

lemma wrap_i64_0 [simp]: "wrap_i64 0 = 0"
  by (simp add: wrap_i64_def)

lemma wrap_i64_idem [simp]: "wrap_i64 (wrap_i64 x) = wrap_i64 x"
  by (simp add: wrap_i64_range)

text \<open>Division truncating towards zero, as in Rust and chrono.\<close>

definition trunc_div :: "int \<Rightarrow> int \<Rightarrow> int" where
  "trunc_div a b = (if (a < 0) = (b < 0) then \<bar>a\<bar> div \<bar>b\<bar> else - (\<bar>a\<bar> div \<bar>b\<bar>))"

lemma trunc_div_nonneg: "0 \<le> a \<Longrightarrow> 0 < b \<Longrightarrow> trunc_div a b = a div b"
  by (simp add: trunc_div_def)

section \<open>Fallible stateful operations\<close>

type_synonym ('s, 'e, 'a) op = "'s \<Rightarrow> ('e + 'a) \<times> 's"

named_theorems op_defs \<open>primitive operations, to be unfolded\<close>
named_theorems keeps_intros \<open>rules for invariants of operations\<close>

definition ok :: "'a \<Rightarrow> ('s, 'e, 'a) op" where
  [op_defs]: "ok x = (\<lambda>s. (Inr x, s))"

definition throw :: "'e \<Rightarrow> ('s, 'e, 'a) op" where
  [op_defs]: "throw e = (\<lambda>s. (Inl e, s))"

definition andThen :: "('s, 'e, 'a) op \<Rightarrow> ('a \<Rightarrow> ('s, 'e, 'b) op) \<Rightarrow> ('s, 'e, 'b) op" where
  [op_defs]: "andThen m f = (\<lambda>s. case m s of (Inl e, t) \<Rightarrow> (Inl e, t) | (Inr x, t) \<Rightarrow> f x t)"

definition reads :: "('s \<Rightarrow> 'a) \<Rightarrow> ('s, 'e, 'a) op" where
  [op_defs]: "reads f = (\<lambda>s. (Inr (f s), s))"

definition modify :: "('s \<Rightarrow> 's) \<Rightarrow> ('s, 'e, unit) op" where
  [op_defs]: "modify f = (\<lambda>s. (Inr (), f s))"

text \<open>\<open>ok_or e\<close> is \<open>Option::ok_or(e)?\<close>: the value or an early return with the error.\<close>

definition ok_or :: "'e \<Rightarrow> 'a option \<Rightarrow> ('s, 'e, 'a) op" where
  [op_defs]: "ok_or e x = (\<lambda>s. case x of None \<Rightarrow> (Inl e, s) | Some v \<Rightarrow> (Inr v, s))"

definition unless_fail :: "bool \<Rightarrow> 'e \<Rightarrow> ('s, 'e, unit) op" where
  [op_defs]: "unless_fail b e = (\<lambda>s. if b then (Inr (), s) else (Inl e, s))"

text \<open>Run an operation of a component of the state.\<close>

definition zoom :: "('s \<Rightarrow> 't) \<Rightarrow> ('t \<Rightarrow> 's \<Rightarrow> 's) \<Rightarrow> ('t, 'e, 'a) op \<Rightarrow> ('s, 'e, 'a) op" where
  [op_defs]: "zoom g p m = (\<lambda>s. case m (g s) of (r, t) \<Rightarrow> (r, p t s))"

text \<open>A loop over a list that stops at the first error.\<close>

fun forEach :: "'x list \<Rightarrow> ('x \<Rightarrow> ('s, 'e, 'a) op) \<Rightarrow> ('s, 'e, 'a list) op" where
  "forEach [] f = ok []"
| "forEach (x # xs) f = andThen (f x) (\<lambda>y. andThen (forEach xs f) (\<lambda>ys. ok (y # ys)))"

lemma andThen_Inr_iff:
  "andThen m f s = (Inr y, t) \<longleftrightarrow> (\<exists>x u. m s = (Inr x, u) \<and> f x u = (Inr y, t))"
  by (auto simp: andThen_def split: prod.splits sum.splits)

lemma ok_or_Inr_iff [simp]: "ok_or e x s = (Inr v, t) \<longleftrightarrow> x = Some v \<and> t = s"
  by (auto simp: ok_or_def split: option.splits)

lemma unless_fail_Inr_iff [simp]: "unless_fail b e s = (Inr u, t) \<longleftrightarrow> b \<and> t = s"
  by (auto simp: unless_fail_def)

lemma ok_Inr_iff [simp]: "ok x s = (Inr y, t) \<longleftrightarrow> x = y \<and> s = t"
  by (auto simp: ok_def)

lemma throw_Inr_iff [simp]: "throw e s = (Inr y, t) \<longleftrightarrow> False"
  by (auto simp: throw_def)

lemma reads_Inr_iff [simp]: "reads f s = (Inr y, t) \<longleftrightarrow> y = f s \<and> t = s"
  by (auto simp: reads_def)

lemma modify_Inr_iff [simp]: "modify f s = (Inr y, t) \<longleftrightarrow> t = f s"
  by (auto simp: modify_def)

lemma zoom_Inr_iff: "zoom g p m s = (Inr y, t) \<longleftrightarrow> (\<exists>u. m (g s) = (Inr y, u) \<and> t = p u s)"
  by (auto simp: zoom_def split: prod.splits)

text \<open>Sequencing after the basic operations, computed out.\<close>

lemma andThen_simps:
  "andThen (andThen m f) g s = andThen m (\<lambda>x. andThen (f x) g) s"
  "andThen (ok x) h s = h x s"
  "andThen (throw e) h s = (Inl e, s)"
  "andThen (ok_or e y) h s = (case y of None \<Rightarrow> (Inl e, s) | Some z \<Rightarrow> h z s)"
  by (auto simp: andThen_def ok_def throw_def ok_or_def split: prod.splits sum.splits option.splits)

lemmas op_success = andThen_Inr_iff zoom_Inr_iff

text \<open>
  \<open>keeps P m\<close>: the operation keeps the invariant, whether it succeeds or fails.
\<close>

definition keeps :: "('s \<Rightarrow> bool) \<Rightarrow> ('s, 'e, 'a) op \<Rightarrow> bool" where
  "keeps P m \<longleftrightarrow> (\<forall>s. P s \<longrightarrow> P (snd (m s)))"

lemma keepsD: "keeps P m \<Longrightarrow> P s \<Longrightarrow> m s = (r, t) \<Longrightarrow> P t"
  by (auto simp: keeps_def dest: spec[of _ s])

lemma keepsD_snd: "keeps P m \<Longrightarrow> P s \<Longrightarrow> P (snd (m s))"
  by (auto simp: keeps_def)

lemma keeps_ok [keeps_intros]: "keeps P (ok x)"
  by (simp add: keeps_def ok_def)

lemma keeps_throw [keeps_intros]: "keeps P (throw e)"
  by (simp add: keeps_def throw_def)

lemma keeps_reads [keeps_intros]: "keeps P (reads f)"
  by (simp add: keeps_def reads_def)

lemma keeps_ok_or [keeps_intros]: "keeps P (ok_or e x)"
  by (simp add: keeps_def ok_or_def split: option.splits)

lemma keeps_unless_fail [keeps_intros]: "keeps P (unless_fail b e)"
  by (simp add: keeps_def unless_fail_def)

lemma keeps_andThen [keeps_intros]:
  "keeps P m \<Longrightarrow> (\<And>x. keeps P (f x)) \<Longrightarrow> keeps P (andThen m f)"
  unfolding keeps_def andThen_def
  by (auto split: prod.splits sum.splits; metis snd_conv)

lemma keeps_modify: "(\<And>s. P s \<Longrightarrow> P (f s)) \<Longrightarrow> keeps P (modify f)"
  by (simp add: keeps_def modify_def)

lemma keeps_zoom:
  "(\<And>s. P s \<Longrightarrow> P (p (snd (m (g s))) s)) \<Longrightarrow> keeps P (zoom g p m)"
  by (auto simp: keeps_def zoom_def split: prod.splits) (metis snd_conv)

lemma keeps_forEach [keeps_intros]: "(\<And>x. keeps P (f x)) \<Longrightarrow> keeps P (forEach xs f)"
  by (induction xs) (auto intro!: keeps_intros)

section \<open>Sorting and removing duplicates\<close>

lemma distinct_remdups_adj_sorted: "sorted xs \<Longrightarrow> distinct (remdups_adj xs)"
proof (induction xs rule: remdups_adj.induct)
  case (3 x y xs)
  then show ?case by (cases "x = y") (auto simp: less_le)
qed auto

text \<open>\<open>sort\<close> followed by \<open>dedup\<close> is determined by the set of the elements.\<close>

lemma remdups_adj_sort_eq_iff:
  fixes xs :: "'a :: linorder list"
  shows "remdups_adj (sort xs) = remdups_adj (sort ys) \<longleftrightarrow> set xs = set ys"
proof
  assume "remdups_adj (sort xs) = remdups_adj (sort ys)"
  then have "set (remdups_adj (sort xs)) = set (remdups_adj (sort ys))" by simp
  then show "set xs = set ys" by simp
next
  assume "set xs = set ys"
  then show "remdups_adj (sort xs) = remdups_adj (sort ys)"
    by (intro sorted_distinct_set_unique) (auto simp: distinct_remdups_adj_sorted)
qed

lemma length_filter_eq_iff: "length (filter P xs) = length xs \<longleftrightarrow> (\<forall>x \<in> set xs. P x)"
proof (induction xs)
  case (Cons x xs)
  have "length (filter P xs) < Suc (length xs)" by (simp add: le_imp_less_Suc)
  then have "length (filter P xs) \<noteq> Suc (length xs)" by (rule less_imp_neq)
  with Cons show ?case by simp
qed simp

section \<open>Association of options and maps\<close>

lemma map_option_eq_Some_D: "map_option f x = Some y \<Longrightarrow> \<exists>z. x = Some z \<and> y = f z"
  by auto

definition key_matches :: "('v \<Rightarrow> 'k) \<Rightarrow> ('k \<rightharpoonup> 'v) \<Rightarrow> bool" where
  "key_matches f m \<longleftrightarrow> (\<forall>k v. m k = Some v \<longrightarrow> f v = k)"

lemma key_matches_empty [simp]: "key_matches f Map.empty"
  by (simp add: key_matches_def)

lemma key_matches_upd [simp]: "key_matches f m \<Longrightarrow> f v = k \<Longrightarrow> key_matches f (m(k \<mapsto> v))"
  by (auto simp: key_matches_def)

lemma key_matches_del [simp]: "key_matches f m \<Longrightarrow> key_matches f (m(k := None))"
  by (auto simp: key_matches_def)

lemma key_matchesD: "key_matches f m \<Longrightarrow> m k = Some v \<Longrightarrow> f v = k"
  by (auto simp: key_matches_def)

lemma key_matches_image_ran:
  "key_matches f m \<Longrightarrow> f ` {v \<in> ran m. P v} = {k. \<exists>v. m k = Some v \<and> P v}"
  by (auto simp: key_matches_def ran_def image_def; metis)

section \<open>Ordered maps\<close>

text \<open>The entries of a \<open>BTreeMap\<close>, in the order of the keys.\<close>

definition btree_entries :: "('k :: linorder \<rightharpoonup> 'v) \<Rightarrow> ('k \<times> 'v) list" where
  "btree_entries m = map (\<lambda>k. (k, the (m k))) (sorted_list_of_set (dom m))"

lemma map_of_btree_entries: "finite (dom m) \<Longrightarrow> map_of (btree_entries m) = m"
  by (auto simp: btree_entries_def map_of_map_keys fun_eq_iff)

lemma set_btree_entries: "finite (dom m) \<Longrightarrow> (p, a) \<in> set (btree_entries m) \<longleftrightarrow> m p = Some a"
  by (auto simp: btree_entries_def)

lemma distinct_btree_keys [simp]: "distinct (map fst (btree_entries m))"
  by (simp add: btree_entries_def comp_def)

lemma btree_keys: "finite (dom m) \<Longrightarrow> fst ` set (btree_entries m) = dom m"
  by (force simp: btree_entries_def)

end
