(* ===== verification/Access.thy ===== *)
theory Access
  imports Prelude
begin

text \<open>
  Per-artifact access control, \<open>indras-artifacts/src/access.rs\<close>: access modes, grants, the
  life-cycle status of an artifact, the visibility check \<open>can_view\<close> and the contact list
  derived from the grants.
\<close>

section \<open>Data\<close>

type_synonym player_id = bytes32

datatype access_mode = Public | Revocable | Permanent | Timed int | Transfer

fun allows_download :: "access_mode \<Rightarrow> bool" where
  "allows_download m = (case m of Permanent \<Rightarrow> True | _ \<Rightarrow> False)"

fun allows_reshare :: "access_mode \<Rightarrow> bool" where
  "allows_reshare m = (case m of Permanent \<Rightarrow> True | _ \<Rightarrow> False)"

fun is_expired :: "access_mode \<Rightarrow> int \<Rightarrow> bool" where
  "is_expired (Timed expires_at) now = (now \<ge> expires_at)"
| "is_expired _ now = False"

fun mode_label :: "access_mode \<Rightarrow> string" where
  "mode_label Public = ''public''"
| "mode_label Revocable = ''revocable''"
| "mode_label Permanent = ''permanent''"
| "mode_label (Timed _) = ''timed''"
| "mode_label Transfer = ''transfer''"

definition default_mode :: access_mode where
  "default_mode = Revocable"

record access_grant =
  grantee :: player_id
  grant_mode :: access_mode
  granted_at :: int
  granted_by :: player_id

datatype artifact_status = Active | Recalled int | Transferred player_id int

definition default_status :: artifact_status where
  "default_status = Active"

fun is_active :: "artifact_status \<Rightarrow> bool" where
  "is_active Active = True"
| "is_active _ = False"

datatype provenance_type = CoStewardship | ViaTransfer

record artifact_provenance =
  original_steward :: player_id
  received_from :: player_id
  received_at :: int
  received_via :: provenance_type

section \<open>Visibility and contacts\<close>

definition can_view :: "player_id option \<Rightarrow> player_id \<Rightarrow> access_grant list \<Rightarrow> int \<Rightarrow> bool" where
  "can_view viewer steward grants now =
    (if list_ex (\<lambda>g. grant_mode g = Public) grants then True
     else (case viewer of
        None \<Rightarrow> False
      | Some v \<Rightarrow>
          if v = steward then True
          else list_ex (\<lambda>g. grantee g = v \<and> \<not> is_expired (grant_mode g) now) grants))"

definition extract_contact_ids :: "access_grant list \<Rightarrow> int \<Rightarrow> player_id list" where
  "extract_contact_ids grants now =
    remdups_adj (sort (map grantee (filter (\<lambda>g. \<not> is_expired (grant_mode g) now) grants)))"

section \<open>Properties\<close>

lemma is_expired_mono: "is_expired m t \<Longrightarrow> t \<le> t' \<Longrightarrow> is_expired m t'"
  by (cases m) auto

lemma is_expired_iff: "is_expired m now \<longleftrightarrow> (\<exists>e. m = Timed e \<and> e \<le> now)"
  by (cases m) auto

lemma can_view_iff:
  "can_view viewer steward grants now \<longleftrightarrow>
    (\<exists>g \<in> set grants. grant_mode g = Public) \<or> viewer = Some steward \<or>
    (\<exists>v g. viewer = Some v \<and> g \<in> set grants \<and> grantee g = v \<and> \<not> is_expired (grant_mode g) now)"
  by (auto simp: can_view_def list_ex_iff split: option.splits)

lemma set_extract_contact_ids:
  "set (extract_contact_ids grants now) =
    {grantee g | g. g \<in> set grants \<and> \<not> is_expired (grant_mode g) now}"
  by (auto simp: extract_contact_ids_def)

lemma sorted_distinct_extract_contact_ids:
  "sorted (extract_contact_ids grants now) \<and> distinct (extract_contact_ids grants now)"
  by (auto simp: extract_contact_ids_def distinct_remdups_adj_sorted)

end
