(* ===== verification/Formatting.thy ===== *)
theory Formatting
  imports Prelude
begin

text \<open>
  The formatting and parsing functions of the Rust standard library that the sources use to
  build labels and metadata keys: \<open>format!("{b:02x}")\<close> over a byte array, \<open>format!("{n}")\<close>
  for an \<open>i64\<close>, \<open>str::parse::<i64>\<close>, \<open>str::strip_prefix\<close>, \<open>str::as_bytes\<close> and
  \<open>String::from_utf8\<close>. A Rust string is the list of its UTF-8 bytes.
\<close>

section \<open>Strings as bytes\<close>

definition as_bytes :: "string \<Rightarrow> bytes" where
  "as_bytes = map of_char"

definition chars_of :: "bytes \<Rightarrow> string" where
  "chars_of = map (\<lambda>b. char_of (unat b))"

lemma unat_of_char: "unat (of_char c :: u8) = (of_char c :: nat)"
proof -
  have "(of_char c :: u8) = of_nat (of_char c)" by (cases c) simp
  moreover have "(of_char c :: nat) < 256" by (rule nat_of_char_less_256)
  ultimately show ?thesis by (simp add: unat_of_nat)
qed

lemma chars_of_as_bytes [simp]: "chars_of (as_bytes s) = s"
  by (induction s) (simp_all add: chars_of_def as_bytes_def unat_of_char)

lemma as_bytes_inj [simp]: "as_bytes s = as_bytes t \<longleftrightarrow> s = t"
  by (metis chars_of_as_bytes)

text \<open>
  The well-formed byte sequences of UTF-8, as \<open>String::from_utf8\<close> accepts them.
\<close>

definition cont_byte :: "u8 \<Rightarrow> bool" where
  "cont_byte b \<longleftrightarrow> 0x80 \<le> b \<and> b \<le> 0xBF"

fun utf8_valid :: "bytes \<Rightarrow> bool" where
  "utf8_valid [] = True"
| "utf8_valid (b # bs) =
    (if b \<le> 0x7F then utf8_valid bs
     else (case bs of
        [] \<Rightarrow> False
      | c1 # bs1 \<Rightarrow>
          if 0xC2 \<le> b \<and> b \<le> 0xDF then cont_byte c1 \<and> utf8_valid bs1
          else (case bs1 of
             [] \<Rightarrow> False
           | c2 # bs2 \<Rightarrow>
               if 0xE0 \<le> b \<and> b \<le> 0xEF then
                 cont_byte c1 \<and> cont_byte c2 \<and> (b = 0xE0 \<longrightarrow> 0xA0 \<le> c1) \<and>
                 (b = 0xED \<longrightarrow> c1 \<le> 0x9F) \<and> utf8_valid bs2
               else (case bs2 of
                  [] \<Rightarrow> False
                | c3 # bs3 \<Rightarrow>
                    0xF0 \<le> b \<and> b \<le> 0xF4 \<and> cont_byte c1 \<and> cont_byte c2 \<and> cont_byte c3 \<and>
                    (b = 0xF0 \<longrightarrow> 0x90 \<le> c1) \<and> (b = 0xF4 \<longrightarrow> c1 \<le> 0x8F) \<and>
                    utf8_valid bs3))))"

definition from_utf8 :: "bytes \<Rightarrow> string option" where
  "from_utf8 bs = (if utf8_valid bs then Some (chars_of bs) else None)"

section \<open>Hexadecimal\<close>

definition hex_digit :: "nat \<Rightarrow> char" where
  "hex_digit n = char_of (if n < 10 then 48 + n else 87 + n)"

definition hex_byte :: "u8 \<Rightarrow> string" where
  "hex_byte b = [hex_digit (unat b div 16), hex_digit (unat b mod 16)]"

definition hex :: "bytes \<Rightarrow> string" where
  "hex bs = concat (map hex_byte bs)"

lemma hex_digit_inj: "m < 16 \<Longrightarrow> n < 16 \<Longrightarrow> hex_digit m = hex_digit n \<Longrightarrow> m = n"
  unfolding hex_digit_def
  by (auto dest!: arg_cong[where f = "of_char :: char \<Rightarrow> nat"] split: if_splits)

lemma unat_u8_less: "unat (b :: u8) < 256"
  using unsigned_less[of b] by simp

lemma hex_byte_inj: "hex_byte a = hex_byte b \<Longrightarrow> a = b"
proof -
  assume "hex_byte a = hex_byte b"
  moreover have "unat a div 16 < 16" "unat b div 16 < 16"
    using unat_u8_less[of a] unat_u8_less[of b] by auto
  moreover have "unat a mod 16 < 16" "unat b mod 16 < 16" by auto
  ultimately have "unat a div 16 = unat b div 16" "unat a mod 16 = unat b mod 16"
    using hex_digit_inj[of "unat a div 16" "unat b div 16"]
      hex_digit_inj[of "unat a mod 16" "unat b mod 16"] by (auto simp: hex_byte_def)
  then have "unat a = unat b" by (metis div_mult_mod_eq)
  then show "a = b" by (rule unsigned_word_eqI)
qed

lemma hex_byte_length [simp]: "length (hex_byte b) = 2"
  by (simp add: hex_byte_def)

lemma hex_Nil [simp]: "hex [] = []" and hex_Cons [simp]: "hex (b # bs) = hex_byte b @ hex bs"
  by (simp_all add: hex_def)

lemma hex_length [simp]: "length (hex bs) = 2 * length bs"
  by (induction bs) auto

lemma hex_inj [simp]: "hex a = hex b \<longleftrightarrow> a = b"
proof
  show "hex a = hex b \<Longrightarrow> a = b"
  proof (induction a arbitrary: b)
    case Nil
    then have "length (hex b) = 0" by simp
    then show ?case by simp
  next
    case (Cons x a)
    have "length (hex (x # a)) = length (hex b)" by (simp only: Cons.prems)
    then obtain y b' where b: "b = y # b'" by (cases b) simp_all
    with Cons.prems have "hex_byte x = hex_byte y" "hex a = hex b'" by auto
    with Cons.IH b show ?case by (auto dest: hex_byte_inj)
  qed
qed simp

text \<open>Hexadecimal strings contain no colon, the separator of the labels.\<close>

lemma hex_digit_not_colon: "n < 16 \<Longrightarrow> hex_digit n \<noteq> CHR '':''"
  unfolding hex_digit_def
  by (auto dest!: arg_cong[where f = "of_char :: char \<Rightarrow> nat"] split: if_splits)

lemma hex_no_colon: "CHR '':'' \<notin> set (hex bs)"
proof (induction bs)
  case (Cons b bs)
  have "unat b div 16 < 16" using unat_u8_less[of b] by auto
  moreover have "unat b mod 16 < 16" by simp
  ultimately show ?case
    using Cons hex_digit_not_colon[of "unat b div 16"] hex_digit_not_colon[of "unat b mod 16"]
    by (simp add: hex_byte_def)
qed simp

section \<open>Decimal integers\<close>

definition digit_char :: "nat \<Rightarrow> char" where
  "digit_char n = char_of (48 + n)"

definition digit_val :: "char \<Rightarrow> nat option" where
  "digit_val c = (let n = of_char c in if 48 \<le> n \<and> n \<le> 57 then Some (n - 48) else None)"

fun show_nat :: "nat \<Rightarrow> string" where
  "show_nat n = (if n < 10 then [digit_char n] else show_nat (n div 10) @ [digit_char (n mod 10)])"

declare show_nat.simps [simp del]

definition show_int :: "int \<Rightarrow> string" where
  "show_int i = (if i < 0 then ''-'' @ show_nat (nat (- i)) else show_nat (nat i))"

fun parse_digits :: "nat \<Rightarrow> string \<Rightarrow> nat option" where
  "parse_digits acc [] = Some acc"
| "parse_digits acc (c # cs) =
    (case digit_val c of None \<Rightarrow> None | Some d \<Rightarrow> parse_digits (10 * acc + d) cs)"

text \<open>
  \<open>str::parse::<i64>\<close>: an optional sign, at least one digit, a value in range.
\<close>

definition parse_i64 :: "string \<Rightarrow> int option" where
  "parse_i64 s =
    (let (neg, ds) = (case s of [] \<Rightarrow> (False, [])
        | c # cs \<Rightarrow> if c = CHR ''-'' then (True, cs) else if c = CHR ''+'' then (False, cs) else (False, s))
     in if ds = [] then None
        else (case parse_digits 0 ds of None \<Rightarrow> None
          | Some n \<Rightarrow> let i = (if neg then - int n else int n) in if in_i64 i then Some i else None))"

lemma digit_val_char [simp]: "n < 10 \<Longrightarrow> digit_val (digit_char n) = Some n"
  by (simp add: digit_val_def digit_char_def)

lemma parse_digits_append:
  "parse_digits acc (s @ [digit_char d]) = map_option (\<lambda>n. 10 * n + d) (parse_digits acc s)"
  if "d < 10"
  using that by (induction s arbitrary: acc) (auto split: option.splits)

lemma show_nat_small: "n < 10 \<Longrightarrow> show_nat n = [digit_char n]"
  by (simp add: show_nat.simps[of n])

lemma show_nat_step: "10 \<le> n \<Longrightarrow> show_nat n = show_nat (n div 10) @ [digit_char (n mod 10)]"
  by (simp add: show_nat.simps[of n])

lemma parse_show_nat: "parse_digits 0 (show_nat k) = Some k"
proof (induction k rule: less_induct)
  case (less k)
  then show ?case
    by (cases "10 \<le> k") (simp_all add: show_nat_step show_nat_small parse_digits_append)
qed

lemma show_nat_hd: "\<exists>d cs. show_nat n = digit_char d # cs \<and> d < 10"
proof (induction n rule: show_nat.induct)
  case (1 n)
  then show ?case by (subst show_nat.simps) (cases "n < 10", auto)
qed

lemma digit_char_not_sign: "d < 10 \<Longrightarrow> digit_char d \<noteq> CHR ''-'' \<and> digit_char d \<noteq> CHR ''+''"
  unfolding digit_char_def
  by (auto dest!: arg_cong[where f = "of_char :: char \<Rightarrow> nat"])

lemma parse_i64_nat: "in_i64 (int n) \<Longrightarrow> parse_i64 (show_nat n) = Some (int n)"
  using show_nat_hd[of n] digit_char_not_sign parse_show_nat[of n]
  by (auto simp: parse_i64_def)

text \<open>Parsing what was printed gives the number back.\<close>

lemma parse_show_i64: "in_i64 i \<Longrightarrow> parse_i64 (show_int i) = Some i"
proof (cases "i < 0")
  case True
  assume i: "in_i64 i"
  obtain d cs where "show_nat (nat (- i)) = d # cs" using show_nat_hd by blast
  with True i parse_show_nat[of "nat (- i)"] show ?thesis
    by (simp add: parse_i64_def show_int_def)
next
  case False
  assume "in_i64 i"
  with False show ?thesis
    using parse_i64_nat[of "nat i"] by (simp add: show_int_def)
qed

section \<open>Prefixes\<close>

text \<open>\<open>str::strip_prefix\<close> and \<open>str::starts_with\<close>.\<close>

fun strip_prefix :: "string \<Rightarrow> string \<Rightarrow> string option" where
  "strip_prefix [] s = Some s"
| "strip_prefix (c # cs) [] = None"
| "strip_prefix (c # cs) (d # ds) = (if c = d then strip_prefix cs ds else None)"

definition starts_with :: "string \<Rightarrow> string \<Rightarrow> bool" where
  "starts_with p s \<longleftrightarrow> take (length p) s = p"

lemma strip_prefix_append [simp]: "strip_prefix p (p @ s) = Some s"
  by (induction p) auto

lemma strip_prefix_Some_iff: "strip_prefix p s = Some r \<longleftrightarrow> s = p @ r"
  by (induction p s rule: strip_prefix.induct) auto

lemma starts_with_append [simp]: "starts_with p (p @ s)"
  by (simp add: starts_with_def)

end
