(* ===== verification/Artifact.thy ===== *)
theory Artifact
  imports Access Formatting
begin

text \<open>
  Artifact identities and records, \<open>indras-artifacts/src/artifact.rs\<close>. The BLAKE3 hash of the
  \<open>blake3\<close> crate is the parameter \<open>b3\<close>; a fresh random identifier is an argument.
\<close>

section \<open>Identifiers\<close>

datatype artifact_id = Blob bytes32 | Doc bytes32

fun id_bytes :: "artifact_id \<Rightarrow> bytes32" where
  "id_bytes (Blob b) = b"
| "id_bytes (Doc d) = d"

fun is_blob :: "artifact_id \<Rightarrow> bool" where
  "is_blob (Blob _) = True"
| "is_blob (Doc _) = False"

fun is_doc :: "artifact_id \<Rightarrow> bool" where
  "is_doc (Doc _) = True"
| "is_doc (Blob _) = False"

text \<open>The derived order of the enum: variants in declaration order, then the bytes.\<close>

instantiation artifact_id :: linorder
begin

fun less_eq_artifact_id :: "artifact_id \<Rightarrow> artifact_id \<Rightarrow> bool" where
  "less_eq_artifact_id (Blob a) (Blob b) = (a \<le> b)"
| "less_eq_artifact_id (Blob _) (Doc _) = True"
| "less_eq_artifact_id (Doc _) (Blob _) = False"
| "less_eq_artifact_id (Doc a) (Doc b) = (a \<le> b)"

definition less_artifact_id :: "artifact_id \<Rightarrow> artifact_id \<Rightarrow> bool" where
  "less_artifact_id a b \<longleftrightarrow> a \<le> b \<and> a \<noteq> b"

instance
proof
  fix x y z :: artifact_id
  show "(x < y) = (x \<le> y \<and> \<not> y \<le> x)"
    by (cases x; cases y) (auto simp: less_artifact_id_def)
  show "x \<le> x" by (cases x) auto
  show "x \<le> y \<Longrightarrow> y \<le> z \<Longrightarrow> x \<le> z" by (cases x; cases y; cases z) auto
  show "x \<le> y \<Longrightarrow> y \<le> x \<Longrightarrow> x = y" by (cases x; cases y) auto
  show "x \<le> y \<or> y \<le> x" by (cases x; cases y) auto
qed

end

section \<open>Records\<close>

record stewardship_record =
  sr_from :: player_id
  sr_to :: player_id
  sr_timestamp :: int

record blessing_record =
  br_from :: player_id
  br_quest_id :: "artifact_id option"
  br_timestamp :: int
  br_message :: "string option"

record artifact_ref =
  ref_artifact_id :: artifact_id
  ref_position :: u64
  ref_label :: "string option"

record payload_ref =
  pl_name :: string
  pl_size :: u64
  pl_mime_type :: "string option"

record artifact =
  art_id :: artifact_id
  artifact_type :: string
  steward :: player_id
  grants :: "access_grant list"
  status :: artifact_status
  provenance :: "artifact_provenance option"
  created_at :: int
  payload :: "payload_ref option"
  references :: "artifact_ref list"
  metadata :: "string \<rightharpoonup> bytes"
  blessing_history :: "blessing_record list"

definition audience :: "artifact \<Rightarrow> int \<Rightarrow> player_id list" where
  "audience a now = map grantee (filter (\<lambda>g. \<not> is_expired (grant_mode g) now) (grants a))"

definition art_name :: "artifact \<Rightarrow> string option" where
  "art_name a = map_option pl_name (payload a)"

definition has_payload :: "artifact \<Rightarrow> bool" where
  "has_payload a \<longleftrightarrow> payload a \<noteq> None"

definition has_references :: "artifact \<Rightarrow> bool" where
  "has_references a \<longleftrightarrow> references a \<noteq> []"

section \<open>Errors\<close>

datatype vault_error =
    NotSteward | ArtifactNotFound | AlreadyPeered | NotPeered | PayloadNotLoaded
  | ExchangeNotFullyAccepted | ExchangeClosed | StoreError string | NotActive
  | ArtifactRecalled | ArtifactTransferred | AlreadyGranted | CannotRevoke

section \<open>Generated identifiers\<close>

definition leaf_id :: "(bytes \<Rightarrow> bytes32) \<Rightarrow> bytes \<Rightarrow> artifact_id" where
  "leaf_id b3 pl = Blob (b3 pl)"

definition generate_tree_id :: "bytes32 \<Rightarrow> artifact_id" where
  "generate_tree_id rnd = Doc rnd"

definition dm_input :: "player_id \<Rightarrow> player_id \<Rightarrow> bytes" where
  "dm_input a b =
    (let (first, second) = (if a \<le> b then (a, b) else (b, a))
     in as_bytes (''dm-v1:'' @ hex first @ hex second))"

definition dm_story_id :: "(bytes \<Rightarrow> bytes32) \<Rightarrow> player_id \<Rightarrow> player_id \<Rightarrow> artifact_id" where
  "dm_story_id b3 a b = Doc (b3 (dm_input a b))"

text \<open>
  \<open>blake3::Hasher\<close> hashes the concatenation of what \<open>update\<close> was given.
\<close>

definition group_input :: "player_id \<Rightarrow> player_id list \<Rightarrow> bytes" where
  "group_input creator members =
    (let members' = remdups_adj (sort (creator # members))
     in as_bytes ''group-tree-v1:'' @ creator @ concat members')"

definition group_tree_id :: "(bytes \<Rightarrow> bytes32) \<Rightarrow> player_id \<Rightarrow> player_id list \<Rightarrow> artifact_id" where
  "group_tree_id b3 creator members = Doc (b3 (group_input creator members))"

section \<open>Properties of the identifiers\<close>

text \<open>
  Collision freedom of the hash is only ever assumed on the inputs that are hashed
  (\<open>inj_on b3 S\<close> for a finite set \<open>S\<close>).
\<close>

lemma leaf_id_eq_iff: "inj_on b3 {p, q} \<Longrightarrow> leaf_id b3 p = leaf_id b3 q \<longleftrightarrow> p = q"
  by (auto simp: leaf_id_def inj_on_def)

lemma dm_input_sym: "dm_input a b = dm_input b a"
  by (auto simp: dm_input_def Let_def)

lemma dm_story_id_sym: "dm_story_id b3 a b = dm_story_id b3 b a"
  by (simp add: dm_story_id_def dm_input_sym)

lemma dm_input_inj:
  assumes "length a = 32" "length b = 32" "length c = 32" "length d = 32"
    and "dm_input a b = dm_input c d"
  shows "{a, b} = {c, d}"
proof -
  define lo hi where "lo x y = (if x \<le> y then x else y)" and "hi x y = (if x \<le> y then y else x)"
    for x y :: player_id
  have "hex (lo a b) @ hex (hi a b) = hex (lo c d) @ hex (hi c d)"
    using assms(5) by (auto simp: dm_input_def lo_def hi_def split: if_splits)
  moreover have "length (hex (lo a b)) = length (hex (lo c d))"
    using assms(1-4) by (simp add: lo_def)
  ultimately have "hex (lo a b) = hex (lo c d)" "hex (hi a b) = hex (hi c d)"
    using append_eq_append_conv by blast+
  then show ?thesis by (auto simp: lo_def hi_def split: if_splits)
qed

lemma concat_fixed_length_inj:
  assumes "\<forall>x \<in> set xs. length x = n" and "\<forall>y \<in> set ys. length y = n" and "0 < n"
    and "concat xs = concat ys"
  shows "xs = ys"
  using assms
proof (induction xs arbitrary: ys)
  case Nil
  then show ?case by (cases ys) auto
next
  case (Cons x xs)
  then have "ys \<noteq> []" by auto
  then obtain y ys' where ys: "ys = y # ys'" by (cases ys) auto
  with Cons.prems have "x @ concat xs = y @ concat ys'" "length x = length y" by auto
  then have "x = y" "concat xs = concat ys'" by auto
  moreover have "xs = ys'"
    using Cons.prems ys calculation(2) by (intro Cons.IH) auto
  ultimately show ?case using ys by simp
qed

text \<open>
  A group's hash input depends on the creator and on the set of members only: it does not
  change with the order of the members, with repetitions, or with the creator being listed;
  and it determines both.
\<close>

lemma group_input_cong:
  "set (c # ms) = set (c # ms') \<Longrightarrow> group_input c ms = group_input c ms'"
  using remdups_adj_sort_eq_iff[of "c # ms" "c # ms'"] by (simp add: group_input_def)

lemma group_input_inj:
  assumes len: "\<forall>x \<in> set (c # ms @ c' # ms'). length x = 32"
    and eq: "group_input c ms = group_input c' ms'"
  shows "c = c' \<and> set (c # ms) = set (c' # ms')"
proof -
  define xs where "xs = remdups_adj (sort (c # ms))"
  define ys where "ys = remdups_adj (sort (c' # ms'))"
  have sets: "set xs = set (c # ms)" "set ys = set (c' # ms')"
    by (simp_all add: xs_def ys_def set_insort_key)
  have "c @ concat xs = c' @ concat ys"
    using eq by (simp add: group_input_def xs_def ys_def Let_def)
  moreover have "length c = length c'" using len by simp
  ultimately have c: "c = c'" and "concat xs = concat ys" by auto
  then have "xs = ys"
    using len sets by (intro concat_fixed_length_inj[where n = 32]) auto
  with c show ?thesis using sets by simp
qed

end
