(* ===== verification/Peering.thy ===== *)
theory Peering
  imports Artifact
begin

text \<open>
  The mutual peer registry, \<open>indras-artifacts/src/peering.rs\<close>, and the choice of witnesses
  with its Byzantine quorum threshold, \<open>indras-artifacts/src/attention/witness.rs\<close>.
  \<open>byzantine_quorums\<close> is the interface that certificates rely on; \<open>bft\<close> discharges it for the
  threshold the code computes.
\<close>

section \<open>Peer registry\<close>

record peer_entry =
  pe_peer_id :: player_id
  pe_since :: int
  pe_display_name :: "string option"

record peer_registry =
  pr_player :: player_id
  pr_peers :: "peer_entry list"

definition new_registry :: "player_id \<Rightarrow> peer_registry" where
  "new_registry p = \<lparr>pr_player = p, pr_peers = []\<rparr>"

definition is_peer :: "peer_registry \<Rightarrow> player_id \<Rightarrow> bool" where
  "is_peer r p = list_ex (\<lambda>e. pe_peer_id e = p) (pr_peers r)"

definition add_peer :: "player_id \<Rightarrow> string option \<Rightarrow> int \<Rightarrow> (peer_registry, vault_error, unit) op" where
  "add_peer p display_name now r =
    (if is_peer r p then (Inl AlreadyPeered, r)
     else (Inr (), r\<lparr>pr_peers := pr_peers r @
            [\<lparr>pe_peer_id = p, pe_since = now, pe_display_name = display_name\<rparr>]\<rparr>))"

definition remove_peer :: "player_id \<Rightarrow> (peer_registry, vault_error, unit) op" where
  "remove_peer p r =
    (let before = length (pr_peers r);
         r' = r\<lparr>pr_peers := filter (\<lambda>e. pe_peer_id e \<noteq> p) (pr_peers r)\<rparr>
     in if length (pr_peers r') = before then (Inl NotPeered, r') else (Inr (), r'))"

definition peer_count :: "peer_registry \<Rightarrow> nat" where
  "peer_count r = length (pr_peers r)"

text \<open>A mutual peering with its two ends in canonical order.\<close>

record mutual_peering =
  mp_peer_a :: player_id
  mp_peer_b :: player_id
  mp_since :: int

definition new_mutual_peering :: "player_id \<Rightarrow> player_id \<Rightarrow> int \<Rightarrow> mutual_peering" where
  "new_mutual_peering a b since =
    (if a \<le> b then \<lparr>mp_peer_a = a, mp_peer_b = b, mp_since = since\<rparr>
     else \<lparr>mp_peer_a = b, mp_peer_b = a, mp_since = since\<rparr>)"

definition mp_contains :: "mutual_peering \<Rightarrow> player_id \<Rightarrow> bool" where
  "mp_contains m p \<longleftrightarrow> mp_peer_a m = p \<or> mp_peer_b m = p"

definition mp_other :: "mutual_peering \<Rightarrow> player_id \<Rightarrow> player_id option" where
  "mp_other m p =
    (if mp_peer_a m = p then Some (mp_peer_b m)
     else if mp_peer_b m = p then Some (mp_peer_a m) else None)"

section \<open>Witness selection\<close>

definition bft_quorum_threshold :: "nat \<Rightarrow> nat \<times> nat" where
  "bft_quorum_threshold n = (if n = 0 then (0, 0) else let f = (n - 1) div 3; k = n - f in (f, k))"

definition mutual_peers :: "peer_registry \<Rightarrow> peer_registry \<Rightarrow> player_id list" where
  "mutual_peers rp rq = map pe_peer_id (filter (\<lambda>e. is_peer rq (pe_peer_id e)) (pr_peers rp))"

definition select_witnesses :: "player_id list \<Rightarrow> nat \<Rightarrow> (player_id list \<times> nat) option" where
  "select_witnesses mutual m_min =
    (if length mutual < m_min then None
     else let (f, k) = bft_quorum_threshold (length mutual) in Some (mutual, k))"

section \<open>Registry invariant\<close>

definition registry_ok :: "peer_registry \<Rightarrow> bool" where
  "registry_ok r \<longleftrightarrow> distinct (map pe_peer_id (pr_peers r))"

definition peer_set :: "peer_registry \<Rightarrow> player_id set" where
  "peer_set r = pe_peer_id ` set (pr_peers r)"

lemma is_peer_iff [simp]: "is_peer r p \<longleftrightarrow> p \<in> peer_set r"
  by (auto simp: is_peer_def peer_set_def list_ex_iff)

lemma registry_ok_new [simp]: "registry_ok (new_registry p)"
  by (simp add: registry_ok_def new_registry_def)

lemma peer_set_new [simp]: "peer_set (new_registry p) = {}"
  by (simp add: peer_set_def new_registry_def)

lemma keeps_add_peer [keeps_intros]: "keeps registry_ok (add_peer p d now)"
  by (auto simp: keeps_def add_peer_def registry_ok_def peer_set_def)

lemma keeps_remove_peer [keeps_intros]: "keeps registry_ok (remove_peer p)"
  by (auto simp: keeps_def remove_peer_def registry_ok_def Let_def distinct_map_filter)

lemma add_peer_set: "peer_set (snd (add_peer p d now r)) = insert p (peer_set r)"
  by (auto simp: add_peer_def peer_set_def image_iff)

lemma remove_peer_set: "peer_set (snd (remove_peer p r)) = peer_set r - {p}"
  by (auto simp: remove_peer_def peer_set_def Let_def)

lemma remove_peer_result: "fst (remove_peer p r) = Inr () \<longleftrightarrow> p \<in> peer_set r"
  by (auto simp: remove_peer_def Let_def length_filter_eq_iff peer_set_def)

lemma set_mutual_peers: "set (mutual_peers rp rq) = peer_set rp \<inter> peer_set rq"
  by (auto simp: mutual_peers_def peer_set_def)

lemma distinct_mutual_peers: "registry_ok rp \<Longrightarrow> distinct (mutual_peers rp rq)"
  by (simp add: mutual_peers_def registry_ok_def distinct_map_filter)

section \<open>Byzantine quorums\<close>

locale byzantine_quorums =
  fixes quorum :: "'a set \<Rightarrow> bool" and f :: nat
  assumes overlap: "quorum Q \<Longrightarrow> quorum Q' \<Longrightarrow> f < card (Q \<inter> Q')"
begin

lemma quorum_nonempty: "quorum Q \<Longrightarrow> Q \<noteq> {}"
  using overlap[of Q Q] by auto

lemma honest_in_both:
  assumes "quorum Q" "quorum Q'" and "finite byz" "card byz \<le> f"
  shows "\<exists>w \<in> Q \<inter> Q'. w \<notin> byz"
proof (rule ccontr)
  assume "\<not> ?thesis"
  then have "Q \<inter> Q' \<subseteq> byz" by blast
  then have "card (Q \<inter> Q') \<le> card byz" using assms(3) by (rule card_mono[rotated])
  with assms(4) overlap[OF assms(1,2)] show False by simp
qed

lemma agreement:
  assumes "quorum Q" "quorum Q'" and "finite byz" "card byz \<le> f"
    and "\<forall>w \<in> Q. voted w v" and "\<forall>w \<in> Q'. voted w v'"
    and "\<And>w. w \<notin> byz \<Longrightarrow> voted w v \<Longrightarrow> voted w v' \<Longrightarrow> v = v'"
  shows "v = v'"
proof -
  obtain w where "w \<in> Q" "w \<in> Q'" "w \<notin> byz" using honest_in_both[OF assms(1-4)] by blast
  with assms(5-7) show ?thesis by blast
qed

end

text \<open>
  The quorums of a non-empty roster: sets of at least \<open>k\<close> members, \<open>k\<close> the computed threshold.
\<close>

definition bft_quorum :: "'a list \<Rightarrow> 'a set \<Rightarrow> bool" where
  "bft_quorum roster Q \<longleftrightarrow>
    roster \<noteq> [] \<and> Q \<subseteq> set roster \<and> snd (bft_quorum_threshold (length roster)) \<le> card Q"

lemma threshold_overlap:
  "0 < n \<Longrightarrow> bft_quorum_threshold n = (f, k) \<Longrightarrow> n + f < 2 * k \<and> 3 * f < n \<and> f < k \<and> k \<le> n"
proof -
  assume "0 < n" "bft_quorum_threshold n = (f, k)"
  then have "f = (n - 1) div 3" "k = n - f" by (auto simp: bft_quorum_threshold_def Let_def)
  moreover from this have "3 * f \<le> n - 1" by simp
  ultimately show ?thesis using \<open>0 < n\<close> by linarith
qed

interpretation bft: byzantine_quorums "bft_quorum roster" "fst (bft_quorum_threshold (length roster))"
  for roster
proof
  fix Q Q' :: "'a set"
  let ?f = "fst (bft_quorum_threshold (length roster))" and ?k = "snd (bft_quorum_threshold (length roster))"
  assume "bft_quorum roster Q" "bft_quorum roster Q'"
  then have ne: "roster \<noteq> []" and sub: "Q \<union> Q' \<subseteq> set roster" and "?k \<le> card Q" "?k \<le> card Q'"
    by (auto simp: bft_quorum_def)
  moreover have fin: "finite Q" "finite Q'" using sub finite_subset by auto
  then have "card Q + card Q' = card (Q \<union> Q') + card (Q \<inter> Q')" by (rule card_Un_Int)
  moreover have "card (Q \<union> Q') \<le> length roster"
    using card_mono[OF _ sub] card_length[of roster] by simp
  moreover have "length roster + ?f < 2 * ?k"
    using threshold_overlap[of "length roster" ?f ?k] ne by simp
  ultimately show "?f < card (Q \<inter> Q')" by linarith
qed

end
