(* ===== verification/Crypto.thy ===== *)
theory Crypto
  imports Prelude
begin

text \<open>
  The signature wrappers of \<open>indras-crypto/src/pq_identity.rs\<close>. The functions of the
  \<open>pqcrypto_dilithium\<close> and \<open>blake3\<close> crates are the fields of a record that every definition
  takes as an argument; \<open>'sk\<close> and \<open>'pk\<close> are its key types.
\<close>

record ('sk, 'pk) crypto_lib =
  blake3 :: "bytes \<Rightarrow> bytes32"
  signature_bytes :: nat
  detached_sign :: "bytes \<Rightarrow> 'sk \<Rightarrow> bytes"
  detached_ok :: "bytes \<Rightarrow> bool"
  verify_detached :: "bytes \<Rightarrow> bytes \<Rightarrow> 'pk \<Rightarrow> bool"

text \<open>\<open>PQIdentity::sign\<close>\<close>

definition pq_sign :: "('sk, 'pk, 'x) crypto_lib_scheme \<Rightarrow> 'sk \<Rightarrow> bytes \<Rightarrow> bytes" where
  "pq_sign L sk message = detached_sign L message sk"

text \<open>\<open>PQPublicIdentity::verify\<close>\<close>

definition pq_verify :: "('sk, 'pk, 'x) crypto_lib_scheme \<Rightarrow> 'pk \<Rightarrow> bytes \<Rightarrow> bytes \<Rightarrow> bool" where
  "pq_verify L pk message sig =
    (if length sig \<noteq> signature_bytes L then False
     else if detached_ok L sig then verify_detached L sig message pk else False)"

text \<open>\<open>PQSignature::from_bytes\<close>; the only error is a wrong size.\<close>

definition pq_signature_from_bytes :: "('sk, 'pk, 'x) crypto_lib_scheme \<Rightarrow> bytes \<Rightarrow> bytes option" where
  "pq_signature_from_bytes L bs = (if length bs \<noteq> signature_bytes L then None else Some bs)"

text \<open>
  The documented contract of the signature scheme for one key pair: what was signed with
  the secret key is a well-formed signature and verifies under the public key.
\<close>

definition key_pair :: "('sk, 'pk, 'x) crypto_lib_scheme \<Rightarrow> 'sk \<Rightarrow> 'pk \<Rightarrow> bool" where
  "key_pair L sk pk \<longleftrightarrow> 0 < signature_bytes L \<and>
    (\<forall>m. length (detached_sign L m sk) = signature_bytes L \<and> detached_ok L (detached_sign L m sk) \<and>
         verify_detached L (detached_sign L m sk) m pk)"

lemma pq_verify_sign: "key_pair L sk pk \<Longrightarrow> pq_verify L pk m (pq_sign L sk m)"
  by (simp add: key_pair_def pq_verify_def pq_sign_def)

end
