(* ===== verification/Attention.thy ===== *)
theory Attention
  imports Artifact Crypto
begin

text \<open>
  Attention switch events and the dwell-time functions of
  \<open>indras-artifacts/src/attention/mod.rs\<close>. The \<open>postcard\<close> encodings of the event, of its
  signable part and of the certified pair are fields of \<open>ledger_lib\<close>, next to the
  cryptographic functions. Timestamps are \<open>i64\<close> milliseconds; sequence numbers wrap at 64 bits.
\<close>

section \<open>Events\<close>

record signable_fields =
  ev_version :: u16
  ev_author :: player_id
  ev_seq :: u64
  ev_wall_time_ms :: int
  ev_from :: "artifact_id option"
  ev_to :: "artifact_id option"
  ev_prev :: bytes32

record attention_switch_event = signable_fields +
  ev_sig :: bytes

record ('sk, 'pk) ledger_lib = "('sk, 'pk) crypto_lib" +
  to_allocvec_event :: "attention_switch_event \<Rightarrow> bytes"
  to_allocvec_signable :: "signable_fields \<Rightarrow> bytes"
  to_allocvec_cert :: "bytes32 \<Rightarrow> artifact_id \<Rightarrow> bytes"

definition new_event ::
  "player_id \<Rightarrow> u64 \<Rightarrow> int \<Rightarrow> artifact_id option \<Rightarrow> artifact_id option \<Rightarrow> bytes32 \<Rightarrow> attention_switch_event" where
  "new_event author seq wall_time_ms frm to prev =
    \<lparr>ev_version = 1, ev_author = author, ev_seq = seq, ev_wall_time_ms = wall_time_ms,
     ev_from = frm, ev_to = to, ev_prev = prev, ev_sig = []\<rparr>"

definition signable_bytes :: "('sk, 'pk) ledger_lib \<Rightarrow> attention_switch_event \<Rightarrow> bytes" where
  "signable_bytes L e = to_allocvec_signable L (signable_fields.truncate e)"

definition event_hash :: "('sk, 'pk) ledger_lib \<Rightarrow> attention_switch_event \<Rightarrow> bytes32" where
  "event_hash L e = blake3 L (to_allocvec_event L e)"

definition sign :: "('sk, 'pk) ledger_lib \<Rightarrow> 'sk \<Rightarrow> attention_switch_event \<Rightarrow> attention_switch_event" where
  "sign L sk e = e\<lparr>ev_sig := pq_sign L sk (signable_bytes L e)\<rparr>"

definition verify_signature :: "('sk, 'pk) ledger_lib \<Rightarrow> 'pk \<Rightarrow> attention_switch_event \<Rightarrow> bool" where
  "verify_signature L pk e =
    (if ev_sig e = [] then False
     else (case pq_signature_from_bytes L (ev_sig e) of
        None \<Rightarrow> False
      | Some sg \<Rightarrow> pq_verify L pk (signable_bytes L e) sg))"

definition is_signed :: "attention_switch_event \<Rightarrow> bool" where
  "is_signed e \<longleftrightarrow> ev_sig e \<noteq> []"

definition is_genesis :: "attention_switch_event \<Rightarrow> bool" where
  "is_genesis e \<longleftrightarrow> ev_seq e = 0 \<and> ev_prev e = zeros32 \<and> ev_from e = None"

section \<open>Dwell time\<close>

record dwell_window =
  dw_player :: player_id
  dw_artifact_id :: artifact_id
  dw_start_timestamp :: int
  dw_end_timestamp :: int
  dw_duration_ms :: int

text \<open>The loop of \<open>compute_dwell_time\<close>, over the events that are left, with the running total.\<close>

fun dwell_loop :: "artifact_id \<Rightarrow> int \<Rightarrow> int \<Rightarrow> attention_switch_event list \<Rightarrow> int" where
  "dwell_loop a now acc [] = acc"
| "dwell_loop a now acc [e] =
    (if ev_to e = Some a then wrap_i64 (acc + wrap_i64 (now - ev_wall_time_ms e)) else acc)"
| "dwell_loop a now acc (e # n # es) =
    dwell_loop a now
      (if ev_to e = Some a \<and> ev_from n = Some a
       then wrap_i64 (acc + wrap_i64 (ev_wall_time_ms n - ev_wall_time_ms e)) else acc)
      (n # es)"

definition compute_dwell_time :: "attention_switch_event list \<Rightarrow> artifact_id \<Rightarrow> int \<Rightarrow> int" where
  "compute_dwell_time events a now = dwell_loop a now 0 events"

fun window_loop :: "player_id \<Rightarrow> artifact_id \<Rightarrow> attention_switch_event list \<Rightarrow> dwell_window list" where
  "window_loop player a (e # n # es) =
    (if ev_to e = Some a \<and> ev_from n = Some a
     then [\<lparr>dw_player = player, dw_artifact_id = a, dw_start_timestamp = ev_wall_time_ms e,
            dw_end_timestamp = ev_wall_time_ms n,
            dw_duration_ms = wrap_i64 (ev_wall_time_ms n - ev_wall_time_ms e)\<rparr>] else [])
    @ window_loop player a (n # es)"
| "window_loop player a _ = []"

definition extract_dwell_windows ::
  "player_id \<Rightarrow> artifact_id \<Rightarrow> attention_switch_event list \<Rightarrow> dwell_window list" where
  "extract_dwell_windows player a events =
    window_loop player a (filter (\<lambda>e. ev_author e = player) events)"

section \<open>Lemmas\<close>

lemma signable_bytes_sig [simp]: "signable_bytes L (e\<lparr>ev_sig := s\<rparr>) = signable_bytes L e"
  by (simp add: signable_bytes_def signable_fields.truncate_def)

lemma sign_verifies: "key_pair L sk pk \<Longrightarrow> verify_signature L pk (sign L sk e)"
proof -
  assume kp: "key_pair L sk pk"
  then have "length (pq_sign L sk (signable_bytes L e)) = signature_bytes L" "0 < signature_bytes L"
    by (simp_all add: key_pair_def pq_sign_def)
  then show ?thesis
    using pq_verify_sign[OF kp, of "signable_bytes L e"]
    by (auto simp: verify_signature_def sign_def pq_signature_from_bytes_def)
qed

text \<open>Exact dwell time, without wrap-around, as a sum over the adjacent pairs.\<close>

fun dwell_sum :: "artifact_id \<Rightarrow> int \<Rightarrow> attention_switch_event list \<Rightarrow> int" where
  "dwell_sum a now [] = 0"
| "dwell_sum a now [e] = (if ev_to e = Some a then now - ev_wall_time_ms e else 0)"
| "dwell_sum a now (e # n # es) =
    (if ev_to e = Some a \<and> ev_from n = Some a then ev_wall_time_ms n - ev_wall_time_ms e else 0)
    + dwell_sum a now (n # es)"

lemma dwell_loop_sum: "in_i64 acc \<Longrightarrow> dwell_loop a now acc es = wrap_i64 (acc + dwell_sum a now es)"
  by (induction a now acc es rule: dwell_loop.induct) (auto simp: wrap_i64_range add.assoc)

lemma compute_dwell_time_sum: "compute_dwell_time es a now = wrap_i64 (dwell_sum a now es)"
  by (simp add: compute_dwell_time_def dwell_loop_sum in_i64_def)

lemma window_loop_player: "w \<in> set (window_loop p a es) \<Longrightarrow> dw_player w = p \<and> dw_artifact_id w = a"
  by (induction p a es rule: window_loop.induct) (auto split: if_splits)

lemma window_loop_duration:
  "w \<in> set (window_loop p a es) \<Longrightarrow> dw_duration_ms w = wrap_i64 (dw_end_timestamp w - dw_start_timestamp w)"
  by (induction p a es rule: window_loop.induct) (auto split: if_splits)

text \<open>
  The windows account for all of the dwell time except the window that is still open.
\<close>

fun open_dwell :: "artifact_id \<Rightarrow> int \<Rightarrow> attention_switch_event list \<Rightarrow> int" where
  "open_dwell a now es =
    (if es \<noteq> [] \<and> ev_to (last es) = Some a then now - ev_wall_time_ms (last es) else 0)"

lemma wrap_sum_list_map:
  "wrap_i64 (sum_list (map (\<lambda>x. wrap_i64 (f x)) xs) + c) = wrap_i64 (sum_list (map f xs) + c)"
proof (induction xs arbitrary: c)
  case (Cons x xs)
  let ?S = "sum_list (map (\<lambda>x. wrap_i64 (f x)) xs)"
  have "wrap_i64 (wrap_i64 (f x) + (?S + c)) = wrap_i64 (f x + (?S + c))"
    by (rule wrap_i64_add_left)
  also have "\<dots> = wrap_i64 (?S + (f x + c))" by (simp only: add.left_commute)
  also have "\<dots> = wrap_i64 (sum_list (map f xs) + (f x + c))" by (rule Cons.IH)
  finally show ?case by (simp only: list.map sum_list.Cons ac_simps)
qed simp

lemma window_loop_dwell_sum:
  "dwell_sum a now es =
    sum_list (map (\<lambda>w. dw_end_timestamp w - dw_start_timestamp w) (window_loop p a es)) + open_dwell a now es"
  by (induction p a es rule: window_loop.induct) auto

end
