(* ===== verification/Sample.thy ===== *)
theory Sample
  imports Attention
begin

text \<open>
  Concrete values at which the properties of the ledger are evaluated: an instance of the
  library parameters (an encoding that keeps the distinguishing fields, the identity as
  hash, one-byte signatures) and a chain of three events of one player.
\<close>

definition encode_focus :: "artifact_id option \<Rightarrow> bytes" where
  "encode_focus x = (case x of None \<Rightarrow> [0] | Some (Blob b) \<Rightarrow> 1 # b | Some (Doc d) \<Rightarrow> 2 # d)"

definition sample_lib :: "(u8, u8) ledger_lib" where
  "sample_lib = \<lparr>blake3 = (\<lambda>bs. bs), signature_bytes = 1, detached_sign = (\<lambda>m sk. [sk]),
     detached_ok = (\<lambda>sg. True), verify_detached = (\<lambda>sg m pk. sg = [pk]),
     to_allocvec_event = (\<lambda>e. ucast (ev_seq e) # encode_focus (ev_to e) @ ev_sig e),
     to_allocvec_signable = (\<lambda>f. ucast (ev_seq f) # encode_focus (ev_to f)),
     to_allocvec_cert = (\<lambda>h a. h @ id_bytes a)\<rparr>"

definition player_a :: player_id where "player_a = replicate 32 1"
definition player_b :: player_id where "player_b = replicate 32 2"
definition player_c :: player_id where "player_c = replicate 32 3"
definition player_d :: player_id where "player_d = replicate 32 4"

definition doc_x :: artifact_id where "doc_x = Doc (replicate 32 7)"
definition doc_y :: artifact_id where "doc_y = Doc (replicate 32 8)"

definition event0 :: attention_switch_event where
  "event0 = sign sample_lib 5 (new_event player_a 0 100 None (Some doc_x) zeros32)"

definition event1 :: attention_switch_event where
  "event1 = sign sample_lib 5 (new_event player_a 1 130 (Some doc_x) (Some doc_y) (event_hash sample_lib event0))"

definition event2 :: attention_switch_event where
  "event2 = sign sample_lib 5 (new_event player_a 2 190 (Some doc_y) None (event_hash sample_lib event1))"

definition event2' :: attention_switch_event where
  "event2' = sign sample_lib 5 (new_event player_a 2 195 (Some doc_y) (Some doc_x) (event_hash sample_lib event1))"

definition sample_chain :: "attention_switch_event list" where
  "sample_chain = [event0, event1, event2]"

lemmas sample_defs =
  encode_focus_def sample_lib_def player_a_def player_b_def player_c_def player_d_def
  doc_x_def doc_y_def event0_def event1_def event2_def event2'_def sample_chain_def

lemma sample_key_pair: "key_pair sample_lib k k"
  by (simp add: key_pair_def sample_lib_def)

lemma sample_hashes_inj: "inj_on (event_hash sample_lib) {event0, event1, event2, event2'}"
  unfolding inj_on_def by code_simp

end
