(* ===== verification/Validate.thy ===== *)
theory Validate
  imports Sample "HOL-Library.Sublist"
begin

text \<open>
  Chain validation and fraud proofs, \<open>indras-artifacts/src/attention/validate.rs\<close> and
  \<open>fraud.rs\<close>. The lemmas relate \<open>validate_chain\<close> to a declarative description of a linked
  chain, derive the conservation law of the attention ledger from it, and show that a chain
  is determined by its last hash and that forks are detected.
\<close>

section \<open>Validation\<close>

datatype validation_error =
    InvalidSignature
  | SequenceGap (expected_seq: u64) (got_seq: u64)
  | PrevHashMismatch u64
  | AttentionContinuity u64 "artifact_id option" "artifact_id option"
  | InvalidGenesis
  | EmptyChain

record author_state =
  latest_seq :: u64
  latest_hash :: bytes32
  current_attention :: "artifact_id option"

definition signature_ok :: "('sk, 'pk) ledger_lib \<Rightarrow> 'pk option \<Rightarrow> attention_switch_event \<Rightarrow> bool" where
  "signature_ok L pk e = (case pk of None \<Rightarrow> True | Some k \<Rightarrow> verify_signature L k e)"

definition validate_event ::
  "('sk, 'pk) ledger_lib \<Rightarrow> attention_switch_event \<Rightarrow> author_state \<Rightarrow> 'pk option \<Rightarrow> validation_error + unit" where
  "validate_event L e st pk =
    (if \<not> signature_ok L pk e then Inl InvalidSignature
     else let exp = latest_seq st + 1 in
     if ev_seq e \<noteq> exp then Inl (SequenceGap exp (ev_seq e))
     else if ev_prev e \<noteq> latest_hash st then Inl (PrevHashMismatch (ev_seq e))
     else if ev_from e \<noteq> current_attention st
       then Inl (AttentionContinuity (ev_seq e) (current_attention st) (ev_from e))
     else Inr ())"

definition validate_genesis ::
  "('sk, 'pk) ledger_lib \<Rightarrow> attention_switch_event \<Rightarrow> 'pk option \<Rightarrow> validation_error + unit" where
  "validate_genesis L e pk =
    (if \<not> signature_ok L pk e then Inl InvalidSignature
     else if \<not> is_genesis e then Inl InvalidGenesis
     else Inr ())"

definition state_after :: "('sk, 'pk) ledger_lib \<Rightarrow> attention_switch_event \<Rightarrow> author_state" where
  "state_after L e = \<lparr>latest_seq = ev_seq e, latest_hash = event_hash L e, current_attention = ev_to e\<rparr>"

fun validate_rest ::
  "('sk, 'pk) ledger_lib \<Rightarrow> 'pk option \<Rightarrow> author_state \<Rightarrow> attention_switch_event list \<Rightarrow> validation_error + author_state" where
  "validate_rest L pk st [] = Inr st"
| "validate_rest L pk st (e # es) =
    (case validate_event L e st pk of
       Inl err \<Rightarrow> Inl err
     | Inr _ \<Rightarrow> validate_rest L pk (state_after L e) es)"

definition validate_chain ::
  "('sk, 'pk) ledger_lib \<Rightarrow> attention_switch_event list \<Rightarrow> 'pk option \<Rightarrow> validation_error + author_state" where
  "validate_chain L events pk =
    (case events of
       [] \<Rightarrow> Inl EmptyChain
     | first # rest \<Rightarrow>
        (case validate_genesis L first pk of
           Inl err \<Rightarrow> Inl err
         | Inr _ \<Rightarrow>
            validate_rest L pk
              \<lparr>latest_seq = 0, latest_hash = event_hash L first, current_attention = ev_to first\<rparr> rest))"

section \<open>Fraud proofs\<close>

record equivocation_proof =
  eq_author :: player_id
  eq_seq :: u64
  event_a :: attention_switch_event
  event_b :: attention_switch_event

definition is_valid :: "('sk, 'pk) ledger_lib \<Rightarrow> equivocation_proof \<Rightarrow> bool" where
  "is_valid L p \<longleftrightarrow>
    ev_author (event_a p) = ev_author (event_b p) \<and> ev_author (event_a p) = eq_author p \<and>
    ev_seq (event_a p) = ev_seq (event_b p) \<and> ev_seq (event_a p) = eq_seq p \<and>
    event_hash L (event_a p) \<noteq> event_hash L (event_b p)"

definition verify_signatures :: "('sk, 'pk) ledger_lib \<Rightarrow> 'pk \<Rightarrow> equivocation_proof \<Rightarrow> bool" where
  "verify_signatures L pk p \<longleftrightarrow> verify_signature L pk (event_a p) \<and> verify_signature L pk (event_b p)"

fun check_equivocation ::
  "('sk, 'pk) ledger_lib \<Rightarrow> attention_switch_event \<Rightarrow> attention_switch_event list \<Rightarrow> equivocation_proof option" where
  "check_equivocation L new [] = None"
| "check_equivocation L new (x # xs) =
    (if ev_author x = ev_author new \<and> ev_seq x = ev_seq new \<and> event_hash L x \<noteq> event_hash L new
     then Some \<lparr>eq_author = ev_author new, eq_seq = ev_seq new, event_a = x, event_b = new\<rparr>
     else check_equivocation L new xs)"

section \<open>Linked chains\<close>

text \<open>One event follows another: next sequence number, hash link, continuous attention.\<close>

definition follows :: "('sk, 'pk) ledger_lib \<Rightarrow> attention_switch_event \<Rightarrow> attention_switch_event \<Rightarrow> bool" where
  "follows L e n \<longleftrightarrow> ev_seq n = ev_seq e + 1 \<and> ev_prev n = event_hash L e \<and> ev_from n = ev_to e"

definition linked :: "('sk, 'pk) ledger_lib \<Rightarrow> attention_switch_event list \<Rightarrow> bool" where
  "linked L es \<longleftrightarrow> successively (follows L) es"

lemma validate_event_Inr:
  "validate_event L n (state_after L e) pk = Inr u \<longleftrightarrow> signature_ok L pk n \<and> follows L e n"
  by (auto simp: validate_event_def state_after_def follows_def Let_def)

lemma validate_event_Inl:
  "validate_event L n (state_after L e) pk = Inl err \<Longrightarrow> \<not> (signature_ok L pk n \<and> follows L e n)"
  using validate_event_Inr[of L n e pk "()"] by auto

lemma validate_rest_Inr:
  "validate_rest L pk (state_after L e) es = Inr st \<longleftrightarrow>
    linked L (e # es) \<and> list_all (signature_ok L pk) es \<and> st = state_after L (last (e # es))"
proof (induction es arbitrary: e)
  case Nil
  then show ?case by (auto simp: linked_def)
next
  case (Cons n es)
  show ?case
  proof (cases "validate_event L n (state_after L e) pk")
    case (Inl err)
    then show ?thesis using validate_event_Inl[OF Inl] by (auto simp: linked_def)
  next
    case (Inr u)
    then have "signature_ok L pk n" "follows L e n" by (simp_all add: validate_event_Inr)
    with Inr Cons.IH[of n] show ?thesis by (simp add: linked_def)
  qed
qed

lemma validate_chain_Inr:
  "validate_chain L es pk = Inr st \<longleftrightarrow>
    es \<noteq> [] \<and> is_genesis (hd es) \<and> linked L es \<and> list_all (signature_ok L pk) es \<and>
    st = state_after L (last es)"
proof (cases es)
  case Nil
  then show ?thesis by (simp add: validate_chain_def)
next
  case (Cons e rest)
  have "is_genesis e \<Longrightarrow>
      \<lparr>latest_seq = 0, latest_hash = event_hash L e, current_attention = ev_to e\<rparr> = state_after L e"
    by (simp add: is_genesis_def state_after_def)
  with Cons show ?thesis
    by (auto simp: validate_chain_def validate_genesis_def validate_rest_Inr split: sum.splits if_splits)
qed


subsection \<open>Sequence numbers\<close>

lemma linked_Cons_Cons [simp]: "linked L (e # n # es) \<longleftrightarrow> follows L e n \<and> linked L (n # es)"
  by (simp add: linked_def)

lemma linked_snoc_snoc: "linked L (es @ [e, n]) \<longleftrightarrow> follows L e n \<and> linked L (es @ [e])"
  by (auto simp: linked_def successively_append_iff)

lemma linked_seq:
  assumes "linked L es" and "i < length es"
  shows "ev_seq (es ! i) = ev_seq (hd es) + of_nat i"
  using assms
proof (induction i)
  case 0
  then show ?case by (simp add: hd_conv_nth)
next
  case (Suc i)
  then have "follows L (es ! i) (es ! Suc i)"
    by (simp add: linked_def successively_conv_nth)
  with Suc show ?case by (simp add: follows_def add.assoc)
qed

lemma chain_seq:
  "is_genesis (hd es) \<Longrightarrow> linked L es \<Longrightarrow> i < length es \<Longrightarrow> ev_seq (es ! i) = of_nat i"
  by (simp add: linked_seq is_genesis_def)

lemma u64_of_nat_inj:
  "m < 2 ^ 64 \<Longrightarrow> n < 2 ^ 64 \<Longrightarrow> (of_nat m :: u64) = of_nat n \<Longrightarrow> m = n"
  by (simp add: word_of_nat_eq_iff take_bit_eq_mod)


subsection \<open>Conservation of attention\<close>

definition moves_to :: "artifact_id \<Rightarrow> attention_switch_event list \<Rightarrow> nat" where
  "moves_to a es = length (filter (\<lambda>e. ev_to e = Some a) es)"

definition moves_from :: "artifact_id \<Rightarrow> attention_switch_event list \<Rightarrow> nat" where
  "moves_from a es = length (filter (\<lambda>e. ev_from e = Some a) es)"

lemma linked_flow:
  "linked L (e # es) \<Longrightarrow>
    moves_to a (e # es) = moves_from a es + (if ev_to (last (e # es)) = Some a then 1 else 0)"
proof (induction es arbitrary: e)
  case Nil
  then show ?case by (simp add: moves_to_def moves_from_def)
next
  case (Cons n es)
  then have "moves_to a (n # es) = moves_from a es + (if ev_to (last (n # es)) = Some a then 1 else 0)"
    by simp
  with Cons.prems show ?case by (auto simp: moves_to_def moves_from_def follows_def)
qed

lemma chain_flow:
  assumes "is_genesis (hd es)" and "linked L es" and "es \<noteq> []"
  shows "moves_to a es = moves_from a es + (if ev_to (last es) = Some a then 1 else 0)"
  using assms linked_flow[of L "hd es" "tl es" a]
  by (cases es) (auto simp: is_genesis_def moves_from_def)

text \<open>Time with some artifact in focus, from the first event up to \<open>now\<close>.\<close>

fun focused_time :: "int \<Rightarrow> attention_switch_event list \<Rightarrow> int" where
  "focused_time now [] = 0"
| "focused_time now [e] = (if ev_to e = None then 0 else now - ev_wall_time_ms e)"
| "focused_time now (e # n # es) =
    (if ev_to e = None then 0 else ev_wall_time_ms n - ev_wall_time_ms e) + focused_time now (n # es)"

lemma sum_indicator: "finite A \<Longrightarrow> (\<Sum>a\<in>A. if x = Some a then c else 0) = (if x \<in> Some ` A then c else (0::int))"
proof (cases x)
  case (Some y)
  assume "finite A"
  then show ?thesis using Some by (simp add: sum.delta image_iff)
qed auto

lemma dwell_conservation:
  assumes "finite A" and "linked L es" and "\<forall>e \<in> set es. ev_to e = None \<or> ev_to e \<in> Some ` A"
  shows "(\<Sum>a\<in>A. dwell_sum a now es) = focused_time now es"
  using assms(2,3)
proof (induction now es rule: focused_time.induct)
  case (2 now e)
  with assms(1) show ?case by (auto simp: sum_indicator)
next
  case (3 now e n es)
  have "dwell_sum a now (e # n # es) =
      (if ev_to e = Some a then ev_wall_time_ms n - ev_wall_time_ms e else 0) + dwell_sum a now (n # es)" for a
    using 3(2) by (auto simp: follows_def)
  with 3 assms(1) show ?case by (auto simp: sum.distrib sum_indicator)
qed simp

lemma focused_time_no_farewell:
  "es \<noteq> [] \<Longrightarrow> \<forall>e \<in> set es. ev_to e \<noteq> None \<Longrightarrow> focused_time now es = now - ev_wall_time_ms (hd es)"
  by (induction now es rule: focused_time.induct) auto

lemma wrap_sum: "finite A \<Longrightarrow> wrap_i64 (\<Sum>a\<in>A. wrap_i64 (f a)) = wrap_i64 (\<Sum>a\<in>A. f a)"
proof (induction A rule: finite_induct)
  case (insert x F)
  then have "wrap_i64 (f x + (\<Sum>a\<in>F. wrap_i64 (f a))) = wrap_i64 (f x + (\<Sum>a\<in>F. f a))"
    by (metis wrap_i64_add_right)
  with insert show ?case by simp
qed simp

subsection \<open>A chain is determined by its last hash\<close>

lemma linked_unique:
  assumes "linked L (xs @ [e])" "linked L (ys @ [e])"
    and "is_genesis (hd (xs @ [e]))" "is_genesis (hd (ys @ [e]))"
    and "length xs < 2 ^ 64" "length ys < 2 ^ 64"
    and "inj_on (event_hash L) (set xs \<union> set ys)"
  shows "xs = ys"
  using assms
proof (induction xs arbitrary: ys e rule: rev_induct)
  case Nil
  have "ev_seq e = 0" using Nil.prems(3) by (simp add: is_genesis_def)
  moreover have "ev_seq ((ys @ [e]) ! length ys) = of_nat (length ys)"
    using Nil.prems by (intro chain_seq) auto
  ultimately have "length ys = 0"
    using Nil.prems(6) u64_of_nat_inj[of "length ys" 0] by simp
  then show ?case by simp
next
  case (snoc x xs)
  have seq: "ev_seq e = of_nat (Suc (length xs))"
    using chain_seq[OF snoc.prems(3,1), of "Suc (length xs)"] by (simp add: nth_append)
  show ?case
  proof (cases ys rule: rev_cases)
    case Nil
    then have "ev_seq e = 0" using snoc.prems(4) by (simp add: is_genesis_def)
    with seq have "(of_nat (Suc (length xs)) :: u64) = of_nat 0" by simp
    then have "Suc (length xs) = 0" using snoc.prems(5) by (intro u64_of_nat_inj) auto
    then show ?thesis by simp
  next
    case (snoc ys' y)
    have "follows L x e" "follows L y e" and lx: "linked L (xs @ [x])" and ly: "linked L (ys' @ [y])"
      using snoc.prems(1,2) snoc linked_snoc_snoc[of L xs x e] linked_snoc_snoc[of L ys' y e] by auto
    then have "event_hash L x = event_hash L y" by (simp add: follows_def)
    then have "x = y" using inj_onD[OF snoc.prems(7), of x y] snoc by simp
    moreover have "xs = ys'"
      using snoc.prems lx ly snoc \<open>x = y\<close>
      by (intro snoc.IH[of x]) (auto simp: hd_append split: if_splits intro: inj_on_subset)
    ultimately show ?thesis using snoc by simp
  qed
qed

subsection \<open>Forks are detected\<close>

lemma check_equivocation_Some:
  "check_equivocation L new xs = Some p \<Longrightarrow> is_valid L p \<and> event_a p \<in> set xs \<and> event_b p = new"
  by (induction L new xs rule: check_equivocation.induct) (auto simp: is_valid_def split: if_splits)

lemma check_equivocation_None_iff:
  "check_equivocation L new xs = None \<longleftrightarrow>
    (\<forall>x \<in> set xs. ev_author x = ev_author new \<longrightarrow> ev_seq x = ev_seq new \<longrightarrow> event_hash L x = event_hash L new)"
  by (induction L new xs rule: check_equivocation.induct) auto

lemma not_prefix_diff:
  "\<not> prefix xs ys \<Longrightarrow> \<not> prefix ys xs \<Longrightarrow> \<exists>i. i < length xs \<and> i < length ys \<and> xs ! i \<noteq> ys ! i"
proof (induction xs arbitrary: ys)
  case (Cons x xs)
  then obtain y ys' where ys: "ys = y # ys'" by (cases ys) auto
  show ?case
  proof (cases "x = y")
    case True
    with Cons ys obtain i where "i < length xs" "i < length ys'" "xs ! i \<noteq> ys' ! i" by auto
    with ys show ?thesis by (intro exI[of _ "Suc i"]) auto
  next
    case False
    with ys show ?thesis by (intro exI[of _ 0]) auto
  qed
qed simp

lemma fork_detected:
  assumes "is_genesis (hd xs)" "linked L xs" "is_genesis (hd ys)" "linked L ys"
    and auth: "\<forall>e \<in> set xs \<union> set ys. ev_author e = a"
    and len: "length xs \<le> 2 ^ 64" "length ys \<le> 2 ^ 64"
    and inj: "inj_on (event_hash L) (set xs \<union> set ys)"
  shows "(\<forall>e \<in> set ys. check_equivocation L e xs = None) \<longleftrightarrow> prefix xs ys \<or> prefix ys xs"
proof
  assume none: "\<forall>e \<in> set ys. check_equivocation L e xs = None"
  show "prefix xs ys \<or> prefix ys xs"
  proof (rule ccontr)
    assume "\<not> (prefix xs ys \<or> prefix ys xs)"
    then obtain i where i: "i < length xs" "i < length ys" "xs ! i \<noteq> ys ! i"
      using not_prefix_diff by blast
    then have "ev_seq (xs ! i) = ev_seq (ys ! i)" using assms(1-4) by (simp add: chain_seq)
    moreover have "event_hash L (xs ! i) \<noteq> event_hash L (ys ! i)"
      using i inj by (auto simp: inj_on_def)
    ultimately show False using none i auth by (auto simp: check_equivocation_None_iff)
  qed
next
  assume pre: "prefix xs ys \<or> prefix ys xs"
  have "x = y" if "x \<in> set xs" "y \<in> set ys" and seq: "ev_seq x = ev_seq y" for x y
  proof -
    from that obtain i j where i: "i < length xs" "x = xs ! i" and j: "j < length ys" "y = ys ! j"
      by (auto simp: in_set_conv_nth)
    then have "(of_nat i :: u64) = of_nat j" using seq assms(1-4) by (simp add: chain_seq)
    then have "i = j" using i j len by (intro u64_of_nat_inj) auto
    then show ?thesis using pre i j by (auto simp: prefix_def nth_append)
  qed
  then show "\<forall>e \<in> set ys. check_equivocation L e xs = None"
    by (auto simp: check_equivocation_None_iff)
qed


subsection \<open>Validation in pieces\<close>

lemma validate_rest_append:
  "validate_rest L pk st (es @ fs) =
    (case validate_rest L pk st es of Inl err \<Rightarrow> Inl err | Inr st' \<Rightarrow> validate_rest L pk st' fs)"
  by (induction es arbitrary: st) (auto split: sum.splits)

section \<open>Properties of the ledger\<close>

text \<open>
  C2: \<open>validate_chain\<close> accepts exactly the non-empty chains that start with a genesis event,
  in which every event follows its predecessor (next sequence number, hash link, the
  attention it leaves is the attention the predecessor entered) and every signature verifies;
  it returns the state after the last event.
\<close>

theorem validate_chain_accepts:
  "validate_chain L es pk = Inr st \<longleftrightarrow>
    es \<noteq> [] \<and> is_genesis (hd es) \<and> successively (follows L) es \<and>
    list_all (signature_ok L pk) es \<and> st = state_after L (last es)"
  by (simp add: validate_chain_Inr linked_def)

text \<open>
  Validation is incremental: validating a longer log is validating the first part and
  continuing from the author state this returned, and the first error ends it.
\<close>

theorem validate_chain_incremental:
  assumes "es \<noteq> []"
  shows "validate_chain L (es @ fs) pk =
    (case validate_chain L es pk of Inl err \<Rightarrow> Inl err | Inr st \<Rightarrow> validate_rest L pk st fs)"
  using assms
  by (cases es) (auto simp: validate_chain_def validate_rest_append split: sum.splits)

theorem validate_chain_incremental_witness:
  "[event0, event1] \<noteq> [] \<and>
   validate_chain sample_lib ([event0, event1] @ [event2]) (Some 5) =
     validate_rest sample_lib (Some 5) (state_after sample_lib event1) [event2]"
  using validate_chain_incremental[of "[event0, event1]" sample_lib "[event2]" "Some 5"] by code_simp

text \<open>
  C1: Conservation of attention: in an accepted chain attention enters every artifact exactly
  as often as it leaves it, plus once if the returned state has it as current focus.
\<close>

theorem attention_conservation:
  assumes "validate_chain L es pk = Inr st"
  shows "moves_to a es = moves_from a es + (if current_attention st = Some a then 1 else 0)"
  using assms chain_flow[of es L a] by (simp add: validate_chain_Inr state_after_def)

theorem attention_conservation_witness:
  "moves_to doc_y [event0, event1] = moves_from doc_y [event0, event1] + 1"
proof -
  have "validate_chain sample_lib [event0, event1] (Some 5) = Inr (state_after sample_lib event1)"
    by code_simp
  from attention_conservation[OF this, of doc_y] show ?thesis by code_simp
qed

text \<open>
  C22: Conservation of dwell time: over any finite set of artifacts that covers the focus
  targets of an accepted chain, the dwell times that \<open>compute_dwell_time\<close> reports add up (in
  64-bit arithmetic) to the time the player had some artifact in focus.
\<close>

theorem dwell_time_conservation:
  assumes "validate_chain L es pk = Inr st" and "finite A"
    and "\<forall>e \<in> set es. ev_to e = None \<or> ev_to e \<in> Some ` A"
  shows "wrap_i64 (\<Sum>a\<in>A. compute_dwell_time es a now) = wrap_i64 (focused_time now es)"
  using assms dwell_conservation[of A L es now]
  by (simp add: compute_dwell_time_sum wrap_sum validate_chain_Inr)

theorem dwell_time_conservation_witness:
  "wrap_i64 (\<Sum>a\<in>{doc_x, doc_y}. compute_dwell_time sample_chain a 500) = 90"
proof -
  have "validate_chain sample_lib sample_chain (Some 5) = Inr (state_after sample_lib event2)"
    by code_simp
  moreover have "\<forall>e \<in> set sample_chain. ev_to e = None \<or> ev_to e \<in> Some ` {doc_x, doc_y}" by code_simp
  moreover have "wrap_i64 (focused_time 500 sample_chain) = 90" by code_simp
  ultimately show ?thesis
    using dwell_time_conservation[of sample_lib sample_chain "Some 5" _ "{doc_x, doc_y}" 500] by simp
qed

text \<open>
  Tamper evidence: two accepted chains whose returned states have the same head hash are
  the same chain, as long as no two of their events collide under the event hash and
  sequence numbers have not wrapped.
\<close>

theorem chain_determined_by_head:
  assumes "validate_chain L xs pk = Inr st" and "validate_chain L ys pk' = Inr st'"
    and "latest_hash st = latest_hash st'"
    and "inj_on (event_hash L) (set xs \<union> set ys)"
    and "length xs \<le> 2 ^ 64" and "length ys \<le> 2 ^ 64"
  shows "xs = ys"
proof -
  have ne: "xs \<noteq> []" "ys \<noteq> []" and "event_hash L (last xs) = event_hash L (last ys)"
    using assms(1-3) by (auto simp: validate_chain_Inr state_after_def)
  then have "last xs = last ys" using assms(4) by (auto dest: inj_onD)
  then obtain us vs e where xs: "xs = us @ [e]" and ys: "ys = vs @ [e]"
    using ne by (metis append_butlast_last_id)
  have "us = vs"
    using assms ne by (intro linked_unique[of L us e vs])
      (auto simp: validate_chain_Inr xs ys intro: inj_on_subset)
  with xs ys show ?thesis by simp
qed

theorem chain_determined_by_head_witness:
  "[event0, event1, event2] = sample_chain"
proof -
  have v: "validate_chain sample_lib sample_chain (Some 5) = Inr (state_after sample_lib event2)"
    by code_simp
  have "inj_on (event_hash sample_lib) (set [event0, event1, event2] \<union> set sample_chain)"
    by (rule inj_on_subset[OF sample_hashes_inj]) (simp add: sample_chain_def)
  then show ?thesis
    using chain_determined_by_head[of sample_lib "[event0, event1, event2]" "Some 5" _ sample_chain "Some 5"] v
    by (simp add: sample_chain_def)
qed

text \<open>
  C21: Forks are found and nothing else is reported: for two accepted chains of one author
  without hash collisions, checking every event of one against the other raises no
  equivocation proof exactly when one chain extends the other.
\<close>

theorem equivocation_iff_fork:
  assumes "validate_chain L xs pk = Inr st" and "validate_chain L ys pk' = Inr st'"
    and "\<forall>e \<in> set xs \<union> set ys. ev_author e = author"
    and "inj_on (event_hash L) (set xs \<union> set ys)"
    and "length xs \<le> 2 ^ 64" and "length ys \<le> 2 ^ 64"
  shows "(\<forall>e \<in> set ys. check_equivocation L e xs = None) \<longleftrightarrow> prefix xs ys \<or> prefix ys xs"
  using assms by (intro fork_detected[of xs L ys author]) (auto simp: validate_chain_Inr)

theorem equivocation_iff_fork_witness:
  "\<not> (\<forall>e \<in> set [event0, event1, event2']. check_equivocation sample_lib e [event0, event1, event2] = None)"
proof -
  let ?xs = "[event0, event1, event2]" and ?ys = "[event0, event1, event2']"
  have "validate_chain sample_lib ?xs (Some 5) = Inr (state_after sample_lib event2)"
    and "validate_chain sample_lib ?ys (Some 5) = Inr (state_after sample_lib event2')"
    by code_simp+
  moreover have "inj_on (event_hash sample_lib) (set ?xs \<union> set ?ys)"
    by (rule inj_on_subset[OF sample_hashes_inj]) auto
  moreover have "\<forall>e \<in> set ?xs \<union> set ?ys. ev_author e = player_a" by code_simp
  moreover have "\<not> (prefix ?xs ?ys \<or> prefix ?ys ?xs)" by code_simp
  ultimately show ?thesis
    using equivocation_iff_fork[of sample_lib ?xs "Some 5" _ ?ys "Some 5" _ player_a] by simp
qed

text \<open>
  An equivocation proof that \<open>check_equivocation\<close> returns is valid, blames the author of the
  new event, and names two events of the inputs with different hashes; if both were signed
  with the author's key its signatures verify.
\<close>

theorem equivocation_proof_sound:
  assumes "check_equivocation L new known = Some p" and "key_pair L sk pk"
    and "new = sign L sk e" and "\<forall>x \<in> set known. \<exists>e'. x = sign L sk e'"
  shows "is_valid L p \<and> eq_author p = ev_author new \<and> event_a p \<in> set known \<and> event_b p = new \<and>
    verify_signatures L pk p"
proof -
  have p: "is_valid L p" "event_a p \<in> set known" "event_b p = new"
    using check_equivocation_Some[OF assms(1)] by auto
  then show ?thesis
    using assms(2-4) by (auto simp: is_valid_def verify_signatures_def sign_verifies)
qed

theorem equivocation_proof_sound_witness:
  "\<exists>p. check_equivocation sample_lib event2' sample_chain = Some p \<and> verify_signatures sample_lib 5 p"
proof -
  let ?p = "\<lparr>eq_author = player_a, eq_seq = 2, event_a = event2, event_b = event2'\<rparr>"
  have 1: "check_equivocation sample_lib event2' sample_chain = Some ?p" by code_simp
  have 2: "\<forall>x \<in> set sample_chain. \<exists>e'. x = sign sample_lib 5 e'"
    by (auto simp: sample_chain_def event0_def event1_def event2_def)
  show ?thesis
    using equivocation_proof_sound[OF 1 sample_key_pair event2'_def 2] 1 by auto
qed

end
