(* ===== verification/Certificate.thy ===== *)
theory Certificate
  imports Peering Validate
begin

text \<open>
  Quorum certificates, \<open>indras-artifacts/src/attention/certificate.rs\<close>. The \<open>assert!\<close> on the
  threshold makes \<open>validate_certificate\<close> panic, which is the result \<open>None\<close>.
\<close>

section \<open>Certificates\<close>

record witness_signature =
  ws_witness :: player_id
  ws_sig :: bytes

record quorum_certificate =
  qc_version :: u16
  qc_event_hash :: bytes32
  qc_intention_scope :: artifact_id
  qc_witnesses :: "witness_signature list"

datatype certificate_error =
    InsufficientSignatures nat nat
  | SignerNotInRoster player_id
  | MissingPublicKey player_id
  | InvalidWitnessSignature player_id
  | DuplicateWitness player_id

definition cert_signable_bytes :: "('sk, 'pk) ledger_lib \<Rightarrow> bytes32 \<Rightarrow> artifact_id \<Rightarrow> bytes" where
  "cert_signable_bytes L h scope = to_allocvec_cert L h scope"

definition ws_sign ::
  "('sk, 'pk) ledger_lib \<Rightarrow> bytes32 \<Rightarrow> artifact_id \<Rightarrow> 'sk \<Rightarrow> player_id \<Rightarrow> witness_signature" where
  "ws_sign L h scope sk w = \<lparr>ws_witness = w, ws_sig = pq_sign L sk (cert_signable_bytes L h scope)\<rparr>"

definition ws_verify ::
  "('sk, 'pk) ledger_lib \<Rightarrow> witness_signature \<Rightarrow> bytes32 \<Rightarrow> artifact_id \<Rightarrow> 'pk \<Rightarrow> bool" where
  "ws_verify L ws h scope pk =
    (let msg = cert_signable_bytes L h scope
     in case pq_signature_from_bytes L (ws_sig ws) of
          None \<Rightarrow> False
        | Some sg \<Rightarrow> pq_verify L pk msg sg)"

definition new_certificate :: "bytes32 \<Rightarrow> artifact_id \<Rightarrow> quorum_certificate" where
  "new_certificate h scope =
    \<lparr>qc_version = 1, qc_event_hash = h, qc_intention_scope = scope, qc_witnesses = []\<rparr>"

definition add_witness :: "witness_signature \<Rightarrow> quorum_certificate \<Rightarrow> quorum_certificate" where
  "add_witness sg cert =
    (if \<not> list_ex (\<lambda>w. ws_witness w = ws_witness sg) (qc_witnesses cert)
     then cert\<lparr>qc_witnesses := qc_witnesses cert @ [sg]\<rparr> else cert)"

text \<open>The first loop: \<open>seen.insert\<close> fails on a repeated witness.\<close>

fun check_duplicates :: "player_id set \<Rightarrow> witness_signature list \<Rightarrow> certificate_error + unit" where
  "check_duplicates seen [] = Inr ()"
| "check_duplicates seen (ws # wss) =
    (if ws_witness ws \<in> seen then Inl (DuplicateWitness (ws_witness ws))
     else check_duplicates (insert (ws_witness ws) seen) wss)"

text \<open>The second loop: roster membership, key lookup, signature.\<close>

fun check_signers ::
  "('sk, 'pk) ledger_lib \<Rightarrow> bytes32 \<Rightarrow> artifact_id \<Rightarrow> player_id list \<Rightarrow> (player_id \<rightharpoonup> 'pk) \<Rightarrow>
   witness_signature list \<Rightarrow> certificate_error + unit" where
  "check_signers L h scope roster keys [] = Inr ()"
| "check_signers L h scope roster keys (ws # wss) =
    (if ws_witness ws \<notin> set roster then Inl (SignerNotInRoster (ws_witness ws))
     else (case keys (ws_witness ws) of
        None \<Rightarrow> Inl (MissingPublicKey (ws_witness ws))
      | Some pk \<Rightarrow>
          if \<not> ws_verify L ws h scope pk then Inl (InvalidWitnessSignature (ws_witness ws))
          else check_signers L h scope roster keys wss))"

definition validate_certificate ::
  "('sk, 'pk) ledger_lib \<Rightarrow> quorum_certificate \<Rightarrow> player_id list \<Rightarrow> nat \<Rightarrow> (player_id \<rightharpoonup> 'pk) \<Rightarrow>
   (certificate_error + unit) option" where
  "validate_certificate L cert roster k keys =
    (if k \<noteq> snd (bft_quorum_threshold (length roster)) then None
     else if length (qc_witnesses cert) < k
       then Some (Inl (InsufficientSignatures (length (qc_witnesses cert)) k))
     else (case check_duplicates {} (qc_witnesses cert) of
        Inl err \<Rightarrow> Some (Inl err)
      | Inr _ \<Rightarrow>
          Some (check_signers L (qc_event_hash cert) (qc_intention_scope cert) roster keys
                  (qc_witnesses cert))))"

definition qc_verify ::
  "('sk, 'pk) ledger_lib \<Rightarrow> quorum_certificate \<Rightarrow> player_id list \<Rightarrow> nat \<Rightarrow> (player_id \<rightharpoonup> 'pk) \<Rightarrow>
   (certificate_error + unit) option" where
  "qc_verify L cert roster k keys = validate_certificate L cert roster k keys"

section \<open>Asking a witness\<close>

text \<open>
  \<open>request_witness_signature\<close> of \<open>indras-sync-engine/src/realm_attention.rs\<close>: what a witness checks before
  it signs. The error is the message of \<open>IndraError::InvalidOperation\<close>.
\<close>

definition request_witness_signature ::
  "('sk, 'pk) ledger_lib \<Rightarrow> attention_switch_event \<Rightarrow> artifact_id \<Rightarrow> 'sk \<Rightarrow> player_id \<Rightarrow> 'pk \<Rightarrow> string + witness_signature" where
  "request_witness_signature L e scope sk w author_pubkey =
    (if \<not> verify_signature L author_pubkey e
     then Inl ''witness refused: event has invalid or missing author signature''
     else Inr (ws_sign L (event_hash L e) scope sk w))"

section \<open>Lemmas\<close>

definition signers :: "quorum_certificate \<Rightarrow> player_id set" where
  "signers cert = ws_witness ` set (qc_witnesses cert)"

lemma check_duplicates_Inr:
  "check_duplicates seen wss = Inr u \<longleftrightarrow>
    distinct (map ws_witness wss) \<and> ws_witness ` set wss \<inter> seen = {}"
  by (induction seen wss rule: check_duplicates.induct) auto

lemma check_signers_Inr:
  "check_signers L h scope roster keys wss = Inr u \<longleftrightarrow>
    (\<forall>ws \<in> set wss. ws_witness ws \<in> set roster \<and>
       (\<exists>pk. keys (ws_witness ws) = Some pk \<and> ws_verify L ws h scope pk))"
  by (induction L h scope roster keys wss rule: check_signers.induct) (auto split: option.splits)

lemma validate_certificate_ok:
  "validate_certificate L cert roster k keys = Some (Inr u) \<longleftrightarrow>
    k = snd (bft_quorum_threshold (length roster)) \<and> k \<le> length (qc_witnesses cert) \<and>
    distinct (map ws_witness (qc_witnesses cert)) \<and>
    (\<forall>ws \<in> set (qc_witnesses cert). ws_witness ws \<in> set roster \<and>
       (\<exists>pk. keys (ws_witness ws) = Some pk \<and>
             ws_verify L ws (qc_event_hash cert) (qc_intention_scope cert) pk))"
proof (cases "check_duplicates {} (qc_witnesses cert)")
  case (Inl err)
  then have "\<not> distinct (map ws_witness (qc_witnesses cert))"
    using check_duplicates_Inr[of "{}" "qc_witnesses cert" "()"] by auto
  with Inl show ?thesis by (auto simp: validate_certificate_def)
next
  case (Inr v)
  then have "distinct (map ws_witness (qc_witnesses cert))" by (simp add: check_duplicates_Inr)
  with Inr show ?thesis by (auto simp: validate_certificate_def check_signers_Inr)
qed

text \<open>The signers of a valid certificate are a quorum of the roster.\<close>

lemma valid_certificate_quorum:
  assumes "validate_certificate L cert roster k keys = Some (Inr u)" and "roster \<noteq> []"
  shows "bft_quorum roster (signers cert)"
proof -
  have "card (signers cert) = length (qc_witnesses cert)"
    using assms(1) distinct_card[of "map ws_witness (qc_witnesses cert)"]
    by (simp add: validate_certificate_ok signers_def)
  then show ?thesis
    using assms by (auto simp: validate_certificate_ok bft_quorum_def signers_def)
qed

lemma add_witness_distinct:
  "distinct (map ws_witness (qc_witnesses cert)) \<Longrightarrow> distinct (map ws_witness (qc_witnesses (add_witness sg cert)))"
  by (auto simp: add_witness_def list_ex_iff)

lemma add_witness_signers: "signers (add_witness sg cert) = insert (ws_witness sg) (signers cert)"
  by (auto simp: add_witness_def signers_def list_ex_iff image_iff) metis


lemma ws_verify_sign:
  assumes "key_pair L sk pk"
  shows "ws_verify L (ws_sign L h scope sk w) h scope pk"
proof -
  have "length (pq_sign L sk (cert_signable_bytes L h scope)) = signature_bytes L"
    using assms by (simp add: key_pair_def pq_sign_def)
  then show ?thesis
    using pq_verify_sign[OF assms]
    by (simp add: ws_verify_def ws_sign_def pq_signature_from_bytes_def Let_def)
qed

lemma add_witness_fields [simp]:
  "qc_event_hash (add_witness sg cert) = qc_event_hash cert"
  "qc_intention_scope (add_witness sg cert) = qc_intention_scope cert"
  by (simp_all add: add_witness_def)

lemma set_add_witness: "set (qc_witnesses (add_witness sg cert)) \<subseteq> insert sg (set (qc_witnesses cert))"
  by (auto simp: add_witness_def)

text \<open>Collecting signatures one after the other.\<close>

definition collect ::
  "('sk, 'pk) ledger_lib \<Rightarrow> bytes32 \<Rightarrow> artifact_id \<Rightarrow> (player_id \<Rightarrow> 'sk) \<Rightarrow> player_id list \<Rightarrow>
   quorum_certificate" where
  "collect L h scope sks ws =
    foldl (\<lambda>cert w. add_witness (ws_sign L h scope (sks w) w) cert) (new_certificate h scope) ws"

lemma collect_snoc:
  "collect L h scope sks (ws @ [w]) = add_witness (ws_sign L h scope (sks w) w) (collect L h scope sks ws)"
  by (simp add: collect_def)

lemma collect_invariant:
  "qc_event_hash (collect L h scope sks ws) = h \<and> qc_intention_scope (collect L h scope sks ws) = scope \<and>
   distinct (map ws_witness (qc_witnesses (collect L h scope sks ws))) \<and>
   signers (collect L h scope sks ws) = set ws \<and>
   set (qc_witnesses (collect L h scope sks ws)) \<subseteq> (\<lambda>w. ws_sign L h scope (sks w) w) ` set ws"
proof (induction ws rule: rev_induct)
  case Nil
  show ?case by (simp add: collect_def new_certificate_def signers_def)
next
  case (snoc w ws)
  then show ?case
    using add_witness_distinct[of "collect L h scope sks ws"]
      set_add_witness[of "ws_sign L h scope (sks w) w" "collect L h scope sks ws"]
    by (auto simp: collect_snoc add_witness_signers ws_sign_def)
qed

text \<open>Asking witnesses one after the other and adding what they answer to a new certificate.\<close>

definition certify ::
  "('sk, 'pk) ledger_lib \<Rightarrow> attention_switch_event \<Rightarrow> artifact_id \<Rightarrow> 'pk \<Rightarrow> (player_id \<Rightarrow> 'sk) \<Rightarrow> player_id list \<Rightarrow>
   quorum_certificate" where
  "certify L e scope pk sks ws =
    foldl (\<lambda>cert w. case request_witness_signature L e scope (sks w) w pk of
        Inl _ \<Rightarrow> cert | Inr sg \<Rightarrow> add_witness sg cert) (new_certificate (event_hash L e) scope) ws"

lemma certify_signed: "verify_signature L pk e \<Longrightarrow> certify L e scope pk sks ws = collect L (event_hash L e) scope sks ws"
  by (simp add: certify_def collect_def request_witness_signature_def)

lemma certify_unsigned: "\<not> verify_signature L pk e \<Longrightarrow> certify L e scope pk sks ws = new_certificate (event_hash L e) scope"
  by (induction ws rule: rev_induct) (simp_all add: certify_def request_witness_signature_def)

lemma signer_verified:
  assumes "validate_certificate L c roster k keys = Some (Inr u)" and "w \<in> signers c"
  shows "\<exists>pk ws. keys w = Some pk \<and> ws \<in> set (qc_witnesses c) \<and> ws_witness ws = w \<and>
    ws_verify L ws (qc_event_hash c) (qc_intention_scope c) pk"
proof -
  from assms(2) obtain ws where "ws \<in> set (qc_witnesses c)" "ws_witness ws = w" by (auto simp: signers_def)
  with assms(1) show ?thesis by (fastforce simp: validate_certificate_ok)
qed

section \<open>Properties of certificates\<close>

text \<open>
  Two valid certificates of the same non-empty roster have a signer in common that is
  none of the Byzantine witnesses, when there are at most \<open>f\<close> of those, \<open>f\<close> the tolerance
  that \<open>bft_quorum_threshold\<close> computes for the roster.
\<close>

theorem certificates_share_honest_signer:
  assumes "validate_certificate L c roster k keys = Some (Inr ())"
    and "validate_certificate L c' roster k' keys' = Some (Inr ())"
    and "roster \<noteq> []" and "finite byz" and "card byz \<le> fst (bft_quorum_threshold (length roster))"
  shows "\<exists>w \<in> signers c \<inter> signers c'. w \<notin> byz"
  using bft.honest_in_both[OF valid_certificate_quorum[OF assms(1,3)] valid_certificate_quorum[OF assms(2,3)]
      assms(4,5)] .

definition sample_roster :: "player_id list" where
  "sample_roster = [player_a, player_b, player_c, player_d]"

definition cert_abc :: quorum_certificate where
  "cert_abc = collect sample_lib zeros32 doc_x (\<lambda>w. hd w) [player_a, player_b, player_c]"

definition cert_bcd :: quorum_certificate where
  "cert_bcd = collect sample_lib zeros32 doc_x (\<lambda>w. hd w) [player_d, player_c, player_b, player_c]"

lemma sample_certs_valid:
  "validate_certificate sample_lib cert_abc sample_roster 3 (\<lambda>w. Some (hd w)) = Some (Inr ())"
  "validate_certificate sample_lib cert_bcd sample_roster 3 (\<lambda>w. Some (hd w)) = Some (Inr ())"
  by code_simp+

theorem certificates_share_honest_signer_witness:
  "\<exists>w \<in> signers cert_abc \<inter> signers cert_bcd. w \<notin> {player_c}"
proof (rule certificates_share_honest_signer[OF sample_certs_valid])
  show "sample_roster \<noteq> []" by code_simp
  show "finite {player_c}" by simp
  show "card {player_c} \<le> fst (bft_quorum_threshold (length sample_roster))" by code_simp
qed

text \<open>
  C3: Any two valid certificates of one non-empty roster have more than \<open>f\<close> signers in common, \<open>f\<close> being the number of
  Byzantine witnesses that \<open>bft_quorum_threshold\<close> tolerates for that roster. Each common signer is on the roster and
  its signatures in both certificates verify under the one key known for it. Two certificates for different events
  therefore expose more than \<open>f\<close> witnesses who signed both.
\<close>

theorem certificates_overlap:
  assumes "validate_certificate L c roster k keys = Some (Inr ())"
    and "validate_certificate L c' roster k keys = Some (Inr ())" and "roster \<noteq> []"
  shows "\<exists>W \<subseteq> set roster. fst (bft_quorum_threshold (length roster)) < card W \<and>
    (\<forall>w \<in> W. \<exists>pk ws ws'. keys w = Some pk \<and>
       ws \<in> set (qc_witnesses c) \<and> ws_witness ws = w \<and> ws_verify L ws (qc_event_hash c) (qc_intention_scope c) pk \<and>
       ws' \<in> set (qc_witnesses c') \<and> ws_witness ws' = w \<and> ws_verify L ws' (qc_event_hash c') (qc_intention_scope c') pk)"
proof -
  let ?W = "signers c \<inter> signers c'"
  have q: "bft_quorum roster (signers c)" "bft_quorum roster (signers c')"
    using assms by (auto intro: valid_certificate_quorum)
  then have "?W \<subseteq> set roster" by (auto simp: bft_quorum_def)
  moreover have "fst (bft_quorum_threshold (length roster)) < card ?W" by (rule bft.overlap[OF q])
  moreover have "\<exists>pk ws ws'. keys w = Some pk \<and>
       ws \<in> set (qc_witnesses c) \<and> ws_witness ws = w \<and> ws_verify L ws (qc_event_hash c) (qc_intention_scope c) pk \<and>
       ws' \<in> set (qc_witnesses c') \<and> ws_witness ws' = w \<and> ws_verify L ws' (qc_event_hash c') (qc_intention_scope c') pk"
    if "w \<in> ?W" for w
  proof -
    from signer_verified[OF assms(1) IntD1[OF that]] obtain pk ws where ws: "keys w = Some pk" "ws \<in> set (qc_witnesses c)"
      "ws_witness ws = w" "ws_verify L ws (qc_event_hash c) (qc_intention_scope c) pk" by (elim exE conjE)
    from signer_verified[OF assms(2) IntD2[OF that]] ws(1) obtain ws' where "ws' \<in> set (qc_witnesses c')"
      "ws_witness ws' = w" "ws_verify L ws' (qc_event_hash c') (qc_intention_scope c') pk" by auto
    with ws show ?thesis by (intro exI conjI)
  qed
  ultimately show ?thesis by (intro exI[of _ ?W] conjI ballI)
qed

theorem certificates_overlap_witness:
  "\<exists>W \<subseteq> set sample_roster. 1 < card W \<and>
    (\<forall>w \<in> W. w \<in> signers cert_abc \<and> w \<in> signers cert_bcd)"
proof -
  have ne: "sample_roster \<noteq> []" and f: "fst (bft_quorum_threshold (length sample_roster)) = 1" by code_simp+
  obtain W where W: "W \<subseteq> set sample_roster" "fst (bft_quorum_threshold (length sample_roster)) < card W"
    and sig: "\<forall>w \<in> W. \<exists>pk ws ws'. Some (hd w) = Some pk \<and>
       ws \<in> set (qc_witnesses cert_abc) \<and> ws_witness ws = w \<and>
       ws_verify sample_lib ws (qc_event_hash cert_abc) (qc_intention_scope cert_abc) pk \<and>
       ws' \<in> set (qc_witnesses cert_bcd) \<and> ws_witness ws' = w \<and>
       ws_verify sample_lib ws' (qc_event_hash cert_bcd) (qc_intention_scope cert_bcd) pk"
    using certificates_overlap[OF sample_certs_valid ne] by (elim exE conjE)
  have "w \<in> signers cert_abc \<and> w \<in> signers cert_bcd" if "w \<in> W" for w
  proof -
    from bspec[OF sig that] obtain ws ws' where "ws \<in> set (qc_witnesses cert_abc)" "ws_witness ws = w"
      "ws' \<in> set (qc_witnesses cert_bcd)" "ws_witness ws' = w" by (elim exE conjE)
    then show ?thesis unfolding signers_def by (metis imageI)
  qed
  then have "\<forall>w \<in> W. w \<in> signers cert_abc \<and> w \<in> signers cert_bcd" by (rule ballI)
  with W show ?thesis unfolding f by (intro exI[of _ W] conjI)
qed

text \<open>
  What agreement would need. Let \<open>has_signed w h\<close> say that witness \<open>w\<close> signed the event with hash \<open>h\<close> for one
  slot (an author and sequence number). If at most \<open>f\<close> witnesses are Byzantine, a signature of any other witness that verifies in
  one of two certificates was made by it, and these witnesses sign one event per slot,
  then two valid certificates of one roster for that slot certify the same event hash. The last premise does not
  hold of witnesses that answer with \<open>request_witness_signature\<close>, see below.
\<close>

lemma certificate_agreement:
  assumes "validate_certificate L c roster k keys = Some (Inr ())"
    and "validate_certificate L c' roster k keys = Some (Inr ())"
    and "roster \<noteq> []" and "finite byz" and "card byz \<le> fst (bft_quorum_threshold (length roster))"
    and unforgeable: "\<And>cert ws pk. cert \<in> {c, c'} \<Longrightarrow> ws \<in> set (qc_witnesses cert) \<Longrightarrow>
      ws_witness ws \<notin> byz \<Longrightarrow> keys (ws_witness ws) = Some pk \<Longrightarrow>
      ws_verify L ws (qc_event_hash cert) (qc_intention_scope cert) pk \<Longrightarrow>
      has_signed (ws_witness ws) (qc_event_hash cert)"
    and honest: "\<And>w h h'. w \<notin> byz \<Longrightarrow> has_signed w h \<Longrightarrow> has_signed w h' \<Longrightarrow> h = h'"
  shows "qc_event_hash c = qc_event_hash c'"
proof (rule bft.agreement[OF valid_certificate_quorum[OF assms(1,3)] valid_certificate_quorum[OF assms(2,3)]
      assms(4,5)])
  let ?voted = "\<lambda>w h. w \<in> byz \<or> has_signed w h"
  show "\<forall>w \<in> signers c. ?voted w (qc_event_hash c)"
    using assms(1) unforgeable[of c] by (fastforce simp: signers_def validate_certificate_ok)
  show "\<forall>w \<in> signers c'. ?voted w (qc_event_hash c')"
    using assms(2) unforgeable[of c'] by (fastforce simp: signers_def validate_certificate_ok)
  show "qc_event_hash c = qc_event_hash c'"
    if "w \<notin> byz" "?voted w (qc_event_hash c)" "?voted w (qc_event_hash c')" for w
    using that honest by blast
qed

lemma collected_valid:
  assumes "\<And>w. w \<in> set ws \<Longrightarrow> w \<in> set roster"
    and "\<And>w. w \<in> set ws \<Longrightarrow> \<exists>pk. keys w = Some pk \<and> key_pair L (sks w) pk"
    and "k = snd (bft_quorum_threshold (length roster))" and "k \<le> card (set ws)"
  shows "validate_certificate L (collect L h scope sks ws) roster k keys = Some (Inr ())"
proof -
  let ?c = "collect L h scope sks ws"
  have inv: "qc_event_hash ?c = h" "qc_intention_scope ?c = scope" "distinct (map ws_witness (qc_witnesses ?c))"
    "signers ?c = set ws" "set (qc_witnesses ?c) \<subseteq> (\<lambda>w. ws_sign L h scope (sks w) w) ` set ws"
    using collect_invariant[of L h scope sks ws] by auto
  have "length (qc_witnesses ?c) = card (set ws)"
    using distinct_card[OF inv(3)] inv(4) by (simp add: signers_def)
  moreover have "\<exists>pk. keys (ws_witness s) = Some pk \<and> ws_verify L s h scope pk" "ws_witness s \<in> set roster"
    if "s \<in> set (qc_witnesses ?c)" for s
  proof -
    from that inv(5) obtain w where w: "w \<in> set ws" "s = ws_sign L h scope (sks w) w" by auto
    then show "\<exists>pk. keys (ws_witness s) = Some pk \<and> ws_verify L s h scope pk"
      using assms(2)[of w] ws_verify_sign by (fastforce simp: ws_sign_def)
    show "ws_witness s \<in> set roster" using w assms(1) by (simp add: ws_sign_def)
  qed
  ultimately show ?thesis using inv(1-3) assms(3,4) by (simp add: validate_certificate_ok)
qed

text \<open>
  C34: A certificate made by collecting signatures of roster members (in any order, with
  repetitions) validates as soon as a threshold of different members has signed.
\<close>

theorem collected_certificate_valid:
  assumes "\<And>w. w \<in> set ws \<Longrightarrow> w \<in> set roster"
    and "\<And>w. w \<in> set ws \<Longrightarrow> \<exists>pk. keys w = Some pk \<and> key_pair L (sks w) pk"
    and "k = snd (bft_quorum_threshold (length roster))" and "k \<le> card (set ws)"
  shows "validate_certificate L (collect L h scope sks ws) roster k keys = Some (Inr ())"
  by (rule collected_valid[OF assms])

theorem collected_certificate_valid_witness:
  "validate_certificate sample_lib
     (collect sample_lib zeros32 doc_y (\<lambda>w. hd w) [player_b, player_a, player_b, player_d])
     sample_roster 3 (\<lambda>w. Some (hd w)) = Some (Inr ())"
  by (rule collected_certificate_valid) (auto simp: sample_key_pair | code_simp)+

text \<open>
  C4: A witness that answers as the code does signs every event with a valid signature of its author, also a second
  one for the same author and sequence number. So when an author signs two events of one slot (the two events of a valid equivocation
  proof), and a threshold of roster members with known keys is asked to sign both, both get a valid certificate.
\<close>

theorem fork_certified_twice:
  assumes "is_valid L p" and "verify_signatures L apk p"
    and "\<And>w. w \<in> set ws \<Longrightarrow> w \<in> set roster \<and> (\<exists>pk. keys w = Some pk \<and> key_pair L (sks w) pk)"
    and "k = snd (bft_quorum_threshold (length roster))" and "k \<le> card (set ws)"
  shows "validate_certificate L (certify L (event_a p) scope apk sks ws) roster k keys = Some (Inr ()) \<and>
    validate_certificate L (certify L (event_b p) scope apk sks ws) roster k keys = Some (Inr ()) \<and>
    qc_event_hash (certify L (event_a p) scope apk sks ws) \<noteq> qc_event_hash (certify L (event_b p) scope apk sks ws)"
proof -
  have v: "verify_signature L apk (event_a p)" "verify_signature L apk (event_b p)"
    using assms(2) by (simp_all add: verify_signatures_def)
  have "validate_certificate L (collect L h scope sks ws) roster k keys = Some (Inr ())" for h
    by (rule collected_valid) (use assms(3-5) in blast)+
  with v assms(1) show ?thesis by (simp add: certify_signed collect_invariant is_valid_def)
qed

definition sample_fork :: equivocation_proof where
  "sample_fork = \<lparr>eq_author = player_a, eq_seq = 2, event_a = event2, event_b = event2'\<rparr>"

lemma sample_fork_valid: "is_valid sample_lib sample_fork" "verify_signatures sample_lib 5 sample_fork"
proof -
  have "check_equivocation sample_lib event2' [event2] = Some sample_fork" by code_simp
  from check_equivocation_Some[OF this] show "is_valid sample_lib sample_fork" by (elim conjE)
  show "verify_signatures sample_lib 5 sample_fork"
    unfolding verify_signatures_def sample_fork_def equivocation_proof.select_convs event2_def event2'_def
    by (intro conjI sign_verifies sample_key_pair)
qed

theorem fork_certified_twice_witness:
  "qc_event_hash (certify sample_lib (event_a sample_fork) doc_y 5 hd [player_b, player_a, player_d]) \<noteq>
     qc_event_hash (certify sample_lib (event_b sample_fork) doc_y 5 hd [player_b, player_a, player_d])"
proof -
  have w: "w \<in> set sample_roster \<and> (\<exists>pk. Some (hd w) = Some pk \<and> key_pair sample_lib (hd w) pk)"
    if "w \<in> set [player_b, player_a, player_d]" for w
    using that by (auto simp: sample_key_pair sample_roster_def)
  have k: "3 = snd (bft_quorum_threshold (length sample_roster))" "3 \<le> card (set [player_b, player_a, player_d])"
    by code_simp+
  show ?thesis by (rule fork_certified_twice[THEN conjunct2, THEN conjunct2, OF sample_fork_valid w k])
qed

end
