(* ===== verification/Store.thy ===== *)
theory Store
  imports Validate
begin

text \<open>
  The storage traits and their in-memory implementations, \<open>indras-artifacts/src/store.rs\<close>.
  Operations whose \<open>Result\<close> is always \<open>Ok\<close> and that do not change the store are plain
  functions. Lists collected by iterating over a \<open>HashMap\<close> have no fixed order and no
  repetition (one entry per key); they are modelled by their sets.
  \<^item> \<open>artifact_mutator\<close> is the contract shared by the operations that edit one artifact in
    place, interpreted for each of them.
  \<^item> \<open>payload_store\<close> is the contract of a content-addressed store.
  \<^item> \<open>attention_store_ops\<close> is the part of the trait \<open>AttentionStore\<close> that the attention log
    calls, as a record of functions; \<open>attention_store\<close> states its laws.
\<close>

section \<open>Artifact store\<close>

record artifact_store =
  as_artifacts :: "artifact_id \<rightharpoonup> artifact"
  as_stewardship_history :: "artifact_id \<rightharpoonup> stewardship_record list"

type_synonym 'a store_op = "(artifact_store, vault_error, 'a) op"

definition new_artifact_store :: artifact_store where
  "new_artifact_store = \<lparr>as_artifacts = Map.empty, as_stewardship_history = Map.empty\<rparr>"

definition put_artifact :: "artifact \<Rightarrow> unit store_op" where
  "put_artifact a = modify (\<lambda>s. s\<lparr>as_artifacts := (as_artifacts s)(art_id a \<mapsto> a)\<rparr>)"

definition get_artifact :: "artifact_store \<Rightarrow> artifact_id \<Rightarrow> artifact option" where
  "get_artifact s i = as_artifacts s i"

definition list_by_type :: "artifact_store \<Rightarrow> string \<Rightarrow> artifact_id set" where
  "list_by_type s ty = art_id ` {a \<in> ran (as_artifacts s). artifact_type a = ty}"

definition list_by_steward :: "artifact_store \<Rightarrow> player_id \<Rightarrow> artifact_id set" where
  "list_by_steward s p = art_id ` {a \<in> ran (as_artifacts s). steward a = p}"

text \<open>\<open>get_mut(id).ok_or(ArtifactNotFound)?\<close> followed by an assignment through the reference.\<close>

definition edit_artifact :: "artifact_id \<Rightarrow> (artifact \<Rightarrow> artifact) \<Rightarrow> unit store_op" where
  "edit_artifact i f s =
    (case as_artifacts s i of
       None \<Rightarrow> (Inl ArtifactNotFound, s)
     | Some a \<Rightarrow> (Inr (), s\<lparr>as_artifacts := (as_artifacts s)(i \<mapsto> f a)\<rparr>))"

definition update_steward :: "artifact_id \<Rightarrow> player_id \<Rightarrow> unit store_op" where
  "update_steward i p = edit_artifact i (\<lambda>a. a\<lparr>steward := p\<rparr>)"

definition update_status :: "artifact_id \<Rightarrow> artifact_status \<Rightarrow> unit store_op" where
  "update_status i st = edit_artifact i (\<lambda>a. a\<lparr>status := st\<rparr>)"

definition add_grant :: "artifact_id \<Rightarrow> access_grant \<Rightarrow> unit store_op" where
  "add_grant i g = edit_artifact i (\<lambda>a. a\<lparr>grants := grants a @ [g]\<rparr>)"

definition remove_grant :: "artifact_id \<Rightarrow> player_id \<Rightarrow> unit store_op" where
  "remove_grant i p = edit_artifact i (\<lambda>a. a\<lparr>grants := filter (\<lambda>g. grantee g \<noteq> p) (grants a)\<rparr>)"

definition list_by_status :: "artifact_store \<Rightarrow> artifact_status \<Rightarrow> artifact_id set" where
  "list_by_status s st = art_id ` {a \<in> ran (as_artifacts s). status a = st}"

definition accessible_by :: "artifact_store \<Rightarrow> player_id \<Rightarrow> int \<Rightarrow> artifact_id set" where
  "accessible_by s p now =
    art_id ` {a \<in> ran (as_artifacts s). is_active (status a) \<and>
                list_ex (\<lambda>g. grantee g = p \<and> \<not> is_expired (grant_mode g) now) (grants a)}"

definition delete_artifact :: "artifact_id \<Rightarrow> unit store_op" where
  "delete_artifact i s =
    (case as_artifacts s i of
       None \<Rightarrow> (Inl ArtifactNotFound, s)
     | Some a \<Rightarrow> (Inr (), s\<lparr>as_artifacts := (as_artifacts s)(i := None)\<rparr>))"

definition store_add_ref :: "artifact_id \<Rightarrow> artifact_ref \<Rightarrow> unit store_op" where
  "store_add_ref i r = edit_artifact i (\<lambda>a. a\<lparr>references := sort_key ref_position (references a @ [r])\<rparr>)"

definition store_remove_ref :: "artifact_id \<Rightarrow> artifact_id \<Rightarrow> unit store_op" where
  "store_remove_ref i c =
    edit_artifact i (\<lambda>a. a\<lparr>references := filter (\<lambda>r. ref_artifact_id r \<noteq> c) (references a)\<rparr>)"

definition record_stewardship_transfer :: "artifact_id \<Rightarrow> stewardship_record \<Rightarrow> unit store_op" where
  "record_stewardship_transfer i r =
    modify (\<lambda>s. s\<lparr>as_stewardship_history := (as_stewardship_history s)
      (i \<mapsto> (case as_stewardship_history s i of None \<Rightarrow> [] | Some rs \<Rightarrow> rs) @ [r])\<rparr>)"

definition store_steward_history :: "artifact_store \<Rightarrow> artifact_id \<Rightarrow> stewardship_record list" where
  "store_steward_history s i = (case as_stewardship_history s i of None \<Rightarrow> [] | Some rs \<Rightarrow> rs)"

section \<open>Payload store\<close>

type_synonym payload_store = "artifact_id \<rightharpoonup> bytes"

definition store_payload :: "(bytes \<Rightarrow> bytes32) \<Rightarrow> bytes \<Rightarrow> (payload_store, vault_error, artifact_id) op" where
  "store_payload b3 p s = (let i = leaf_id b3 p in (Inr i, s(i \<mapsto> p)))"

definition get_payload :: "payload_store \<Rightarrow> artifact_id \<Rightarrow> bytes option" where
  "get_payload s i = s i"

definition payload_present :: "payload_store \<Rightarrow> artifact_id \<Rightarrow> bool" where
  "payload_present s i \<longleftrightarrow> s i \<noteq> None"

definition delete_payload :: "artifact_id \<Rightarrow> (payload_store, vault_error, unit) op" where
  "delete_payload i s = (case s i of None \<Rightarrow> (Inl ArtifactNotFound, s) | Some p \<Rightarrow> (Inr (), s(i := None)))"

section \<open>Attention store\<close>

datatype integrity_result =
    Consistent
  | Extended (new_events: nat)
  | Diverged (first_mismatch_index: nat)
  | NoPriorReplica

record 's attention_store_ops =
  op_append_event :: "attention_switch_event \<Rightarrow> ('s, vault_error, unit) op"
  op_events :: "'s \<Rightarrow> player_id \<Rightarrow> vault_error + attention_switch_event list"
  op_check_integrity :: "'s \<Rightarrow> player_id \<Rightarrow> attention_switch_event list \<Rightarrow> integrity_result"

type_synonym attention_logs = "player_id \<rightharpoonup> attention_switch_event list"

definition append_event :: "attention_switch_event \<Rightarrow> (attention_logs, vault_error, unit) op" where
  "append_event e =
    modify (\<lambda>s. s(ev_author e \<mapsto> (case s (ev_author e) of None \<Rightarrow> [] | Some es \<Rightarrow> es) @ [e]))"

definition events_of :: "attention_logs \<Rightarrow> player_id \<Rightarrow> attention_switch_event list" where
  "events_of s p = (case s p of None \<Rightarrow> [] | Some es \<Rightarrow> es)"

definition events_since :: "attention_logs \<Rightarrow> player_id \<Rightarrow> int \<Rightarrow> attention_switch_event list" where
  "events_since s p since =
    (case s p of None \<Rightarrow> [] | Some es \<Rightarrow> filter (\<lambda>e. ev_wall_time_ms e \<ge> since) es)"

definition events_by_seq_range :: "attention_logs \<Rightarrow> player_id \<Rightarrow> u64 \<Rightarrow> u64 \<Rightarrow> attention_switch_event list" where
  "events_by_seq_range s p from_seq to_seq =
    (case s p of None \<Rightarrow> [] | Some es \<Rightarrow> filter (\<lambda>e. ev_seq e \<ge> from_seq \<and> ev_seq e \<le> to_seq) es)"

definition latest_tip :: "('sk, 'pk) ledger_lib \<Rightarrow> attention_logs \<Rightarrow> player_id \<Rightarrow> (u64 \<times> bytes32) option" where
  "latest_tip L s p =
    (case s p of None \<Rightarrow> None
     | Some es \<Rightarrow> if es = [] then None else Some (ev_seq (last es), event_hash L (last es)))"

definition ingest_log :: "player_id \<Rightarrow> attention_switch_event list \<Rightarrow> (attention_logs, vault_error, unit) op" where
  "ingest_log p es = modify (\<lambda>s. s(p \<mapsto> es))"

text \<open>The comparison loop of \<open>check_integrity\<close>: the first index at which our replica is not matched.\<close>

fun first_mismatch :: "nat \<Rightarrow> attention_switch_event list \<Rightarrow> attention_switch_event list \<Rightarrow> nat option" where
  "first_mismatch i [] theirs = None"
| "first_mismatch i (o1 # ours) [] = Some i"
| "first_mismatch i (o1 # ours) (t # theirs) =
    (if o1 \<noteq> t then Some i else first_mismatch (Suc i) ours theirs)"

definition check_integrity :: "attention_logs \<Rightarrow> player_id \<Rightarrow> attention_switch_event list \<Rightarrow> integrity_result" where
  "check_integrity s p theirs =
    (case s p of
       None \<Rightarrow> NoPriorReplica
     | Some ours \<Rightarrow>
        (case first_mismatch 0 ours theirs of
           Some i \<Rightarrow> Diverged i
         | None \<Rightarrow>
            let new_count = length theirs - length ours
            in if new_count = 0 then Consistent else Extended new_count))"

definition in_memory_attention_store :: "attention_logs attention_store_ops" where
  "in_memory_attention_store =
    \<lparr>op_append_event = append_event, op_events = (\<lambda>s p. Inr (events_of s p)), op_check_integrity = check_integrity\<rparr>"

section \<open>Contracts\<close>

text \<open>The invariant of the artifact store.\<close>

definition refs_sorted :: "artifact \<Rightarrow> bool" where
  "refs_sorted a \<longleftrightarrow> sorted (map ref_position (references a))"

definition store_ok :: "artifact_store \<Rightarrow> bool" where
  "store_ok s \<longleftrightarrow> finite (dom (as_artifacts s)) \<and> key_matches art_id (as_artifacts s) \<and>
    (\<forall>a \<in> ran (as_artifacts s). refs_sorted a)"

text \<open>An operation that edits one existing artifact by \<open>f\<close> and nothing else.\<close>

locale artifact_mutator =
  fixes run :: "artifact_id \<Rightarrow> 'x \<Rightarrow> unit store_op"
    and f :: "'x \<Rightarrow> artifact \<Rightarrow> artifact"
  assumes missing: "get_artifact s i = None \<Longrightarrow> run i x s = (Inl ArtifactNotFound, s)"
    and present: "get_artifact s i = Some a \<Longrightarrow>
      run i x s = (Inr (), s\<lparr>as_artifacts := (as_artifacts s)(i \<mapsto> f x a)\<rparr>)"
    and same_id: "art_id (f x a) = art_id a"
begin

lemma run_get:
  "get_artifact (snd (run i x s)) j =
    (if j = i then map_option (f x) (get_artifact s i) else get_artifact s j)"
  by (cases "get_artifact s i") (auto simp: missing present get_artifact_def)

lemma run_dom: "dom (as_artifacts (snd (run i x s))) = dom (as_artifacts s)"
  by (cases "get_artifact s i") (auto simp: missing present get_artifact_def)

end

lemma store_ok_new [simp]: "store_ok new_artifact_store"
  by (simp add: store_ok_def new_artifact_store_def)

lemma refs_sorted_add: "refs_sorted (a\<lparr>references := sort_key ref_position (references a @ [r])\<rparr>)"
  by (simp add: refs_sorted_def)

lemma refs_sorted_remove:
  "refs_sorted a \<Longrightarrow> refs_sorted (a\<lparr>references := filter P (references a)\<rparr>)"
  by (simp add: refs_sorted_def sorted_filter)

lemma edit_artifact_mutator:
  "(\<And>x a. art_id (f x a) = art_id a) \<Longrightarrow> artifact_mutator (\<lambda>i x. edit_artifact i (f x)) f"
  by unfold_locales (auto simp: edit_artifact_def get_artifact_def)

interpretation us: artifact_mutator update_steward "\<lambda>p a. a\<lparr>steward := p\<rparr>"
  unfolding update_steward_def by (rule edit_artifact_mutator) simp

interpretation ust: artifact_mutator update_status "\<lambda>st a. a\<lparr>status := st\<rparr>"
  unfolding update_status_def by (rule edit_artifact_mutator) simp

interpretation ag: artifact_mutator add_grant "\<lambda>g a. a\<lparr>grants := grants a @ [g]\<rparr>"
  unfolding add_grant_def by (rule edit_artifact_mutator) simp

interpretation rg: artifact_mutator remove_grant
  "\<lambda>p a. a\<lparr>grants := filter (\<lambda>g. grantee g \<noteq> p) (grants a)\<rparr>"
  unfolding remove_grant_def by (rule edit_artifact_mutator) simp

interpretation ar: artifact_mutator store_add_ref
  "\<lambda>r a. a\<lparr>references := sort_key ref_position (references a @ [r])\<rparr>"
  unfolding store_add_ref_def by (rule edit_artifact_mutator) simp

interpretation rr: artifact_mutator store_remove_ref
  "\<lambda>c a. a\<lparr>references := filter (\<lambda>r. ref_artifact_id r \<noteq> c) (references a)\<rparr>"
  unfolding store_remove_ref_def by (rule edit_artifact_mutator) simp

text \<open>A content-addressed store: what was stored is found under its hash.\<close>

locale payload_store =
  fixes hash :: "bytes \<Rightarrow> artifact_id"
    and store :: "bytes \<Rightarrow> ('s, vault_error, artifact_id) op"
    and get :: "'s \<Rightarrow> artifact_id \<Rightarrow> bytes option"
  assumes store_id: "store p s = (r, t) \<Longrightarrow> r = Inr (hash p)"
    and get_store: "store p s = (r, t) \<Longrightarrow> get t i = (if i = hash p then Some p else get s i)"
begin

definition addressed :: "'s \<Rightarrow> bool" where
  "addressed s \<longleftrightarrow> (\<forall>i p. get s i = Some p \<longrightarrow> i = hash p)"

lemma addressed_store: "addressed s \<Longrightarrow> store p s = (r, t) \<Longrightarrow> addressed t"
  by (auto simp: addressed_def get_store)

lemma get_only_stored: "addressed s \<Longrightarrow> get s (hash p) = Some q \<Longrightarrow> hash q = hash p"
  by (auto simp: addressed_def)

lemma store_keeps:
  assumes "addressed s" and "inj_on hash {p, q}" and "get s (hash q) = Some q" and "store p s = (r, t)"
  shows "get t (hash q) = Some q"
  using assms by (auto simp: get_store inj_on_def)

end

interpretation ps: payload_store "leaf_id b3" "store_payload b3" get_payload for b3
  by unfold_locales (auto simp: store_payload_def get_payload_def Let_def)

text \<open>What the attention log relies on: an append adds the event to its author's log.\<close>

locale attention_store =
  fixes T :: "'s attention_store_ops"
  assumes append_ok: "op_append_event T e s = (Inr u, t) \<Longrightarrow> op_events T s (ev_author e) = Inr es \<Longrightarrow>
      op_events T t (ev_author e) = Inr (es @ [e])"
    and append_other: "op_append_event T e s = (r, t) \<Longrightarrow> p \<noteq> ev_author e \<Longrightarrow> op_events T t p = op_events T s p"
    and append_fail: "op_append_event T e s = (Inl err, t) \<Longrightarrow> op_events T t p = op_events T s p"

interpretation ms: attention_store in_memory_attention_store
  by unfold_locales
     (auto simp: in_memory_attention_store_def append_event_def modify_def events_of_def split: option.splits)

section \<open>Properties of the stores\<close>

lemma first_mismatch_None: "first_mismatch k ours theirs = None \<longleftrightarrow> prefix ours theirs"
  by (induction k ours theirs rule: first_mismatch.induct) auto

lemma first_mismatch_Some:
  "first_mismatch k ours theirs = Some j \<longleftrightarrow>
    (\<exists>i. j = k + i \<and> i < length ours \<and> i \<le> length theirs \<and> take i theirs = take i ours \<and>
         (i < length theirs \<longrightarrow> ours ! i \<noteq> theirs ! i))"
proof (induction k ours theirs rule: first_mismatch.induct)
  case (3 k o1 ours t theirs)
  show ?case
  proof (cases "o1 = t")
    case True
    let ?Q = "\<lambda>i os ts. i < length os \<and> i \<le> length ts \<and> take i ts = take i os \<and> (i < length ts \<longrightarrow> os ! i \<noteq> ts ! i)"
    have "(\<exists>i. j = k + i \<and> ?Q i (o1 # ours) (t # theirs)) \<longleftrightarrow> (\<exists>i. j = Suc k + i \<and> ?Q i ours theirs)"
      (is "?L \<longleftrightarrow> ?R")
    proof
      assume ?L
      then obtain i where i: "j = k + i" "?Q i (o1 # ours) (t # theirs)" by blast
      with True obtain m where "i = Suc m" by (cases i) auto
      with i show ?R by (intro exI[of _ m]) auto
    next
      assume ?R
      then obtain i where "j = Suc k + i" "?Q i ours theirs" by blast
      with True show ?L by (intro exI[of _ "Suc i"]) auto
    qed
    with True 3 show ?thesis by simp
  next
    case False
    then show ?thesis by (auto simp: take_Cons' split: if_splits intro!: exI[of _ 0])
  qed
qed auto

lemma check_integrity_same:
  "s p = Some ours \<Longrightarrow> check_integrity s p theirs = Consistent \<longleftrightarrow> theirs = ours"
  using first_mismatch_None[of 0 ours theirs]
  by (cases "first_mismatch 0 ours theirs") (auto simp: check_integrity_def Let_def prefix_def)

lemma check_integrity_extended:
  "s p = Some ours \<Longrightarrow> check_integrity s p theirs = Extended n \<longleftrightarrow>
    (\<exists>new. new \<noteq> [] \<and> theirs = ours @ new \<and> n = length new)"
  using first_mismatch_None[of 0 ours theirs]
  by (cases "first_mismatch 0 ours theirs") (auto simp: check_integrity_def Let_def prefix_def)

lemma check_integrity_diverged:
  "s p = Some ours \<Longrightarrow> check_integrity s p theirs = Diverged i \<longleftrightarrow> first_mismatch 0 ours theirs = Some i"
  by (cases "first_mismatch 0 ours theirs") (auto simp: check_integrity_def Let_def)

text \<open>
  \<open>check_integrity\<close> against a replica reports \<open>Consistent\<close> exactly for the identical log,
  \<open>Extended n\<close> exactly for a log that continues the replica by \<open>n > 0\<close> events, and \<open>Diverged i\<close>
  exactly when the logs agree before \<open>i\<close> and the replica's event at \<open>i\<close> is changed or missing.
\<close>

theorem check_integrity_exact:
  assumes "s p = Some ours"
  shows "(check_integrity s p theirs = Consistent \<longleftrightarrow> theirs = ours) \<and>
    (check_integrity s p theirs = Extended n \<longleftrightarrow> (\<exists>new. new \<noteq> [] \<and> theirs = ours @ new \<and> n = length new)) \<and>
    (check_integrity s p theirs = Diverged i \<longleftrightarrow>
      i < length ours \<and> i \<le> length theirs \<and> take i theirs = take i ours \<and>
      (i < length theirs \<longrightarrow> ours ! i \<noteq> theirs ! i))"
  using assms
  by (simp add: check_integrity_same check_integrity_extended check_integrity_diverged first_mismatch_Some)

theorem check_integrity_exact_witness:
  "check_integrity [player_a \<mapsto> [event0, event1]] player_a sample_chain = Extended 1 \<and>
   check_integrity [player_a \<mapsto> sample_chain] player_a [event0, event1, event2'] = Diverged 2"
proof
  show "check_integrity [player_a \<mapsto> [event0, event1]] player_a sample_chain = Extended 1"
    using check_integrity_exact[of "[player_a \<mapsto> [event0, event1]]" player_a "[event0, event1]" sample_chain 1]
    by (simp add: sample_chain_def)
  have "event2 \<noteq> event2'" by code_simp
  then show "check_integrity [player_a \<mapsto> sample_chain] player_a [event0, event1, event2'] = Diverged 2"
    using check_integrity_exact[of "[player_a \<mapsto> sample_chain]" player_a sample_chain "[event0, event1, event2']" _ 2]
    by (simp add: sample_chain_def)
qed

lemma accessible_by_iff:
  assumes "store_ok s"
  shows "i \<in> accessible_by s p now \<longleftrightarrow>
    (\<exists>a. get_artifact s i = Some a \<and> is_active (status a) \<and> p \<in> set (audience a now))"
  using assms
  by (auto simp: accessible_by_def store_ok_def key_matches_image_ran audience_def list_ex_iff get_artifact_def)

end
