(* ===== verification/Attention_Log.thy ===== *)
theory Attention_Log
  imports Store
begin

text \<open>
  The per-player attention log, \<open>AttentionLog\<close> of \<open>indras-artifacts/src/attention/mod.rs\<close>,
  generic in its store like the code: the trait's functions are the argument \<open>T\<close>. The lemmas
  of the locale show, for every store that obeys the contract, that the log only ever writes
  a chain that \<open>validate_chain\<close> accepts and that its cached head matches the chain.
\<close>

section \<open>Operations\<close>

record 's attention_log =
  al_player :: player_id
  al_current_focus :: "artifact_id option"
  al_next_seq :: u64
  al_latest_hash :: bytes32
  al_store :: 's

type_synonym ('s, 'a) log_op = "('s attention_log, vault_error, 'a) op"

definition new_log :: "player_id \<Rightarrow> 's \<Rightarrow> 's attention_log" where
  "new_log p st = \<lparr>al_player = p, al_current_focus = None, al_next_seq = 0, al_latest_hash = zeros32, al_store = st\<rparr>"

definition log_navigate_to ::
  "('sk, 'pk) ledger_lib \<Rightarrow> 's attention_store_ops \<Rightarrow> artifact_id \<Rightarrow> int \<Rightarrow> ('s, unit) log_op" where
  "log_navigate_to L T a now log =
    (let frm = al_current_focus log;
         e = new_event (al_player log) (al_next_seq log) now frm (Some a) (al_latest_hash log);
         h = event_hash L e
     in case op_append_event T e (al_store log) of
          (Inl err, st) \<Rightarrow> (Inl err, log\<lparr>al_store := st\<rparr>)
        | (Inr _, st) \<Rightarrow>
            (Inr (), log\<lparr>al_store := st, al_current_focus := Some a, al_next_seq := al_next_seq log + 1,
                         al_latest_hash := h\<rparr>))"

definition log_navigate_back ::
  "('sk, 'pk) ledger_lib \<Rightarrow> 's attention_store_ops \<Rightarrow> artifact_id \<Rightarrow> int \<Rightarrow> ('s, unit) log_op" where
  "log_navigate_back L T parent now log =
    (let frm = al_current_focus log;
         e = new_event (al_player log) (al_next_seq log) now frm (Some parent) (al_latest_hash log);
         h = event_hash L e
     in case op_append_event T e (al_store log) of
          (Inl err, st) \<Rightarrow> (Inl err, log\<lparr>al_store := st\<rparr>)
        | (Inr _, st) \<Rightarrow>
            (Inr (), log\<lparr>al_store := st, al_current_focus := Some parent, al_next_seq := al_next_seq log + 1,
                         al_latest_hash := h\<rparr>))"

text \<open>\<open>current_focus.take()\<close> empties the focus before the event is appended.\<close>

definition log_end_session ::
  "('sk, 'pk) ledger_lib \<Rightarrow> 's attention_store_ops \<Rightarrow> int \<Rightarrow> ('s, unit) log_op" where
  "log_end_session L T now log =
    (let frm = al_current_focus log;
         log = log\<lparr>al_current_focus := None\<rparr>;
         e = new_event (al_player log) (al_next_seq log) now frm None (al_latest_hash log);
         h = event_hash L e
     in case op_append_event T e (al_store log) of
          (Inl err, st) \<Rightarrow> (Inl err, log\<lparr>al_store := st\<rparr>)
        | (Inr _, st) \<Rightarrow>
            (Inr (), log\<lparr>al_store := st, al_next_seq := al_next_seq log + 1, al_latest_hash := h\<rparr>))"

definition log_events ::
  "'s attention_store_ops \<Rightarrow> 's attention_log \<Rightarrow> vault_error + attention_switch_event list" where
  "log_events T log = op_events T (al_store log) (al_player log)"

definition log_check_peer_integrity ::
  "'s attention_store_ops \<Rightarrow> 's attention_log \<Rightarrow> player_id \<Rightarrow> attention_switch_event list \<Rightarrow> integrity_result" where
  "log_check_peer_integrity T log p theirs = op_check_integrity T (al_store log) p theirs"

section \<open>Invariant\<close>

text \<open>
  The stored events of the player are by the player, form an accepted chain (or none yet), and
  the cached focus, sequence number and hash are those of the chain's last event.
\<close>

definition head_matches ::
  "('sk, 'pk) ledger_lib \<Rightarrow> 's attention_log \<Rightarrow> attention_switch_event list \<Rightarrow> bool" where
  "head_matches L log es \<longleftrightarrow>
    (if es = [] then al_next_seq log = 0 \<and> al_latest_hash log = zeros32 \<and> al_current_focus log = None
     else validate_chain L es None =
       Inr \<lparr>latest_seq = al_next_seq log - 1, latest_hash = al_latest_hash log,
            current_attention = al_current_focus log\<rparr>)"

definition log_ok :: "('sk, 'pk) ledger_lib \<Rightarrow> 's attention_store_ops \<Rightarrow> 's attention_log \<Rightarrow> bool" where
  "log_ok L T log \<longleftrightarrow>
    (\<exists>es. log_events T log = Inr es \<and> (\<forall>e \<in> set es. ev_author e = al_player log) \<and> head_matches L log es)"

lemma signature_ok_None [simp]: "signature_ok L None e"
  by (simp add: signature_ok_def)

lemma chain_snoc:
  "validate_chain L (es @ [e]) None = Inr st \<longleftrightarrow>
    (if es = [] then is_genesis e else follows L (last es) e \<and> (\<exists>st'. validate_chain L es None = Inr st'))
    \<and> st = state_after L e"
  by (cases es rule: rev_cases)
     (auto simp: validate_chain_Inr linked_def successively_append_iff list_all_iff hd_append)

lemma head_matches_snoc:
  assumes "head_matches L log es"
    and e: "e = new_event (al_player log) (al_next_seq log) now (al_current_focus log) to (al_latest_hash log)"
  shows "validate_chain L (es @ [e]) None =
    Inr \<lparr>latest_seq = al_next_seq log, latest_hash = event_hash L e, current_attention = to\<rparr>"
proof -
  have st: "state_after L e = \<lparr>latest_seq = al_next_seq log, latest_hash = event_hash L e, current_attention = to\<rparr>"
    by (simp add: e state_after_def new_event_def)
  show ?thesis
  proof (cases es rule: rev_cases)
    case Nil
    with assms(1) have "is_genesis e" by (simp add: head_matches_def e is_genesis_def new_event_def)
    with Nil st show ?thesis using chain_snoc[of L "[]" e] by simp
  next
    case (snoc es' l)
    then have "validate_chain L es None =
        Inr \<lparr>latest_seq = al_next_seq log - 1, latest_hash = al_latest_hash log, current_attention = al_current_focus log\<rparr>"
      using assms(1) by (simp add: head_matches_def)
    moreover from this snoc have
      "state_after L l = \<lparr>latest_seq = al_next_seq log - 1, latest_hash = al_latest_hash log, current_attention = al_current_focus log\<rparr>"
      by (simp add: validate_chain_Inr)
    then have "follows L (last es) e"
      using snoc by (simp add: follows_def e new_event_def state_after_def eq_diff_eq)
    ultimately show ?thesis using snoc st chain_snoc[of L es e] by simp
  qed
qed

text \<open>The step shared by the three operations: a successful append of the next event.\<close>

context attention_store
begin

lemma append_keeps_ok:
  assumes "log_ok L T log" and "op_append_event T e (al_store log) = (Inr u, st)"
    and e: "e = new_event (al_player log) (al_next_seq log) now (al_current_focus log) to (al_latest_hash log)"
    and log': "al_player log' = al_player log" "al_store log' = st" "al_current_focus log' = to"
      "al_next_seq log' = al_next_seq log + 1" "al_latest_hash log' = event_hash L e"
  shows "log_ok L T log'"
proof -
  from assms(1) obtain es where es: "log_events T log = Inr es"
    "\<forall>x \<in> set es. ev_author x = al_player log" "head_matches L log es"
    by (auto simp: log_ok_def)
  have a: "ev_author e = al_player log" by (simp add: e new_event_def)
  then have "log_events T log' = Inr (es @ [e])"
    using append_ok[OF assms(2)] es(1) log' by (simp add: log_events_def)
  moreover have "head_matches L log' (es @ [e])"
    using head_matches_snoc[OF es(3) e] log' by (simp add: head_matches_def)
  ultimately show ?thesis using es(2) a log'(1) by (auto simp: log_ok_def)
qed

lemma append_failed_ok:
  assumes "log_ok L T log" and "op_append_event T e (al_store log) = (Inl err, st)"
  shows "log_ok L T (log\<lparr>al_store := st\<rparr>)"
proof -
  have "log_events T (log\<lparr>al_store := st\<rparr>) = log_events T log"
    using append_fail[OF assms(2)] by (simp add: log_events_def)
  moreover have "head_matches L (log\<lparr>al_store := st\<rparr>) = head_matches L log"
    by (rule ext) (simp add: head_matches_def)
  ultimately show ?thesis using assms(1) by (simp add: log_ok_def)
qed

lemma navigate_to_ok: "keeps (log_ok L T) (log_navigate_to L T a now)"
  unfolding keeps_def
proof (intro allI impI)
  fix log assume ok: "log_ok L T log"
  let ?e = "new_event (al_player log) (al_next_seq log) now (al_current_focus log) (Some a) (al_latest_hash log)"
  obtain r st where app: "op_append_event T ?e (al_store log) = (r, st)" by (cases rule: prod.exhaust)
  show "log_ok L T (snd (log_navigate_to L T a now log))"
  proof (cases r)
    case (Inl err)
    with append_failed_ok[OF ok] app show ?thesis by (simp add: log_navigate_to_def)
  next
    case (Inr u)
    show ?thesis
      by (rule append_keeps_ok[OF ok app[unfolded Inr] refl]) (simp_all add: log_navigate_to_def app Inr)
  qed
qed

lemma navigate_back_ok: "keeps (log_ok L T) (log_navigate_back L T a now)"
  unfolding keeps_def
proof (intro allI impI)
  fix log assume ok: "log_ok L T log"
  let ?e = "new_event (al_player log) (al_next_seq log) now (al_current_focus log) (Some a) (al_latest_hash log)"
  obtain r st where app: "op_append_event T ?e (al_store log) = (r, st)" by (cases rule: prod.exhaust)
  show "log_ok L T (snd (log_navigate_back L T a now log))"
  proof (cases r)
    case (Inl err)
    with append_failed_ok[OF ok] app show ?thesis by (simp add: log_navigate_back_def)
  next
    case (Inr u)
    show ?thesis
      by (rule append_keeps_ok[OF ok app[unfolded Inr] refl]) (simp_all add: log_navigate_back_def app Inr)
  qed
qed

text \<open>A session end keeps the invariant when the store accepts the farewell event.\<close>

lemma end_session_ok:
  assumes ok: "log_ok L T log" and "log_end_session L T now log = (Inr u, log')"
  shows "log_ok L T log'"
proof -
  let ?e = "new_event (al_player log) (al_next_seq log) now (al_current_focus log) None (al_latest_hash log)"
  obtain r st where app: "op_append_event T ?e (al_store log) = (r, st)" by (cases rule: prod.exhaust)
  with assms(2) obtain v where v: "r = Inr v"
    and log': "log' = log\<lparr>al_current_focus := None, al_store := st, al_next_seq := al_next_seq log + 1,
                 al_latest_hash := event_hash L ?e\<rparr>"
    by (cases r) (simp_all add: log_end_session_def)
  show ?thesis by (rule append_keeps_ok[OF ok app[unfolded v] refl]) (simp_all add: log')
qed

lemma new_log_ok: "op_events T st p = Inr [] \<Longrightarrow> log_ok L T (new_log p st)"
  by (simp add: log_ok_def new_log_def log_events_def head_matches_def)

end

section \<open>Properties of the log\<close>

text \<open>
  The logs that the operations can produce. A farewell is only counted when it was stored.
\<close>

inductive log_reach :: "('sk, 'pk) ledger_lib \<Rightarrow> 's attention_store_ops \<Rightarrow> 's attention_log \<Rightarrow> 's attention_log \<Rightarrow> bool"
  for L T log0 where
  reach_start: "log_reach L T log0 log0"
| reach_to: "log_reach L T log0 log \<Longrightarrow> log_navigate_to L T a now log = (r, log') \<Longrightarrow> log_reach L T log0 log'"
| reach_back: "log_reach L T log0 log \<Longrightarrow> log_navigate_back L T a now log = (r, log') \<Longrightarrow> log_reach L T log0 log'"
| reach_end: "log_reach L T log0 log \<Longrightarrow> log_end_session L T now log = (Inr u, log') \<Longrightarrow> log_reach L T log0 log'"

lemma log_reach_ok:
  assumes "log_reach L in_memory_attention_store log0 log" and "log_ok L in_memory_attention_store log0"
  shows "log_ok L in_memory_attention_store log"
  using assms
  by induction (blast intro: keepsD[OF ms.navigate_to_ok] keepsD[OF ms.navigate_back_ok] ms.end_session_ok)+

definition unsigned_logs :: "attention_logs \<Rightarrow> bool" where
  "unsigned_logs s \<longleftrightarrow> (\<forall>p. \<forall>e \<in> set (events_of s p). \<not> is_signed e)"

lemma append_unsigned: "unsigned_logs s \<Longrightarrow> \<not> is_signed e \<Longrightarrow> unsigned_logs (snd (append_event e s))"
  by (auto simp: unsigned_logs_def append_event_def modify_def events_of_def split: option.splits if_splits)

lemma new_event_unsigned [simp]: "\<not> is_signed (new_event p seq now frm to prev)"
  by (simp add: is_signed_def new_event_def)

lemma log_reach_unsigned:
  assumes "log_reach L in_memory_attention_store (new_log p Map.empty) log"
  shows "unsigned_logs (al_store log)"
  using assms
proof induction
  case reach_start
  show ?case by (simp add: new_log_def events_of_def unsigned_logs_def)
next
  case (reach_to log a now r log')
  then have "al_store log' = snd (append_event
      (new_event (al_player log) (al_next_seq log) now (al_current_focus log) (Some a) (al_latest_hash log)) (al_store log))"
    by (auto simp: log_navigate_to_def in_memory_attention_store_def Let_def append_event_def modify_def)
  with append_unsigned[OF reach_to.IH new_event_unsigned] show ?case by simp
next
  case (reach_back log a now r log')
  then have "al_store log' = snd (append_event
      (new_event (al_player log) (al_next_seq log) now (al_current_focus log) (Some a) (al_latest_hash log)) (al_store log))"
    by (auto simp: log_navigate_back_def in_memory_attention_store_def Let_def append_event_def modify_def)
  with append_unsigned[OF reach_back.IH new_event_unsigned] show ?case by simp
next
  case (reach_end log now u log')
  then have "al_store log' = snd (append_event
      (new_event (al_player log) (al_next_seq log) now (al_current_focus log) None (al_latest_hash log)) (al_store log))"
    by (auto simp: log_end_session_def in_memory_attention_store_def Let_def append_event_def modify_def)
  with append_unsigned[OF reach_end.IH new_event_unsigned] show ?case by simp
qed

lemma unsigned_chain_rejected:
  "events \<noteq> [] \<Longrightarrow> \<not> is_signed (hd events) \<Longrightarrow> validate_chain L events (Some pk) = Inl InvalidSignature"
  by (cases events) (simp_all add: validate_chain_def validate_genesis_def signature_ok_def verify_signature_def is_signed_def)

text \<open>
  C18: Whatever a player does with a new in-memory log, the events it stores form a chain that
  \<open>validate_chain\<close> accepts when it is asked not to check signatures, and the state that the validator computes from them is the log's
  cached sequence number, hash and focus. With any public key it rejects the same chain with \<open>InvalidSignature\<close>, since
  the log never signs an event.
\<close>

theorem log_always_validates:
  assumes "log_reach L in_memory_attention_store (new_log p Map.empty) log"
    and "events_of (al_store log) (al_player log) \<noteq> []"
  shows "validate_chain L (events_of (al_store log) (al_player log)) None =
      Inr \<lparr>latest_seq = al_next_seq log - 1, latest_hash = al_latest_hash log, current_attention = al_current_focus log\<rparr> \<and>
    validate_chain L (events_of (al_store log) (al_player log)) (Some pk) = Inl InvalidSignature"
proof
  have "log_ok L in_memory_attention_store (new_log p Map.empty)"
    by (rule ms.new_log_ok) (simp add: in_memory_attention_store_def events_of_def)
  from log_reach_ok[OF assms(1) this] assms(2)
  show "validate_chain L (events_of (al_store log) (al_player log)) None =
      Inr \<lparr>latest_seq = al_next_seq log - 1, latest_hash = al_latest_hash log, current_attention = al_current_focus log\<rparr>"
    by (auto simp: log_ok_def log_events_def head_matches_def in_memory_attention_store_def)
  show "validate_chain L (events_of (al_store log) (al_player log)) (Some pk) = Inl InvalidSignature"
    using log_reach_unsigned[OF assms(1)] assms(2) hd_in_set[OF assms(2)] unfolding unsigned_logs_def
    by (intro unsigned_chain_rejected) blast+
qed

definition sample_log :: "attention_logs attention_log" where
  "sample_log = snd (log_end_session sample_lib in_memory_attention_store 30
     (snd (log_navigate_back sample_lib in_memory_attention_store doc_x 20
       (snd (log_navigate_to sample_lib in_memory_attention_store doc_y 10 (new_log player_a Map.empty))))))"

theorem log_always_validates_witness:
  "validate_chain sample_lib (events_of (al_store sample_log) player_a) None =
    Inr \<lparr>latest_seq = 2, latest_hash = al_latest_hash sample_log, current_attention = None\<rparr> \<and>
   validate_chain sample_lib (events_of (al_store sample_log) player_a) (Some 5) = Inl InvalidSignature"
proof -
  let ?T = in_memory_attention_store
  define l0 :: "attention_logs attention_log" where "l0 = new_log player_a Map.empty"
  define l1 where "l1 = snd (log_navigate_to sample_lib ?T doc_y 10 l0)"
  define l2 where "l2 = snd (log_navigate_back sample_lib ?T doc_x 20 l1)"
  have 1: "log_navigate_to sample_lib ?T doc_y 10 l0 = (fst (log_navigate_to sample_lib ?T doc_y 10 l0), l1)"
    and 2: "log_navigate_back sample_lib ?T doc_x 20 l1 = (fst (log_navigate_back sample_lib ?T doc_x 20 l1), l2)"
    by (simp_all add: l1_def l2_def)
  have 3: "log_end_session sample_lib ?T 30 l2 = (Inr (), sample_log)"
    by (simp add: sample_log_def l2_def l1_def l0_def log_end_session_def in_memory_attention_store_def
        append_event_def modify_def Let_def)
  have "log_reach sample_lib ?T l0 sample_log"
    by (rule log_reach.reach_end[OF log_reach.reach_back[OF log_reach.reach_to[OF log_reach.reach_start 1] 2] 3])
  moreover have "events_of (al_store sample_log) (al_player sample_log) \<noteq> []"
    and "al_player sample_log = player_a" and "al_next_seq sample_log - 1 = 2" and "al_current_focus sample_log = None"
    by code_simp+
  ultimately show ?thesis
    using log_always_validates[of sample_lib player_a sample_log] by (simp add: l0_def)
qed

text \<open>
  A farewell that the store refuses has already cleared the focus: the next event the log
  writes breaks the continuity of the chain. \<open>flaky_store\<close> refuses one event when its flag is set.
\<close>

definition flaky_store :: "(bool \<times> attention_logs) attention_store_ops" where
  "flaky_store =
    \<lparr>op_append_event = (\<lambda>e (b, s). if b then (Inl (StoreError ''full''), (False, s))
       else (Inr (), (False, snd (append_event e s)))),
     op_events = (\<lambda>(b, s) p. Inr (events_of s p)), op_check_integrity = (\<lambda>(b, s). check_integrity s)\<rparr>"

interpretation fs: attention_store flaky_store
  by unfold_locales
     (auto simp: flaky_store_def append_event_def modify_def events_of_def split: option.splits if_splits)

theorem failed_farewell_breaks_chain:
  "let l1 = snd (log_navigate_to sample_lib flaky_store doc_x 10 (new_log player_a (False, Map.empty)));
       l2 = l1\<lparr>al_store := (True, snd (al_store l1))\<rparr>;
       (r, l3) = log_end_session sample_lib flaky_store 20 l2;
       l4 = snd (log_navigate_to sample_lib flaky_store doc_y 30 l3)
   in r = Inl (StoreError ''full'') \<and>
      validate_chain sample_lib (events_of (snd (al_store l4)) player_a) None =
        Inl (AttentionContinuity 1 (Some doc_x) None)"
  by code_simp

end
