(* ===== verification/Vault.thy ===== *)
theory Vault
  imports Attention_Log Peering
begin

text \<open>
  The vault of a player, \<open>indras-artifacts/src/vault.rs\<close>, over the in-memory stores. Every
  method is an operation on the vault state; \<open>L\<close> provides the hash and encodings, the random
  part of a generated identifier is the argument \<open>rnd\<close>. The relevance score of \<open>heat\<close> and
  \<open>attention_value\<close> is 32-bit floating point and not modelled.
\<close>

section \<open>State and operations\<close>

record vault =
  v_root :: artifact
  v_artifacts :: artifact_store
  v_payloads :: payload_store
  v_log :: "attention_logs attention_log"
  v_peers :: peer_registry
  v_peer_attention :: "player_id \<rightharpoonup> attention_switch_event list"

type_synonym 'a vault_op = "(vault, vault_error, 'a) op"

definition on_artifacts :: "'a store_op \<Rightarrow> 'a vault_op" where
  "on_artifacts = zoom v_artifacts (\<lambda>t v. v\<lparr>v_artifacts := t\<rparr>)"

definition on_payloads :: "(payload_store, vault_error, 'a) op \<Rightarrow> 'a vault_op" where
  "on_payloads = zoom v_payloads (\<lambda>t v. v\<lparr>v_payloads := t\<rparr>)"

definition on_log :: "(attention_logs, 'a) log_op \<Rightarrow> 'a vault_op" where
  "on_log = zoom v_log (\<lambda>t v. v\<lparr>v_log := t\<rparr>)"

definition on_peers :: "(peer_registry, vault_error, 'a) op \<Rightarrow> 'a vault_op" where
  "on_peers = zoom v_peers (\<lambda>t v. v\<lparr>v_peers := t\<rparr>)"

definition own_grant :: "player_id \<Rightarrow> int \<Rightarrow> access_grant" where
  "own_grant p now = \<lparr>grantee = p, grant_mode = Permanent, granted_at = now, granted_by = p\<rparr>"

definition in_memory :: "bytes32 \<Rightarrow> player_id \<Rightarrow> int \<Rightarrow> vault" where
  "in_memory rnd p now =
    (let root = \<lparr>art_id = generate_tree_id rnd, artifact_type = ''vault'', steward = p,
                 grants = [own_grant p now], status = Active, provenance = None, created_at = now,
                 payload = None, references = [], metadata = Map.empty, blessing_history = []\<rparr>
     in \<lparr>v_root = root, v_artifacts = snd (put_artifact root new_artifact_store :: (vault_error + unit) \<times> _),
         v_payloads = Map.empty, v_log = new_log p Map.empty, v_peers = new_registry p,
         v_peer_attention = Map.empty\<rparr>)"

definition v_player :: "vault \<Rightarrow> player_id" where
  "v_player v = steward (v_root v)"

definition place_leaf ::
  "('sk, 'pk) ledger_lib \<Rightarrow> bytes \<Rightarrow> string \<Rightarrow> string option \<Rightarrow> string \<Rightarrow> int \<Rightarrow> artifact vault_op" where
  "place_leaf L pl nm mime ty now =
    andThen (on_payloads (store_payload (blake3 L) pl)) (\<lambda>i.
    andThen (reads v_player) (\<lambda>p.
    let a = \<lparr>art_id = i, artifact_type = ty, steward = p, grants = [own_grant p now], status = Active,
             provenance = None, created_at = now,
             payload = Some \<lparr>pl_name = nm, pl_size = of_nat (length pl), pl_mime_type = mime\<rparr>,
             references = [], metadata = Map.empty, blessing_history = []\<rparr>
    in andThen (on_artifacts (put_artifact a)) (\<lambda>_. ok a)))"

definition audience_to_grants :: "player_id list \<Rightarrow> int \<Rightarrow> player_id \<Rightarrow> access_grant list" where
  "audience_to_grants ps now by_player =
    map (\<lambda>p. \<lparr>grantee = p, grant_mode = Permanent, granted_at = now, granted_by = by_player\<rparr>) ps"

definition place_tree_with_id ::
  "artifact_id \<Rightarrow> string \<Rightarrow> player_id list \<Rightarrow> int \<Rightarrow> artifact vault_op" where
  "place_tree_with_id i ty ps now =
    andThen (reads v_player) (\<lambda>p.
    let a = \<lparr>art_id = i, artifact_type = ty, steward = p, grants = audience_to_grants ps now p,
             status = Active, provenance = None, created_at = now, payload = None, references = [],
             metadata = Map.empty, blessing_history = []\<rparr>
    in andThen (on_artifacts (put_artifact a)) (\<lambda>_. ok a))"

definition place_tree :: "bytes32 \<Rightarrow> string \<Rightarrow> player_id list \<Rightarrow> int \<Rightarrow> artifact vault_op" where
  "place_tree rnd ty ps now =
    andThen (reads v_player) (\<lambda>p.
    let a = \<lparr>art_id = generate_tree_id rnd, artifact_type = ty, steward = p,
             grants = audience_to_grants ps now p, status = Active, provenance = None, created_at = now,
             payload = None, references = [], metadata = Map.empty, blessing_history = []\<rparr>
    in andThen (on_artifacts (put_artifact a)) (\<lambda>_. ok a))"

definition v_get_artifact :: "vault \<Rightarrow> artifact_id \<Rightarrow> artifact option" where
  "v_get_artifact v i = get_artifact (v_artifacts v) i"

definition v_get_payload :: "vault \<Rightarrow> artifact_id \<Rightarrow> bytes option" where
  "v_get_payload v i = get_payload (v_payloads v) i"

definition v_store_payload :: "('sk, 'pk) ledger_lib \<Rightarrow> bytes \<Rightarrow> artifact_id vault_op" where
  "v_store_payload L p = on_payloads (store_payload (blake3 L) p)"

definition v_has_payload :: "vault \<Rightarrow> artifact_id \<Rightarrow> bool" where
  "v_has_payload v i = payload_present (v_payloads v) i"

text \<open>\<open>get_artifact(id)?.ok_or(ArtifactNotFound)?\<close>\<close>

definition find_artifact :: "artifact_id \<Rightarrow> artifact vault_op" where
  "find_artifact i = andThen (reads (\<lambda>v. v_get_artifact v i)) (ok_or ArtifactNotFound)"

definition require_steward :: "artifact_id \<Rightarrow> unit vault_op" where
  "require_steward i =
    andThen (find_artifact i) (\<lambda>a.
    andThen (reads v_player) (\<lambda>p. unless_fail (steward a = p) NotSteward))"

definition require_active :: "artifact_id \<Rightarrow> unit vault_op" where
  "require_active i = andThen (find_artifact i) (\<lambda>a. unless_fail (is_active (status a)) NotActive)"

definition compose :: "artifact_id \<Rightarrow> artifact_id \<Rightarrow> u64 \<Rightarrow> string option \<Rightarrow> unit vault_op" where
  "compose i child position label =
    andThen (require_steward i) (\<lambda>_.
    on_artifacts (store_add_ref i \<lparr>ref_artifact_id = child, ref_position = position, ref_label = label\<rparr>))"

definition v_remove_ref :: "artifact_id \<Rightarrow> artifact_id \<Rightarrow> unit vault_op" where
  "v_remove_ref i child = andThen (require_steward i) (\<lambda>_. on_artifacts (store_remove_ref i child))"

definition grant_access :: "artifact_id \<Rightarrow> player_id \<Rightarrow> access_mode \<Rightarrow> int \<Rightarrow> unit vault_op" where
  "grant_access i g mode now =
    andThen (require_steward i) (\<lambda>_.
    andThen (require_active i) (\<lambda>_.
    andThen (find_artifact i) (\<lambda>a.
    andThen (unless_fail (\<not> list_ex (\<lambda>x. grantee x = g \<and> \<not> is_expired (grant_mode x) now) (grants a))
               AlreadyGranted) (\<lambda>_.
    andThen (reads v_player) (\<lambda>p.
    on_artifacts (add_grant i \<lparr>grantee = g, grant_mode = mode, granted_at = now, granted_by = p\<rparr>))))))"

definition revoke_access :: "artifact_id \<Rightarrow> player_id \<Rightarrow> unit vault_op" where
  "revoke_access i g =
    andThen (require_steward i) (\<lambda>_.
    andThen (require_active i) (\<lambda>_.
    andThen (find_artifact i) (\<lambda>a.
    case find (\<lambda>x. grantee x = g) (grants a) of
      Some x \<Rightarrow> if grant_mode x = Permanent then throw CannotRevoke else on_artifacts (remove_grant i g)
    | None \<Rightarrow> throw ArtifactNotFound)))"

definition recall :: "artifact_id \<Rightarrow> int \<Rightarrow> unit vault_op" where
  "recall i now =
    andThen (require_steward i) (\<lambda>_.
    andThen (require_active i) (\<lambda>_. on_artifacts (update_status i (Recalled now))))"

definition transfer_stewardship :: "artifact_id \<Rightarrow> player_id \<Rightarrow> int \<Rightarrow> unit vault_op" where
  "transfer_stewardship i new_steward now =
    andThen (require_steward i) (\<lambda>_.
    andThen (require_active i) (\<lambda>_.
    andThen (find_artifact i) (\<lambda>a.
    andThen (on_artifacts (record_stewardship_transfer i
               \<lparr>sr_from = steward a, sr_to = new_steward, sr_timestamp = now\<rparr>)) (\<lambda>_.
    andThen (on_artifacts (update_steward i new_steward)) (\<lambda>_.
    on_artifacts (update_status i (Transferred new_steward now)))))))"

definition navigate_to :: "('sk, 'pk) ledger_lib \<Rightarrow> artifact_id \<Rightarrow> int \<Rightarrow> unit vault_op" where
  "navigate_to L i now = on_log (log_navigate_to L in_memory_attention_store i now)"

definition navigate_back :: "('sk, 'pk) ledger_lib \<Rightarrow> artifact_id \<Rightarrow> int \<Rightarrow> unit vault_op" where
  "navigate_back L i now = on_log (log_navigate_back L in_memory_attention_store i now)"

definition current_focus :: "vault \<Rightarrow> artifact_id option" where
  "current_focus v = al_current_focus (v_log v)"

definition create_inbox :: "bytes32 \<Rightarrow> int \<Rightarrow> artifact vault_op" where
  "create_inbox rnd now = andThen (reads v_player) (\<lambda>p. place_tree rnd ''inbox'' [p] now)"

text \<open>\<open>let _ =\<close> drops the result of the navigation but keeps its effect.\<close>

definition ignore :: "'a vault_op \<Rightarrow> unit vault_op" where
  "ignore m v = (Inr (), snd (m v))"

definition add_connection_request ::
  "('sk, 'pk) ledger_lib \<Rightarrow> artifact_id \<Rightarrow> player_id \<Rightarrow> artifact_id \<Rightarrow> int \<Rightarrow> unit vault_op" where
  "add_connection_request L inbox from_player i now =
    andThen (require_steward inbox) (\<lambda>_.
    let label = ''connection-request:'' @ hex from_player in
    andThen (find_artifact inbox) (\<lambda>a.
    let next_pos = of_nat (length (references a)) in
    andThen (on_artifacts (store_add_ref inbox
               \<lparr>ref_artifact_id = i, ref_position = next_pos, ref_label = Some label\<rparr>)) (\<lambda>_.
    ignore (navigate_to L inbox now))))"

definition steward_history :: "vault \<Rightarrow> artifact_id \<Rightarrow> stewardship_record list" where
  "steward_history v i = store_steward_history (v_artifacts v) i"

definition attention_events :: "vault \<Rightarrow> vault_error + attention_switch_event list" where
  "attention_events v = log_events in_memory_attention_store (v_log v)"

definition peer :: "player_id \<Rightarrow> string option \<Rightarrow> int \<Rightarrow> unit vault_op" where
  "peer p display_name now = on_peers (add_peer p display_name now)"

definition unpeer :: "player_id \<Rightarrow> unit vault_op" where
  "unpeer p =
    andThen (on_peers (remove_peer p)) (\<lambda>_.
    modify (\<lambda>v. v\<lparr>v_peer_attention := (v_peer_attention v)(p := None)\<rparr>))"

definition ingest_peer_log :: "player_id \<Rightarrow> attention_switch_event list \<Rightarrow> unit vault_op" where
  "ingest_peer_log p es =
    andThen (reads (\<lambda>v. is_peer (v_peers v) p)) (\<lambda>b.
    andThen (unless_fail b NotPeered) (\<lambda>_.
    modify (\<lambda>v. v\<lparr>v_peer_attention := (v_peer_attention v)(p \<mapsto> es)\<rparr>)))"

definition check_peer_integrity ::
  "vault \<Rightarrow> player_id \<Rightarrow> attention_switch_event list \<Rightarrow> integrity_result" where
  "check_peer_integrity v p theirs = log_check_peer_integrity in_memory_attention_store (v_log v) p theirs"

section \<open>Operations as equations\<close>

text \<open>
  Each operation computed out: the error of every branch with the vault unchanged, and the
  one artifact that a successful call writes.
\<close>

definition set_artifact :: "artifact_id \<Rightarrow> artifact \<Rightarrow> vault \<Rightarrow> vault" where
  "set_artifact i a v =
    v\<lparr>v_artifacts := (v_artifacts v)\<lparr>as_artifacts := (as_artifacts (v_artifacts v))(i \<mapsto> a)\<rparr>\<rparr>"

named_theorems vault_eqs \<open>operations of the vault computed out\<close>

lemma set_artifact_get [simp]:
  "v_get_artifact (set_artifact i a v) j = (if j = i then Some a else v_get_artifact v j)"
  by (simp add: set_artifact_def v_get_artifact_def get_artifact_def)

lemma set_artifact_other [simp]:
  "v_root (set_artifact i a v) = v_root v" "v_player (set_artifact i a v) = v_player v"
  "v_payloads (set_artifact i a v) = v_payloads v" "v_log (set_artifact i a v) = v_log v"
  "v_peers (set_artifact i a v) = v_peers v" "v_peer_attention (set_artifact i a v) = v_peer_attention v"
  "as_stewardship_history (v_artifacts (set_artifact i a v)) = as_stewardship_history (v_artifacts v)"
  by (simp_all add: set_artifact_def v_player_def)

lemma set_artifact_twice [simp]: "set_artifact i b (set_artifact i a v) = set_artifact i b v"
  by (simp add: set_artifact_def)

lemma find_artifact_eq [vault_eqs]:
  "find_artifact i v = (case v_get_artifact v i of None \<Rightarrow> (Inl ArtifactNotFound, v) | Some a \<Rightarrow> (Inr a, v))"
  by (simp add: find_artifact_def op_defs)

lemma put_artifact_eq [vault_eqs]: "on_artifacts (put_artifact a) v = (Inr (), set_artifact (art_id a) a v)"
  by (simp add: on_artifacts_def put_artifact_def op_defs set_artifact_def)

text \<open>An edit of the store seen from the vault, once for all the mutators.\<close>

context artifact_mutator
begin

lemma on_eq:
  "on_artifacts (run i x) v =
    (case v_get_artifact v i of
       None \<Rightarrow> (Inl ArtifactNotFound, v) | Some a \<Rightarrow> (Inr (), set_artifact i (f x a) v))"
  by (auto simp: on_artifacts_def zoom_def v_get_artifact_def set_artifact_def missing present
        split: option.splits)

lemma on_guard:
  "andThen (on_artifacts (run i x)) g v =
    (case v_get_artifact v i of
       None \<Rightarrow> (Inl ArtifactNotFound, v) | Some a \<Rightarrow> g () (set_artifact i (f x a) v))"
  by (auto simp: andThen_def on_eq split: option.splits)

end

lemmas mutator_eqs [vault_eqs] =
  us.on_eq ust.on_eq ag.on_eq rg.on_eq ar.on_eq rr.on_eq us.on_guard ar.on_guard

lemma put_guard [vault_eqs]:
  "andThen (on_artifacts (put_artifact a)) g v = g () (set_artifact (art_id a) a v)"
  by (simp add: andThen_def put_artifact_eq)

lemma steward_guard [vault_eqs]:
  "andThen (require_steward i) f v =
    (case v_get_artifact v i of
       None \<Rightarrow> (Inl ArtifactNotFound, v)
     | Some a \<Rightarrow> if steward a = v_player v then f () v else (Inl NotSteward, v))"
  by (auto simp: require_steward_def find_artifact_def op_defs split: option.splits)

lemma active_guard [vault_eqs]:
  "andThen (require_active i) f v =
    (case v_get_artifact v i of
       None \<Rightarrow> (Inl ArtifactNotFound, v)
     | Some a \<Rightarrow> if is_active (status a) then f () v else (Inl NotActive, v))"
  by (auto simp: require_active_def find_artifact_def op_defs split: option.splits)

lemma find_guard [vault_eqs]:
  "andThen (find_artifact i) f v =
    (case v_get_artifact v i of None \<Rightarrow> (Inl ArtifactNotFound, v) | Some a \<Rightarrow> f a v)"
  by (auto simp: find_artifact_def op_defs split: option.splits)

declare andThen_simps [vault_eqs]

lemma reads_guard [vault_eqs]: "andThen (reads g) f s = f (g s) s"
  by (simp add: op_defs)

lemma unless_guard [vault_eqs]: "andThen (unless_fail b e) f s = (if b then f () s else (Inl e, s))"
  by (simp add: op_defs)

text \<open>What a steward-only operation does to an artifact that passes its guards.\<close>

fun steward_result :: "vault \<Rightarrow> artifact_id \<Rightarrow> bool \<Rightarrow> (artifact \<Rightarrow> vault_error + artifact) \<Rightarrow> (vault_error + unit) \<times> vault" where
  "steward_result v i needs_active f =
    (case v_get_artifact v i of
       None \<Rightarrow> (Inl ArtifactNotFound, v)
     | Some a \<Rightarrow>
        if steward a \<noteq> v_player v then (Inl NotSteward, v)
        else if needs_active \<and> \<not> is_active (status a) then (Inl NotActive, v)
        else (case f a of Inl e \<Rightarrow> (Inl e, v) | Inr b \<Rightarrow> (Inr (), set_artifact i b v)))"

lemma compose_eq:
  "compose i c pos label v = steward_result v i False (\<lambda>a. Inr (a\<lparr>references :=
     sort_key ref_position (references a @ [\<lparr>ref_artifact_id = c, ref_position = pos, ref_label = label\<rparr>])\<rparr>))"
  by (auto simp: compose_def vault_eqs split: option.splits)

lemma v_remove_ref_eq:
  "v_remove_ref i c v = steward_result v i False (\<lambda>a. Inr (a\<lparr>references :=
     filter (\<lambda>r. ref_artifact_id r \<noteq> c) (references a)\<rparr>))"
  by (auto simp: v_remove_ref_def vault_eqs split: option.splits)

lemma grant_access_eq:
  "grant_access i g mode now v = steward_result v i True (\<lambda>a.
     if list_ex (\<lambda>x. grantee x = g \<and> \<not> is_expired (grant_mode x) now) (grants a) then Inl AlreadyGranted
     else Inr (a\<lparr>grants := grants a @
       [\<lparr>grantee = g, grant_mode = mode, granted_at = now, granted_by = v_player v\<rparr>]\<rparr>))"
  by (auto simp: grant_access_def vault_eqs split: option.splits)

lemma revoke_access_eq:
  "revoke_access i g v = steward_result v i True (\<lambda>a.
     case find (\<lambda>x. grantee x = g) (grants a) of
       Some x \<Rightarrow> if grant_mode x = Permanent then Inl CannotRevoke
                 else Inr (a\<lparr>grants := filter (\<lambda>x. grantee x \<noteq> g) (grants a)\<rparr>)
     | None \<Rightarrow> Inl ArtifactNotFound)"
  by (auto simp: revoke_access_def vault_eqs throw_def split: option.splits)

lemma recall_eq:
  "recall i now v = steward_result v i True (\<lambda>a. Inr (a\<lparr>status := Recalled now\<rparr>))"
  by (auto simp: recall_def vault_eqs split: option.splits)

definition add_history :: "artifact_id \<Rightarrow> stewardship_record \<Rightarrow> vault \<Rightarrow> vault" where
  "add_history i r v = v\<lparr>v_artifacts := snd (record_stewardship_transfer i r (v_artifacts v) :: (vault_error + unit) \<times> _)\<rparr>"

lemma record_transfer_eq [vault_eqs]:
  "andThen (on_artifacts (record_stewardship_transfer i r)) f v = f () (add_history i r v)"
  by (simp add: on_artifacts_def record_stewardship_transfer_def op_defs add_history_def)

lemma add_history_simps [simp]:
  "v_get_artifact (add_history i r v) j = v_get_artifact v j" "v_root (add_history i r v) = v_root v"
  "v_player (add_history i r v) = v_player v"
  "v_payloads (add_history i r v) = v_payloads v" "v_log (add_history i r v) = v_log v"
  "v_peers (add_history i r v) = v_peers v" "v_peer_attention (add_history i r v) = v_peer_attention v"
  "as_artifacts (v_artifacts (add_history i r v)) = as_artifacts (v_artifacts v)"
  "steward_history (add_history i r v) j = steward_history v j @ (if j = i then [r] else [])"
  by (auto simp: add_history_def record_stewardship_transfer_def modify_def v_get_artifact_def
        get_artifact_def v_player_def steward_history_def store_steward_history_def split: option.splits)

lemma steward_history_set [simp]: "steward_history (set_artifact i a v) j = steward_history v j"
  by (simp add: steward_history_def store_steward_history_def)

lemma transfer_stewardship_eq:
  "transfer_stewardship i p now v =
    (case v_get_artifact v i of
       None \<Rightarrow> (Inl ArtifactNotFound, v)
     | Some a \<Rightarrow>
        if steward a \<noteq> v_player v then (Inl NotSteward, v)
        else if \<not> is_active (status a) then (Inl NotActive, v)
        else (Inr (), set_artifact i (a\<lparr>steward := p, status := Transferred p now\<rparr>)
               (add_history i \<lparr>sr_from = v_player v, sr_to = p, sr_timestamp = now\<rparr> v)))"
  by (auto simp: transfer_stewardship_def vault_eqs
        split: option.splits)

section \<open>Invariant\<close>

text \<open>
  The invariant of a vault: the artifact store is well-formed and holds the root, a leaf has
  its payload, payloads are content-addressed, the own log is a valid chain and no other log
  is in its store, peers are not repeated and only peers have a replica.
\<close>

definition vault_ok :: "('sk, 'pk) ledger_lib \<Rightarrow> vault \<Rightarrow> bool" where
  "vault_ok L v \<longleftrightarrow>
    store_ok (v_artifacts v) \<and> v_get_artifact v (art_id (v_root v)) \<noteq> None \<and>
    (\<forall>i a. v_get_artifact v i = Some a \<longrightarrow> payload a \<noteq> None \<longrightarrow> v_has_payload v i) \<and>
    ps.addressed (blake3 L) (v_payloads v) \<and>
    log_ok L in_memory_attention_store (v_log v) \<and> al_player (v_log v) = v_player v \<and>
    dom (al_store (v_log v)) \<subseteq> {v_player v} \<and>
    registry_ok (v_peers v) \<and> dom (v_peer_attention v) \<subseteq> peer_set (v_peers v)"

lemma vault_ok_set:
  assumes "vault_ok L v" and "art_id a = i" and "refs_sorted a" and "payload a \<noteq> None \<Longrightarrow> v_has_payload v i"
  shows "vault_ok L (set_artifact i a v)"
proof -
  have "store_ok (v_artifacts (set_artifact i a v))"
    using assms(1-3) by (auto simp: vault_ok_def store_ok_def set_artifact_def key_matches_def ran_def)
  with assms show ?thesis by (auto simp: vault_ok_def v_has_payload_def)
qed

lemma vault_ok_history [simp]: "vault_ok L (add_history i r v) = vault_ok L v"
  by (simp add: vault_ok_def store_ok_def v_has_payload_def)

lemma vault_ok_get:
  "vault_ok L v \<Longrightarrow> v_get_artifact v i = Some a \<Longrightarrow>
    art_id a = i \<and> refs_sorted a \<and> (payload a \<noteq> None \<longrightarrow> v_has_payload v i)"
  by (auto simp: vault_ok_def store_ok_def v_get_artifact_def get_artifact_def ran_def dest: key_matchesD)

text \<open>An edit that keeps identity, payload and the order of the references.\<close>

definition benign :: "artifact \<Rightarrow> artifact \<Rightarrow> bool" where
  "benign a b \<longleftrightarrow> art_id b = art_id a \<and> payload b = payload a \<and> (refs_sorted a \<longrightarrow> refs_sorted b)"

lemma vault_ok_edit:
  "vault_ok L v \<Longrightarrow> v_get_artifact v i = Some a \<Longrightarrow> benign a b \<Longrightarrow> vault_ok L (set_artifact i b v)"
  using vault_ok_get[of L v i a] by (auto simp: benign_def intro!: vault_ok_set)

lemma steward_result_ok:
  assumes "vault_ok L v" and "\<And>a b. f a = Inr b \<Longrightarrow> benign a b"
  shows "vault_ok L (snd (steward_result v i n f))"
  using assms vault_ok_edit[OF assms(1), of i]
  by (auto split: option.splits sum.splits)

lemma benign_updates [simp]:
  "benign a (a\<lparr>references := sort_key ref_position (references a @ [r])\<rparr>)"
  "benign a (a\<lparr>references := filter P (references a)\<rparr>)"
  "benign a (a\<lparr>grants := gs\<rparr>)" "benign a (a\<lparr>status := st\<rparr>)" "benign a (a\<lparr>steward := p\<rparr>)"
  "benign a (a\<lparr>steward := p, status := st\<rparr>)"
  "benign a (a\<lparr>metadata := md\<rparr>)" "benign a (a\<lparr>blessing_history := bh\<rparr>)"
  by (auto simp: benign_def refs_sorted_add refs_sorted_remove) (auto simp: refs_sorted_def)

lemma keeps_compose [keeps_intros]: "keeps (vault_ok L) (compose i c pos label)"
  unfolding keeps_def compose_eq by (auto intro!: steward_result_ok simp del: steward_result.simps)

lemma keeps_remove_ref [keeps_intros]: "keeps (vault_ok L) (v_remove_ref i c)"
  unfolding keeps_def v_remove_ref_eq by (auto intro!: steward_result_ok simp del: steward_result.simps)

lemma keeps_grant [keeps_intros]: "keeps (vault_ok L) (grant_access i g mode now)"
  unfolding keeps_def grant_access_eq
  by (auto intro!: steward_result_ok simp del: steward_result.simps split: if_splits)

lemma keeps_revoke [keeps_intros]: "keeps (vault_ok L) (revoke_access i g)"
  unfolding keeps_def revoke_access_eq
  by (auto intro!: steward_result_ok simp del: steward_result.simps split: if_splits option.splits)

lemma keeps_recall [keeps_intros]: "keeps (vault_ok L) (recall i now)"
  unfolding keeps_def recall_eq by (auto intro!: steward_result_ok simp del: steward_result.simps)

lemma keeps_transfer [keeps_intros]: "keeps (vault_ok L) (transfer_stewardship i p now)"
  unfolding keeps_def transfer_stewardship_eq
  by (auto split: option.splits intro!: vault_ok_edit)

lemma place_tree_with_id_ok [keeps_intros]: "keeps (vault_ok L) (place_tree_with_id i ty ps now)"
  unfolding keeps_def place_tree_with_id_def
  by (auto simp: vault_eqs Let_def ok_def refs_sorted_def intro!: vault_ok_set)

lemma place_tree_eq: "place_tree rnd ty ps now = place_tree_with_id (generate_tree_id rnd) ty ps now"
  by (simp add: place_tree_def place_tree_with_id_def)

lemma keeps_place_tree [keeps_intros]: "keeps (vault_ok L) (place_tree rnd ty ps now)"
  unfolding place_tree_eq by (rule keeps_intros)

lemma keeps_create_inbox [keeps_intros]: "keeps (vault_ok L) (create_inbox rnd now)"
  unfolding create_inbox_def by (intro keeps_intros)

lemma store_payload_vault_ok:
  assumes "vault_ok L v" and "v_store_payload L p v = (r, v')"
  shows "vault_ok L v' \<and> r = Inr (leaf_id (blake3 L) p) \<and> v_has_payload v' (leaf_id (blake3 L) p)"
proof -
  obtain r' t where st: "store_payload (blake3 L) p (v_payloads v) = (r', t)" by (cases rule: prod.exhaust)
  then have v': "v' = v\<lparr>v_payloads := t\<rparr>" "r = r'"
    using assms(2) by (auto simp: v_store_payload_def on_payloads_def zoom_def)
  have "ps.addressed (blake3 L) t"
    using ps.addressed_store[OF _ st] assms(1) by (simp add: vault_ok_def)
  moreover have "get_payload t i = (if i = leaf_id (blake3 L) p then Some p else get_payload (v_payloads v) i)" for i
    by (rule ps.get_store[OF st])
  ultimately show ?thesis
    using assms(1) ps.store_id[OF st]
    by (auto simp: vault_ok_def v' v_has_payload_def payload_present_def v_get_artifact_def v_player_def
        get_payload_def)
qed

lemma keeps_store_payload [keeps_intros]: "keeps (vault_ok L) (v_store_payload L p)"
  unfolding keeps_def using store_payload_vault_ok by (metis prod.collapse)

text \<open>The artifact that \<open>place_leaf\<close> returns and stores.\<close>

definition leaf_artifact ::
  "('sk, 'pk) ledger_lib \<Rightarrow> bytes \<Rightarrow> string \<Rightarrow> string option \<Rightarrow> string \<Rightarrow> int \<Rightarrow> player_id \<Rightarrow> artifact" where
  "leaf_artifact L pl nm mime ty now p =
    \<lparr>art_id = leaf_id (blake3 L) pl, artifact_type = ty, steward = p, grants = [own_grant p now], status = Active,
     provenance = None, created_at = now,
     payload = Some \<lparr>pl_name = nm, pl_size = of_nat (length pl), pl_mime_type = mime\<rparr>,
     references = [], metadata = Map.empty, blessing_history = []\<rparr>"

lemma place_leaf_eq:
  "place_leaf L pl nm mime ty now v =
    (let a = leaf_artifact L pl nm mime ty now (v_player v)
     in (Inr a, set_artifact (art_id a) a (v\<lparr>v_payloads := (v_payloads v)(leaf_id (blake3 L) pl \<mapsto> pl)\<rparr>)))"
  by (simp add: place_leaf_def on_payloads_def on_artifacts_def store_payload_def put_artifact_def op_defs Let_def
      leaf_artifact_def set_artifact_def v_player_def)

lemma keeps_place_leaf [keeps_intros]: "keeps (vault_ok L) (place_leaf L pl nm mime ty now)"
  unfolding keeps_def place_leaf_eq Let_def snd_conv
proof (intro allI impI)
  fix v assume ok: "vault_ok L v"
  let ?v = "v\<lparr>v_payloads := (v_payloads v)(leaf_id (blake3 L) pl \<mapsto> pl)\<rparr>"
  have "v_store_payload L pl v = (Inr (leaf_id (blake3 L) pl), ?v)"
    by (simp add: v_store_payload_def on_payloads_def zoom_def store_payload_def Let_def)
  from store_payload_vault_ok[OF ok this]
  show "vault_ok L (set_artifact (art_id (leaf_artifact L pl nm mime ty now (v_player v)))
          (leaf_artifact L pl nm mime ty now (v_player v)) ?v)"
    by (intro vault_ok_set) (auto simp: leaf_artifact_def refs_sorted_def)
qed

lemma append_dom: "dom (snd (append_event e s)) = insert (ev_author e) (dom s)"
  by (auto simp: append_event_def modify_def)

lemma log_step_frame:
  "al_player (snd (log_navigate_to L in_memory_attention_store i now log)) = al_player log"
  "al_player (snd (log_navigate_back L in_memory_attention_store i now log)) = al_player log"
  "dom (al_store (snd (log_navigate_to L in_memory_attention_store i now log))) = insert (al_player log) (dom (al_store log))"
  "dom (al_store (snd (log_navigate_back L in_memory_attention_store i now log))) = insert (al_player log) (dom (al_store log))"
  by (auto simp: log_navigate_to_def log_navigate_back_def in_memory_attention_store_def append_event_def
      modify_def Let_def new_event_def)

lemma vault_ok_log:
  assumes "vault_ok L v" and "log_ok L in_memory_attention_store log"
    and "al_player log = al_player (v_log v)" and "dom (al_store log) \<subseteq> insert (al_player (v_log v)) (dom (al_store (v_log v)))"
  shows "vault_ok L (v\<lparr>v_log := log\<rparr>)"
proof -
  have "dom (al_store (v_log v)) \<subseteq> {v_player v}" "al_player (v_log v) = v_player v"
    using assms(1) by (simp_all add: vault_ok_def)
  with assms(4) have "dom (al_store log) \<subseteq> {v_player v}" by blast
  with assms show ?thesis by (simp add: vault_ok_def v_player_def v_get_artifact_def v_has_payload_def)
qed

lemma keeps_navigate_to [keeps_intros]: "keeps (vault_ok L) (navigate_to L i now)"
  unfolding navigate_to_def on_log_def
  by (rule keeps_zoom, rule vault_ok_log)
     (auto simp: log_step_frame vault_ok_def intro: keepsD_snd[OF ms.navigate_to_ok])

lemma keeps_navigate_back [keeps_intros]: "keeps (vault_ok L) (navigate_back L i now)"
  unfolding navigate_back_def on_log_def
  by (rule keeps_zoom, rule vault_ok_log)
     (auto simp: log_step_frame vault_ok_def intro: keepsD_snd[OF ms.navigate_back_ok])

lemma keeps_ignore [keeps_intros]: "keeps P m \<Longrightarrow> keeps P (ignore m)"
  by (simp add: keeps_def ignore_def)

lemma keeps_add_ref [keeps_intros]: "keeps (vault_ok L) (on_artifacts (store_add_ref i r))"
  unfolding keeps_def by (auto simp: vault_eqs split: option.splits intro!: vault_ok_edit)

lemma keeps_require_steward [keeps_intros]: "keeps P (require_steward i)"
  unfolding require_steward_def find_artifact_def by (intro keeps_intros)

lemma keeps_find_artifact [keeps_intros]: "keeps P (find_artifact i)"
  unfolding find_artifact_def by (intro keeps_intros)

lemma keeps_connection_request [keeps_intros]: "keeps (vault_ok L) (add_connection_request L inbox q i now)"
  unfolding add_connection_request_def Let_def by (intro keeps_intros)

lemma vault_ok_peers:
  "vault_ok L v \<Longrightarrow> registry_ok t \<Longrightarrow> dom pa \<subseteq> peer_set t \<Longrightarrow> vault_ok L (v\<lparr>v_peers := t, v_peer_attention := pa\<rparr>)"
  by (simp add: vault_ok_def v_player_def v_get_artifact_def v_has_payload_def)

lemma vault_ok_peersD: "vault_ok L v \<Longrightarrow> registry_ok (v_peers v) \<and> dom (v_peer_attention v) \<subseteq> peer_set (v_peers v)"
  by (simp add: vault_ok_def)

lemma keeps_peer [keeps_intros]: "keeps (vault_ok L) (peer p d now)"
  unfolding peer_def on_peers_def
proof (rule keeps_zoom)
  fix v assume ok: "vault_ok L v"
  let ?t = "snd (add_peer p d now (v_peers v))"
  have "registry_ok ?t" "dom (v_peer_attention v) \<subseteq> peer_set ?t"
    using vault_ok_peersD[OF ok] keepsD_snd[OF keeps_add_peer] by (auto simp: add_peer_set)
  from vault_ok_peers[OF ok this] show "vault_ok L (v\<lparr>v_peers := ?t\<rparr>)" by simp
qed

lemma unpeer_eq:
  "unpeer p v =
    (case remove_peer p (v_peers v) of
       (Inl e, t) \<Rightarrow> (Inl e, v\<lparr>v_peers := t\<rparr>)
     | (Inr _, t) \<Rightarrow> (Inr (), v\<lparr>v_peers := t, v_peer_attention := (v_peer_attention v)(p := None)\<rparr>))"
  by (auto simp: unpeer_def on_peers_def op_defs split: prod.splits sum.splits)

lemma keeps_unpeer [keeps_intros]: "keeps (vault_ok L) (unpeer p)"
  unfolding keeps_def
proof (intro allI impI)
  fix v assume ok: "vault_ok L v"
  obtain r t where rm: "remove_peer p (v_peers v) = (r, t)" by (cases rule: prod.exhaust)
  have t: "registry_ok t" using keepsD[OF keeps_remove_peer _ rm] vault_ok_peersD[OF ok] by simp
  have set: "peer_set t = peer_set (v_peers v) - {p}" using remove_peer_set[of p "v_peers v"] rm by simp
  have r: "r = Inr () \<longleftrightarrow> p \<in> peer_set (v_peers v)" using remove_peer_result[of p "v_peers v"] rm by simp
  show "vault_ok L (snd (unpeer p v))"
  proof (cases r)
    case (Inl e)
    then have "peer_set t = peer_set (v_peers v)" using r set by simp
    then have "dom (v_peer_attention v) \<subseteq> peer_set t" using vault_ok_peersD[OF ok] by simp
    from vault_ok_peers[OF ok t this] Inl rm show ?thesis by (simp add: unpeer_eq)
  next
    case (Inr u)
    have "dom ((v_peer_attention v)(p := None)) \<subseteq> peer_set t" using set vault_ok_peersD[OF ok] by (simp add: dom_fun_upd) blast
    from vault_ok_peers[OF ok t this] Inr rm show ?thesis by (simp add: unpeer_eq)
  qed
qed

lemma keeps_ingest [keeps_intros]: "keeps (vault_ok L) (ingest_peer_log p es)"
  unfolding keeps_def ingest_peer_log_def
  by (auto simp: vault_eqs modify_def vault_ok_def v_player_def v_get_artifact_def v_has_payload_def)

lemma in_memory_ok: "vault_ok L (in_memory rnd p now)"
  by (auto simp: in_memory_def vault_ok_def Let_def put_artifact_def modify_def store_ok_def new_artifact_store_def
      v_get_artifact_def get_artifact_def refs_sorted_def ps.addressed_def get_payload_def v_player_def new_log_def
      log_ok_def log_events_def in_memory_attention_store_def events_of_def head_matches_def)

section \<open>Reachable vaults\<close>

text \<open>One call of a public method, with any arguments and whatever its result.\<close>

inductive vault_step :: "('sk, 'pk) ledger_lib \<Rightarrow> vault \<Rightarrow> vault \<Rightarrow> bool" for L v where
  "vault_step L v (snd (place_leaf L pl nm mime ty now v))"
| "vault_step L v (snd (place_tree rnd ty ps now v))"
| "vault_step L v (snd (place_tree_with_id i ty ps now v))"
| "vault_step L v (snd (v_store_payload L pl v))"
| "vault_step L v (snd (compose i c pos label v))"
| "vault_step L v (snd (v_remove_ref i c v))"
| "vault_step L v (snd (grant_access i g mode now v))"
| "vault_step L v (snd (revoke_access i g v))"
| "vault_step L v (snd (recall i now v))"
| "vault_step L v (snd (transfer_stewardship i p now v))"
| "vault_step L v (snd (create_inbox rnd now v))"
| "vault_step L v (snd (add_connection_request L i q j now v))"
| "vault_step L v (snd (navigate_to L i now v))"
| "vault_step L v (snd (navigate_back L i now v))"
| "vault_step L v (snd (peer q d now v))"
| "vault_step L v (snd (unpeer q v))"
| "vault_step L v (snd (ingest_peer_log q es v))"

lemma vault_step_ok: "vault_step L v v' \<Longrightarrow> vault_ok L v \<Longrightarrow> vault_ok L v'"
  by (induction rule: vault_step.induct) (erule keepsD_snd[rotated]; rule keeps_intros)+

lemma vault_reach_ok: "(vault_step L)\<^sup>*\<^sup>* v v' \<Longrightarrow> vault_ok L v \<Longrightarrow> vault_ok L v'"
  by (induction rule: rtranclp_induct) (auto intro: vault_step_ok)

definition steward_calls :: "artifact_id \<Rightarrow> unit vault_op set" where
  "steward_calls i =
    {compose i c pos label | c pos label. True} \<union> {v_remove_ref i c | c. True} \<union>
    {grant_access i g mode now | g mode now. True} \<union> {revoke_access i g | g. True} \<union>
    {recall i now | now. True} \<union> {transfer_stewardship i p now | p now. True}"

text \<open>Two vaults that agree except possibly on artifact \<open>i\<close> and its history.\<close>

definition same_except :: "artifact_id \<Rightarrow> vault \<Rightarrow> vault \<Rightarrow> bool" where
  "same_except i v v' \<longleftrightarrow>
    (\<forall>j. j \<noteq> i \<longrightarrow> v_get_artifact v' j = v_get_artifact v j \<and> steward_history v' j = steward_history v j) \<and>
    v_root v' = v_root v \<and> v_payloads v' = v_payloads v \<and> v_log v' = v_log v \<and> v_peers v' = v_peers v \<and>
    v_peer_attention v' = v_peer_attention v"

lemma same_except_refl [simp]: "same_except i v v"
  by (simp add: same_except_def)

lemma same_except_set [simp]: "same_except i v (set_artifact i a v)"
  by (simp add: same_except_def)

lemma same_except_history [simp]: "same_except i v (set_artifact i a (add_history i r v))"
  by (simp add: same_except_def)

lemma steward_result_cases:
  assumes "steward_result v i n f = (r, v')"
  shows "(case r of Inl e \<Rightarrow> v' = v | Inr _ \<Rightarrow> \<exists>a. v_get_artifact v i = Some a \<and> steward a = v_player v) \<and> same_except i v v'"
  using assms by (auto split: option.splits if_splits sum.splits)

lemma steward_call_cases:
  assumes "m \<in> steward_calls i"
  shows "(\<exists>n f. m v = steward_result v i n f) \<or> (\<exists>p now. m = transfer_stewardship i p now)"
  using assms unfolding steward_calls_def
  by (auto simp del: steward_result.simps simp: compose_eq v_remove_ref_eq grant_access_eq revoke_access_eq recall_eq)
     (rule exI, rule exI, rule refl)+

text \<open>A concrete vault with one document, doc_x, of player a.\<close>

definition vault0 :: vault where
  "vault0 = in_memory (replicate 32 9) player_a 0"

definition vault1 :: vault where
  "vault1 = snd (place_tree (replicate 32 7) ''note'' [player_a] 1 vault0)"

lemma vault1_ok: "vault_ok L vault1"
  unfolding vault1_def vault0_def by (rule keepsD_snd[OF keeps_place_tree in_memory_ok])

lemma vault1_reach: "(vault_step L)\<^sup>*\<^sup>* (in_memory (replicate 32 9) player_a 0) vault1"
  unfolding vault1_def vault0_def by (rule r_into_rtranclp) (rule vault_step.intros)

lemma vault1_art: "\<exists>a. v_get_artifact vault1 doc_x = Some a \<and> steward a = v_player vault1 \<and> is_active (status a)
    \<and> grants a = audience_to_grants [player_a] 1 player_a"
proof -
  have "case v_get_artifact vault1 doc_x of None \<Rightarrow> False
    | Some a \<Rightarrow> steward a = v_player vault1 \<and> is_active (status a) \<and> grants a = audience_to_grants [player_a] 1 player_a"
    by code_simp
  then show ?thesis by (auto split: option.splits)
qed

section \<open>Properties of the vault\<close>

text \<open>
  C5: Every vault reached from a fresh one by calls of its methods, successful or not, keeps
  the invariant: stored artifacts sit under their identifier with references in position
  order, leaves have their payload, payloads are under their hash, the own attention log is a
  valid chain whose head is cached correctly, peers are not repeated and only peers have a
  replicated log.
\<close>

theorem vault_invariant:
  assumes "(vault_step L)\<^sup>*\<^sup>* (in_memory rnd p now) v"
  shows "vault_ok L v"
  using assms in_memory_ok by (rule vault_reach_ok)

theorem vault_invariant_witness: "vault_ok sample_lib vault1"
  by (rule vault_invariant[OF vault1_reach])

text \<open>
  C6: The six methods of the vault that work on one artifact for its steward (\<open>compose\<close>, \<open>remove_ref\<close>,
  \<open>grant_access\<close>, \<open>revoke_access\<close>, \<open>recall\<close> and \<open>transfer_stewardship\<close>) succeed only if the artifact is there and
  the vault's player is its steward; one that fails leaves the vault as it was; and either way no other artifact,
  history, payload, log or peer changes. Placements, and the protocols that write to the artifact store directly, are not among
  these methods.
\<close>

theorem steward_methods_guarded:
  assumes "m \<in> steward_calls i" and "m v = (r, v')"
  shows "(case r of Inl e \<Rightarrow> v' = v
                 | Inr _ \<Rightarrow> \<exists>a. v_get_artifact v i = Some a \<and> steward a = v_player v) \<and> same_except i v v'"
  using steward_call_cases[OF assms(1), of v]
proof (elim disjE exE)
  fix n f assume "m v = steward_result v i n f"
  then show ?thesis using assms(2) by (intro steward_result_cases) simp
next
  fix p now assume "m = transfer_stewardship i p now"
  then show ?thesis using assms(2) by (auto simp: transfer_stewardship_eq split: option.splits if_splits)
qed

theorem steward_methods_guarded_witness:
  "\<exists>v'. recall doc_x 5 vault1 = (Inr (), v') \<and> same_except doc_x vault1 v'"
proof -
  obtain v' where v': "recall doc_x 5 vault1 = (Inr (), v')"
    using vault1_art by (auto simp: recall_eq)
  have "recall doc_x 5 \<in> steward_calls doc_x" by (auto simp: steward_calls_def)
  from steward_methods_guarded[OF this v'] v' show ?thesis by simp
qed

lemma transfer_success:
  assumes "transfer_stewardship i p now v = (Inr (), v')"
  shows "\<exists>a. v_get_artifact v i = Some a \<and> steward a = v_player v \<and> is_active (status a) \<and>
    v' = set_artifact i (a\<lparr>steward := p, status := Transferred p now\<rparr>)
           (add_history i \<lparr>sr_from = v_player v, sr_to = p, sr_timestamp = now\<rparr> v)"
  using assms by (auto simp: transfer_stewardship_eq split: option.splits if_splits)

lemma not_steward_call:
  assumes "m \<in> steward_calls i" and "v_get_artifact v i = Some a" and "steward a \<noteq> v_player v"
  shows "m v = (Inl NotSteward, v)"
  using steward_call_cases[OF assms(1), of v] assms(2,3) by (auto simp: transfer_stewardship_eq)

text \<open>A call that places a new artifact under the identifier \<open>i\<close>.\<close>

definition reuses_id :: "('sk, 'pk) ledger_lib \<Rightarrow> artifact_id \<Rightarrow> vault \<Rightarrow> vault \<Rightarrow> bool" where
  "reuses_id L i v v' \<longleftrightarrow>
    (\<exists>pl nm mime ty now. leaf_id (blake3 L) pl = i \<and> v' = snd (place_leaf L pl nm mime ty now v)) \<or>
    (\<exists>ty ps now. v' = snd (place_tree_with_id i ty ps now v))"

lemma place_tree_with_id_eq:
  "\<exists>a. place_tree_with_id i ty ps now v = (Inr a, set_artifact i a v) \<and> steward a = v_player v \<and> status a = Active \<and>
    references a = [] \<and> grants a = audience_to_grants ps now (v_player v)"
  by (simp add: place_tree_with_id_def vault_eqs Let_def ok_def)

lemma other_fields [simp]:
  "v_get_artifact (v\<lparr>v_payloads := ps\<rparr>) i = v_get_artifact v i" "v_get_artifact (v\<lparr>v_log := lg\<rparr>) i = v_get_artifact v i"
  "v_get_artifact (v\<lparr>v_peers := rg\<rparr>) i = v_get_artifact v i" "v_get_artifact (v\<lparr>v_peer_attention := pa\<rparr>) i = v_get_artifact v i"
  "steward_history (v\<lparr>v_payloads := ps\<rparr>) i = steward_history v i" "steward_history (v\<lparr>v_log := lg\<rparr>) i = steward_history v i"
  "steward_history (v\<lparr>v_peers := rg\<rparr>) i = steward_history v i" "steward_history (v\<lparr>v_peer_attention := pa\<rparr>) i = steward_history v i"
  "v_player (v\<lparr>v_payloads := ps\<rparr>) = v_player v" "v_player (v\<lparr>v_log := lg\<rparr>) = v_player v"
  "v_player (v\<lparr>v_peers := rg\<rparr>) = v_player v" "v_player (v\<lparr>v_peer_attention := pa\<rparr>) = v_player v"
  by (simp_all add: v_get_artifact_def steward_history_def v_player_def)

text \<open>Whoever places an artifact is its steward.\<close>

lemma reuses_id_steward:
  assumes "reuses_id L i v v'"
  shows "\<exists>a. v_get_artifact v' i = Some a \<and> steward a = v_player v"
  using assms unfolding reuses_id_def
proof (elim disjE exE conjE)
  fix pl nm mime ty now assume "leaf_id (blake3 L) pl = i" "v' = snd (place_leaf L pl nm mime ty now v)"
  then show ?thesis by (simp add: place_leaf_eq Let_def leaf_artifact_def)
next
  fix ty ps now assume "v' = snd (place_tree_with_id i ty ps now v)"
  then show ?thesis using place_tree_with_id_eq[of i ty ps now v] by auto
qed

text \<open>No call but a placement under its identifier changes an artifact of somebody else.\<close>

lemma foreign_step:
  assumes "vault_step L v v'" and "\<not> reuses_id L i v v'" and "v_get_artifact v i = Some a" and "steward a \<noteq> v_player v"
  shows "v_get_artifact v' i = Some a \<and> steward_history v' i = steward_history v i \<and> v_player v' = v_player v"
  using assms
proof (induction rule: vault_step.induct)
  case (1 pl nm mime ty now)
  then have "leaf_id (blake3 L) pl \<noteq> i" unfolding reuses_id_def by blast
  with 1 show ?case by (simp add: place_leaf_eq Let_def leaf_artifact_def)
next
  case (2 rnd ty ps now)
  then have "generate_tree_id rnd \<noteq> i" unfolding reuses_id_def place_tree_eq by blast
  with 2 show ?case using place_tree_with_id_eq[of "generate_tree_id rnd" ty ps now v] by (auto simp: place_tree_eq)
next
  case (3 j ty ps now)
  then have "j \<noteq> i" unfolding reuses_id_def by blast
  with 3 show ?case using place_tree_with_id_eq[of j ty ps now v] by auto
next
  case (11 rnd now)
  have c: "create_inbox rnd now v = place_tree_with_id (generate_tree_id rnd) ''inbox'' [v_player v] now v"
    by (simp add: create_inbox_def op_defs place_tree_eq)
  have "reuses_id L (generate_tree_id rnd) v (snd (create_inbox rnd now v))" unfolding reuses_id_def c by blast
  with 11(1) have "generate_tree_id rnd \<noteq> i" by auto
  with 11 show ?case using place_tree_with_id_eq[of "generate_tree_id rnd" "''inbox''" "[v_player v]" now v] by (auto simp: c)
next
  case (12 j q k now)
  then show ?case
    by (auto simp: add_connection_request_def vault_eqs Let_def ignore_def navigate_to_def on_log_def zoom_def split: option.splits prod.splits)
next
  case (16 q)
  then show ?case by (auto simp: unpeer_eq split: prod.splits sum.splits)
qed (auto simp: compose_eq v_remove_ref_eq grant_access_eq revoke_access_eq recall_eq transfer_stewardship_eq navigate_to_def
    navigate_back_def on_log_def v_store_payload_def on_payloads_def peer_def on_peers_def ingest_peer_log_def op_defs
    split: option.splits sum.splits prod.splits if_splits)

definition other_call :: "('sk, 'pk) ledger_lib \<Rightarrow> artifact_id \<Rightarrow> vault \<Rightarrow> vault \<Rightarrow> bool" where
  "other_call L i v v' \<longleftrightarrow> vault_step L v v' \<and> \<not> reuses_id L i v v'"

lemma foreign_run:
  assumes "(other_call L i)\<^sup>*\<^sup>* v w" and "v_get_artifact v i = Some a" and "steward a \<noteq> v_player v"
  shows "v_get_artifact w i = Some a \<and> steward_history w i = steward_history v i \<and> v_player w = v_player v"
  using assms
proof (induction rule: rtranclp_induct)
  case (step w x)
  then have "v_get_artifact w i = Some a" "steward a \<noteq> v_player w" by simp_all
  with foreign_step[of L w x i a] step show ?case by (simp add: other_call_def)
qed simp

text \<open>
  C37: A transfer to somebody else is final as far as the steward methods go. Whatever vault methods are called afterwards, in any order, with
  any arguments and results, as long as none of them places a new artifact under the same identifier: the
  artifact stays as the transfer left it, with the new steward and the status \<open>Transferred\<close>, the transfer is
  the last entry of its history, and each of the six steward methods answers \<open>NotSteward\<close> and changes
  nothing. The exception is real: placing a tree under the same identifier replaces the artifact by a fresh one of
  which the old steward is the steward again, and which it can recall.
\<close>

theorem transfer_final:
  assumes "transfer_stewardship i p now v = (Inr (), v')" and "p \<noteq> v_player v" and "(other_call L i)\<^sup>*\<^sup>* v' w"
  shows "(\<exists>a. v_get_artifact v i = Some a \<and> steward a = v_player v \<and> is_active (status a) \<and>
            v_get_artifact w i = Some (a\<lparr>steward := p, status := Transferred p now\<rparr>)) \<and>
    steward_history w i = steward_history v i @ [\<lparr>sr_from = v_player v, sr_to = p, sr_timestamp = now\<rparr>] \<and>
    (\<forall>m \<in> steward_calls i. m w = (Inl NotSteward, w)) \<and>
    (\<exists>b x. place_tree_with_id i ty ps t w = (Inr b, x) \<and> v_get_artifact x i = Some b \<and> steward b = v_player v \<and>
      fst (recall i t x) = Inr ())"
proof -
  from transfer_success[OF assms(1)] obtain a where a: "v_get_artifact v i = Some a" "steward a = v_player v" "is_active (status a)"
    and v': "v' = set_artifact i (a\<lparr>steward := p, status := Transferred p now\<rparr>)
           (add_history i \<lparr>sr_from = v_player v, sr_to = p, sr_timestamp = now\<rparr> v)"
    by blast
  let ?b = "a\<lparr>steward := p, status := Transferred p now\<rparr>"
  have w: "v_get_artifact w i = Some ?b" "steward_history w i = steward_history v' i" "v_player w = v_player v"
    using foreign_run[OF assms(3), of ?b] assms(2) by (simp_all add: v')
  have "m w = (Inl NotSteward, w)" if "m \<in> steward_calls i" for m
    using that w assms(2) by (intro not_steward_call) auto
  moreover obtain b where "place_tree_with_id i ty ps t w = (Inr b, set_artifact i b w)" "steward b = v_player w" "status b = Active"
    using place_tree_with_id_eq by blast
  moreover from this(2,3) have "fst (recall i t (set_artifact i b w)) = Inr ()" by (simp add: recall_eq)
  ultimately show ?thesis using a w by (auto simp: v')
qed

theorem transfer_final_witness:
  "\<exists>v' w. transfer_stewardship doc_x player_b 5 vault1 = (Inr (), v') \<and> w = snd (peer player_b None 6 v') \<and>
    compose doc_x doc_y 0 None w = (Inl NotSteward, w)"
proof -
  obtain v' where v': "transfer_stewardship doc_x player_b 5 vault1 = (Inr (), v')"
    using vault1_art by (auto simp: transfer_stewardship_eq)
  let ?w = "snd (peer player_b None 6 v')"
  have ne: "player_b \<noteq> v_player vault1" by code_simp
  have "v_get_artifact ?w doc_x = v_get_artifact v' doc_x"
    by (simp add: peer_def on_peers_def zoom_def split: prod.splits)
  then have kept: "\<exists>a. v_get_artifact ?w doc_x = Some a \<and> steward a = player_b \<and> v_player v' \<noteq> player_b"
    using transfer_success[OF v'] ne by auto
  have "\<not> reuses_id sample_lib doc_x v' ?w" using reuses_id_steward kept by fastforce
  then have "other_call sample_lib doc_x v' ?w" by (simp add: other_call_def vault_step.intros)
  then have run: "(other_call sample_lib doc_x)\<^sup>*\<^sup>* v' ?w" by (rule r_into_rtranclp)
  have "compose doc_x doc_y 0 None \<in> steward_calls doc_x" by (auto simp: steward_calls_def)
  with transfer_final[OF v' ne run] v' show ?thesis by blast
qed

text \<open>
  A successful revocation ends the access of the grantee: at no time is the grantee in the
  artifact's audience, and it can still view the artifact only as its steward or if there is
  a public grant.
\<close>

theorem revoke_ends_access:
  assumes "revoke_access i g v = (Inr (), v')"
  shows "\<exists>a. v_get_artifact v' i = Some a \<and> g \<notin> set (audience a t) \<and>
    (can_view (Some g) (steward a) (grants a) t \<longleftrightarrow>
      list_ex (\<lambda>x. grant_mode x = Public) (grants a) \<or> g = steward a)"
  using assms
  by (auto simp: revoke_access_eq audience_def can_view_iff list_ex_iff split: option.splits if_splits sum.splits)

theorem revoke_ends_access_witness:
  "\<exists>v1 v2 a. grant_access doc_x player_b Revocable 2 vault1 = (Inr (), v1) \<and>
     revoke_access doc_x player_b v1 = (Inr (), v2) \<and> v_get_artifact v2 doc_x = Some a \<and>
     player_b \<notin> set (audience a 3)"
proof -
  obtain a where a: "v_get_artifact vault1 doc_x = Some a" "steward a = v_player vault1" "is_active (status a)"
    "grants a = audience_to_grants [player_a] 1 player_a" using vault1_art by blast
  have ne: "player_a \<noteq> player_b" by code_simp
  obtain v1 where v1: "grant_access doc_x player_b Revocable 2 vault1 = (Inr (), v1)"
    "v_get_artifact v1 doc_x = Some (a\<lparr>grants := grants a @
       [\<lparr>grantee = player_b, grant_mode = Revocable, granted_at = 2, granted_by = v_player vault1\<rparr>]\<rparr>)"
    "v_player v1 = v_player vault1"
    using a ne by (auto simp: grant_access_eq audience_to_grants_def)
  then obtain v2 where v2: "revoke_access doc_x player_b v1 = (Inr (), v2)"
    using a ne by (auto simp: revoke_access_eq audience_to_grants_def)
  from revoke_ends_access[OF v2, of 3] v1(1) v2 show ?thesis by blast
qed

text \<open>
  Only the first grant of a grantee is inspected. With an expired timed grant in front, a
  later permanent grant is revoked, although permanent grants are meant to be irrevocable.
\<close>

theorem permanent_grant_revoked:
  "let v1 = snd (grant_access doc_x player_b (Timed 10) 2 vault1);
       (r2, v2) = grant_access doc_x player_b Permanent 20 v1;
       (r3, v3) = revoke_access doc_x player_b v2
   in r2 = Inr () \<and> r3 = Inr () \<and>
      map_option (\<lambda>a. (player_b \<in> set (audience a 21))) (v_get_artifact v2 doc_x) = Some True \<and>
      map_option (\<lambda>a. (player_b \<in> set (audience a 21))) (v_get_artifact v3 doc_x) = Some False"
  by code_simp

text \<open>
  A leaf that was placed is found again: its artifact under the hash of the content, its
  payload byte for byte; and a payload stored earlier stays, unless the hash collides.
\<close>

theorem place_leaf_roundtrip:
  assumes "place_leaf L pl nm mime ty now v = (r, v')" and "vault_ok L v"
    and "v_get_payload v (leaf_id (blake3 L) q) = Some q" and "inj_on (blake3 L) {pl, q}"
  shows "\<exists>a. r = Inr a \<and> v_get_artifact v' (leaf_id (blake3 L) pl) = Some a \<and> steward a = v_player v \<and>
    v_get_payload v' (leaf_id (blake3 L) pl) = Some pl \<and> v_get_payload v' (leaf_id (blake3 L) q) = Some q"
proof -
  let ?a = "leaf_artifact L pl nm mime ty now (v_player v)"
  obtain r' t where st: "store_payload (blake3 L) pl (v_payloads v) = (r', t)" by (cases rule: prod.exhaust)
  have eq: "r = Inr ?a" "v' = set_artifact (art_id ?a) ?a (v\<lparr>v_payloads := t\<rparr>)"
    using assms(1) st by (auto simp: place_leaf_eq store_payload_def Let_def)
  have "get_payload t (leaf_id (blake3 L) q) = Some q"
    using assms(2-4) by (intro ps.store_keeps[OF _ _ _ st])
      (auto simp: vault_ok_def v_get_payload_def inj_on_def leaf_id_def)
  with ps.get_store[OF st, of "leaf_id (blake3 L) pl"] show ?thesis
    by (auto simp: eq v_get_payload_def leaf_artifact_def)
qed

theorem place_leaf_roundtrip_witness:
  "\<exists>a v'. place_leaf sample_lib [1, 2] ''n'' None ''message'' 3
       (snd (place_leaf sample_lib [5] ''m'' None ''message'' 2 vault1)) = (Inr a, v') \<and>
     v_get_payload v' (leaf_id (blake3 sample_lib) [5]) = Some [5]"
proof -
  let ?v = "snd (place_leaf sample_lib [5] ''m'' None ''message'' 2 vault1)"
  have "v_get_payload ?v (leaf_id (blake3 sample_lib) [5]) = Some [5]"
    by (simp add: place_leaf_eq Let_def v_get_payload_def get_payload_def)
  moreover have "inj_on (blake3 sample_lib) {[1, 2], [5]}" by (simp add: sample_lib_def)
  moreover have "vault_ok sample_lib ?v" by (rule keepsD_snd[OF keeps_place_leaf vault1_ok])
  ultimately show ?thesis
    using place_leaf_roundtrip[of sample_lib "[1, 2]" "''n''" None "''message''" 3 ?v _ _ "[5]"]
    by (metis prod.collapse)
qed

text \<open>
  C40: \<open>check_peer_integrity\<close> never sees a replica: in every reachable vault it answers
  \<open>NoPriorReplica\<close> for every other player, also for a peer whose log was just ingested,
  because \<open>ingest_peer_log\<close> keeps the replica outside the store that is consulted.
\<close>

theorem peer_integrity_never_compared:
  assumes "(vault_step L)\<^sup>*\<^sup>* (in_memory rnd p now) v" and "q \<noteq> v_player v"
  shows "check_peer_integrity v q theirs = NoPriorReplica"
proof -
  have "dom (al_store (v_log v)) \<subseteq> {v_player v}"
    using vault_reach_ok[OF assms(1) in_memory_ok] by (simp add: vault_ok_def)
  with assms(2) have "al_store (v_log v) q = None" by blast
  then show ?thesis
    by (simp add: check_peer_integrity_def log_check_peer_integrity_def in_memory_attention_store_def
        check_integrity_def)
qed

theorem peer_integrity_never_compared_witness:
  "check_peer_integrity (snd (ingest_peer_log player_b sample_chain (snd (peer player_b None 1 vault1))))
     player_b [] = NoPriorReplica"
proof -
  let ?v = "snd (ingest_peer_log player_b sample_chain (snd (peer player_b None 1 vault1)))"
  have "(vault_step sample_lib)\<^sup>*\<^sup>* (in_memory (replicate 32 9) player_a 0) ?v"
    by (rule rtranclp.rtrancl_into_rtrancl[OF rtranclp.rtrancl_into_rtrancl[OF vault1_reach]])
       (rule vault_step.intros)+
  moreover have "player_b \<noteq> v_player ?v" by code_simp
  ultimately show ?thesis by (rule peer_integrity_never_compared)
qed

end
