(* ===== verification/Story.thy ===== *)
theory Story
  imports Vault
begin

text \<open>
  Stories and requests, the artifact trees of \<open>indras-artifacts/src/story.rs\<close> and
  \<open>indras-artifacts/src/request.rs\<close>. A story is named by its artifact identifier. The lemmas
  show that appended entries come out in the order they went in.
\<close>

section \<open>Stories\<close>

definition story_create :: "bytes32 \<Rightarrow> player_id list \<Rightarrow> int \<Rightarrow> artifact_id vault_op" where
  "story_create rnd ps now = andThen (place_tree rnd ''story'' ps now) (\<lambda>a. ok (art_id a))"

definition story_create_dm :: "('sk, 'pk) ledger_lib \<Rightarrow> player_id \<Rightarrow> int \<Rightarrow> artifact_id vault_op" where
  "story_create_dm L peer_id now =
    andThen (reads v_player) (\<lambda>self_id.
    let i = dm_story_id (blake3 L) self_id peer_id
    in andThen (place_tree_with_id i ''story'' [self_id, peer_id] now) (\<lambda>a. ok (art_id a)))"

definition entry_count :: "artifact_id \<Rightarrow> nat vault_op" where
  "entry_count i = andThen (find_artifact i) (\<lambda>story. ok (length (references story)))"

definition story_append :: "artifact_id \<Rightarrow> artifact_id \<Rightarrow> string option \<Rightarrow> unit vault_op" where
  "story_append i c label = andThen (entry_count i) (\<lambda>next_pos. compose i c (of_nat next_pos) label)"

definition send_message :: "('sk, 'pk) ledger_lib \<Rightarrow> artifact_id \<Rightarrow> string \<Rightarrow> int \<Rightarrow> artifact_id vault_op" where
  "send_message L i txt now =
    andThen (place_leaf L (as_bytes txt) ''message'' None ''message'' now) (\<lambda>leaf.
    andThen (story_append i (art_id leaf) None) (\<lambda>_. ok (art_id leaf)))"

definition entries :: "artifact_id \<Rightarrow> (artifact_ref \<times> artifact option) list vault_op" where
  "entries i =
    andThen (find_artifact i) (\<lambda>story.
    andThen (reads (\<lambda>v. map (\<lambda>r. (r, v_get_artifact v (ref_artifact_id r))) (references story))) (\<lambda>es.
    ok (sort_key (\<lambda>(r, _). ref_position r) es)))"

definition story_branch :: "bytes32 \<Rightarrow> artifact_id \<Rightarrow> u64 \<Rightarrow> player_id list \<Rightarrow> int \<Rightarrow> artifact_id vault_op" where
  "story_branch rnd i from_position ps now =
    andThen (story_create rnd ps now) (\<lambda>sub.
    andThen (compose i sub from_position (Some ''branch'')) (\<lambda>_. ok sub))"

section \<open>Requests\<close>

definition request_create ::
  "('sk, 'pk) ledger_lib \<Rightarrow> bytes32 \<Rightarrow> string \<Rightarrow> player_id list \<Rightarrow> int \<Rightarrow> artifact_id vault_op" where
  "request_create L rnd description ps now =
    andThen (place_tree rnd ''request'' ps now) (\<lambda>a.
    andThen (place_leaf L (as_bytes description) ''description'' None ''message'' now) (\<lambda>leaf.
    andThen (compose (art_id a) (art_id leaf) 0 (Some ''description'')) (\<lambda>_. ok (art_id a))))"

definition request_ref_count :: "artifact_id \<Rightarrow> nat vault_op" where
  "request_ref_count i = andThen (find_artifact i) (\<lambda>a. ok (length (references a)))"

definition add_offer :: "artifact_id \<Rightarrow> artifact_id \<Rightarrow> unit vault_op" where
  "add_offer i offer =
    andThen (request_ref_count i) (\<lambda>next_pos. compose i offer (of_nat next_pos) (Some ''offer''))"

definition offers :: "artifact_id \<Rightarrow> (artifact_ref \<times> artifact option) list vault_op" where
  "offers i =
    andThen (find_artifact i) (\<lambda>a.
    reads (\<lambda>v. map (\<lambda>r. (r, v_get_artifact v (ref_artifact_id r)))
                    (filter (\<lambda>r. ref_label r = Some ''offer'') (references a))))"

definition request_description :: "artifact_id \<Rightarrow> artifact option vault_op" where
  "request_description i =
    andThen (find_artifact i) (\<lambda>a.
    case find (\<lambda>r. ref_label r = Some ''description'') (references a) of
      Some r \<Rightarrow> reads (\<lambda>v. v_get_artifact v (ref_artifact_id r))
    | None \<Rightarrow> ok None)"

definition offer_count :: "artifact_id \<Rightarrow> nat vault_op" where
  "offer_count i =
    andThen (find_artifact i) (\<lambda>a. ok (length (filter (\<lambda>r. ref_label r = Some ''offer'') (references a))))"

section \<open>Invariant\<close>

lemma keeps_story [keeps_intros]:
  "keeps (vault_ok L) (story_create rnd ps now)"
  "keeps (vault_ok L) (story_create_dm L' p now)"
  "keeps (vault_ok L) (story_append i c label)"
  "keeps (vault_ok L) (send_message L i txt now)"
  "keeps (vault_ok L) (story_branch rnd i pos ps now)"
  unfolding story_create_def story_create_dm_def story_append_def send_message_def story_branch_def
    entry_count_def Let_def
  by (intro keeps_intros)+

lemma keeps_request [keeps_intros]:
  "keeps (vault_ok L) (request_create L rnd d ps now)"
  "keeps (vault_ok L) (add_offer i offer)"
  unfolding request_create_def add_offer_def request_ref_count_def
  by (intro keeps_intros)+

section \<open>Order of entries\<close>

text \<open>References at the positions \<open>0, 1, 2, \<dots>\<close>, as appending produces them.\<close>

definition dense :: "artifact_ref list \<Rightarrow> bool" where
  "dense rs \<longleftrightarrow> map ref_position rs = map of_nat [0..<length rs]"

lemma of_nat_u64_le: "m \<le> n \<Longrightarrow> n < 2 ^ 64 \<Longrightarrow> (of_nat m :: u64) \<le> of_nat n"
  by (simp add: word_le_nat_alt unsigned_of_nat take_bit_eq_mod)

lemma dense_sorted: "dense rs \<Longrightarrow> length rs \<le> 2 ^ 64 \<Longrightarrow> sorted (map ref_position rs)"
  by (auto simp: dense_def sorted_iff_nth_mono intro!: of_nat_u64_le)

lemma dense_append:
  assumes "dense rs" and "ref_position r = of_nat (length rs)" and "length rs < 2 ^ 64"
  shows "dense (rs @ [r]) \<and> sort_key ref_position (rs @ [r]) = rs @ [r]"
proof -
  have d: "dense (rs @ [r])" using assms by (simp add: dense_def)
  then have "sorted (map ref_position (rs @ [r]))" using assms(3) by (intro dense_sorted) auto
  with d show ?thesis by (simp add: sorted_sort_id sort_key_id_if_sorted)
qed

text \<open>The story \<open>i\<close> belongs to the player, has the dense references \<open>rs\<close>, and all of them resolve.\<close>

definition story_at :: "vault \<Rightarrow> artifact_id \<Rightarrow> artifact_ref list \<Rightarrow> bool" where
  "story_at v i rs \<longleftrightarrow> dense rs \<and>
    (\<exists>a. v_get_artifact v i = Some a \<and> steward a = v_player v \<and> references a = rs) \<and>
    (\<forall>r \<in> set rs. v_get_artifact v (ref_artifact_id r) \<noteq> None)"

lemma story_append_step:
  assumes "story_at v i rs" and "length rs < 2 ^ 64" and "v_get_artifact v c \<noteq> None"
  shows "\<exists>v'. story_append i c label v = (Inr (), v') \<and>
    story_at v' i (rs @ [\<lparr>ref_artifact_id = c, ref_position = of_nat (length rs), ref_label = label\<rparr>])"
proof -
  let ?r = "\<lparr>ref_artifact_id = c, ref_position = of_nat (length rs), ref_label = label\<rparr>"
  from assms(1) obtain a where a: "v_get_artifact v i = Some a" "steward a = v_player v" "references a = rs"
    by (auto simp: story_at_def)
  have d: "dense (rs @ [?r]) \<and> sort_key ref_position (rs @ [?r]) = rs @ [?r]"
    using assms by (intro dense_append) (auto simp: story_at_def)
  let ?v = "set_artifact i (a\<lparr>references := rs @ [?r]\<rparr>) v"
  have "story_append i c label v = (Inr (), ?v)"
    using a d by (simp add: story_append_def entry_count_def andThen_def find_artifact_eq ok_def compose_eq)
  moreover have "story_at ?v i (rs @ [?r])"
    using assms a d by (auto simp: story_at_def)
  ultimately show ?thesis by blast
qed

lemma send_message_step:
  assumes "story_at v i rs" and "length rs < 2 ^ 64" and "is_doc i"
  shows "\<exists>v'. send_message L i txt now v = (Inr (leaf_id (blake3 L) (as_bytes txt)), v') \<and>
    story_at v' i (rs @ [\<lparr>ref_artifact_id = leaf_id (blake3 L) (as_bytes txt),
                          ref_position = of_nat (length rs), ref_label = None\<rparr>])"
proof -
  let ?c = "leaf_id (blake3 L) (as_bytes txt)"
  obtain a v1 where pl: "place_leaf L (as_bytes txt) ''message'' None ''message'' now v = (Inr a, v1)"
    and a: "art_id a = ?c" and v1: "v1 = set_artifact ?c a (v\<lparr>v_payloads := (v_payloads v)(?c \<mapsto> as_bytes txt)\<rparr>)"
    by (auto simp: place_leaf_eq Let_def leaf_artifact_def)
  have ne: "?c \<noteq> i" using assms(3) by (cases i) (auto simp: leaf_id_def)
  have "story_at v1 i rs" and "v_get_artifact v1 ?c \<noteq> None"
    using assms(1) ne by (auto simp: story_at_def v1 v_get_artifact_def v_player_def set_artifact_def get_artifact_def)
  from story_append_step[OF this(1) assms(2) this(2), of None] obtain v'
    where "story_append i ?c None v1 = (Inr (), v')"
      and "story_at v' i (rs @ [\<lparr>ref_artifact_id = ?c, ref_position = of_nat (length rs), ref_label = None\<rparr>])"
    by blast
  with pl a show ?thesis by (auto simp: send_message_def andThen_def ok_def)
qed

lemma send_messages:
  assumes "story_at v i rs" and "length rs + length msgs < 2 ^ 64" and "is_doc i"
  shows "\<exists>v' rs'. forEach msgs (\<lambda>t. send_message L i t now) v = (Inr (map (\<lambda>t. leaf_id (blake3 L) (as_bytes t)) msgs), v') \<and>
    story_at v' i (rs @ rs') \<and> map ref_artifact_id rs' = map (\<lambda>t. leaf_id (blake3 L) (as_bytes t)) msgs"
  using assms(1,2)
proof (induction msgs arbitrary: v rs)
  case Nil
  then show ?case by (auto simp: ok_def intro!: exI[of _ v] exI[of _ "[]"])
next
  case (Cons t msgs)
  let ?r = "\<lparr>ref_artifact_id = leaf_id (blake3 L) (as_bytes t), ref_position = of_nat (length rs), ref_label = None\<rparr>"
  from send_message_step[OF Cons.prems(1) _ assms(3), of L t now] Cons.prems(2) obtain v1
    where v1: "send_message L i t now v = (Inr (leaf_id (blake3 L) (as_bytes t)), v1)" "story_at v1 i (rs @ [?r])"
    by auto
  from Cons.IH[OF v1(2)] Cons.prems(2) obtain v' rs' where
    "forEach msgs (\<lambda>t. send_message L i t now) v1 = (Inr (map (\<lambda>t. leaf_id (blake3 L) (as_bytes t)) msgs), v')"
    "story_at v' i ((rs @ [?r]) @ rs')" "map ref_artifact_id rs' = map (\<lambda>t. leaf_id (blake3 L) (as_bytes t)) msgs"
    by auto
  with v1(1) show ?case
    by (intro exI[of _ v'] exI[of _ "?r # rs'"]) (simp add: andThen_def ok_def)
qed

lemma entries_story_at:
  assumes "story_at v i rs" and "length rs \<le> 2 ^ 64"
  shows "entries i v = (Inr (map (\<lambda>r. (r, v_get_artifact v (ref_artifact_id r))) rs), v)"
proof -
  have "sorted (map (\<lambda>(r, _). ref_position r) (map (\<lambda>r. (r, v_get_artifact v (ref_artifact_id r))) rs))"
    using dense_sorted assms by (simp add: story_at_def comp_def)
  with assms(1) show ?thesis
    by (auto simp: entries_def story_at_def vault_eqs andThen_def reads_def ok_def sort_key_id_if_sorted)
qed

section \<open>Properties of stories\<close>

text \<open>
  Messages sent to a newly created story all succeed and are read back by \<open>entries\<close> in
  the order in which they were sent, repetitions included, each with its artifact.
\<close>

theorem story_keeps_order:
  assumes "story_create rnd ps t0 v = (Inr i, v0)" and "length msgs < 2 ^ 64"
  shows "\<exists>v' es. forEach msgs (\<lambda>t. send_message L i t now) v0 = (Inr (map (\<lambda>t. leaf_id (blake3 L) (as_bytes t)) msgs), v') \<and>
    entries i v' = (Inr es, v') \<and>
    map (\<lambda>(r, a). ref_artifact_id r) es = map (\<lambda>t. leaf_id (blake3 L) (as_bytes t)) msgs \<and>
    list_all (\<lambda>(r, a). a \<noteq> None) es"
proof -
  have i: "i = Doc rnd" and "story_at v0 i []"
    using assms(1)
    by (auto simp: story_create_def place_tree_def vault_eqs andThen_def ok_def Let_def generate_tree_id_def
        reads_def put_artifact_eq story_at_def dense_def)
  from send_messages[OF this(2), of msgs L now] assms(2) i obtain v' rs where
    v': "forEach msgs (\<lambda>t. send_message L i t now) v0 = (Inr (map (\<lambda>t. leaf_id (blake3 L) (as_bytes t)) msgs), v')"
    and rs: "story_at v' i rs" "map ref_artifact_id rs = map (\<lambda>t. leaf_id (blake3 L) (as_bytes t)) msgs"
    by auto
  have "length rs \<le> 2 ^ 64" using arg_cong[OF rs(2), of length] assms(2) by simp
  from entries_story_at[OF rs(1) this] rs v' show ?thesis
    by (auto simp: comp_def story_at_def list_all_iff)
qed

theorem story_keeps_order_witness:
  "\<exists>v' es. forEach [''b'', ''a'', ''b''] (\<lambda>t. send_message sample_lib (Doc (replicate 32 3)) t 7)
       (snd (story_create (replicate 32 3) [player_a] 6 vault1)) =
         (Inr (map (\<lambda>t. leaf_id (blake3 sample_lib) (as_bytes t)) [''b'', ''a'', ''b'']), v') \<and>
     entries (Doc (replicate 32 3)) v' = (Inr es, v') \<and> length es = 3"
proof -
  have 1: "story_create (replicate 32 3) [player_a] 6 vault1 =
      (Inr (Doc (replicate 32 3)), snd (story_create (replicate 32 3) [player_a] 6 vault1))"
    by (simp add: story_create_def place_tree_def vault_eqs andThen_def ok_def Let_def generate_tree_id_def
        reads_def put_artifact_eq)
  have "length [''b'', ''a'', ''b''] < (2 :: nat) ^ 64" by simp
  from story_keeps_order[OF 1 this, of sample_lib 7] obtain v' es where
    "forEach [''b'', ''a'', ''b''] (\<lambda>t. send_message sample_lib (Doc (replicate 32 3)) t 7)
       (snd (story_create (replicate 32 3) [player_a] 6 vault1)) =
         (Inr (map (\<lambda>t. leaf_id (blake3 sample_lib) (as_bytes t)) [''b'', ''a'', ''b'']), v')"
    and "entries (Doc (replicate 32 3)) v' = (Inr es, v')"
    and es: "map (\<lambda>(r, a). ref_artifact_id r) es =
      map (\<lambda>t. leaf_id (blake3 sample_lib) (as_bytes t)) [''b'', ''a'', ''b'']"
    by blast
  moreover have "length es = 3" using arg_cong[OF es, of length] by simp
  ultimately show ?thesis by blast
qed

end
