(* ===== verification/Exchange.thy ===== *)
theory Exchange
  imports Story
begin

text \<open>
  Exchanges between two stewards, \<open>indras-artifacts/src/exchange.rs\<close>. An exchange is named by
  its artifact identifier; acceptances and the closing status live in the artifact's metadata.
\<close>

section \<open>Operations\<close>

definition accept_key :: "player_id \<Rightarrow> string" where
  "accept_key p = ''accept:'' @ hex p"

definition exchange_refs :: "artifact_id \<Rightarrow> artifact_ref list vault_op" where
  "exchange_refs i = andThen (find_artifact i) (\<lambda>a. ok (references a))"

definition propose ::
  "bytes32 \<Rightarrow> bytes32 \<Rightarrow> artifact_id \<Rightarrow> artifact_id \<Rightarrow> player_id list \<Rightarrow> int \<Rightarrow> artifact_id vault_op" where
  "propose rnd rnd' mine theirs ps now =
    andThen (place_tree rnd ''exchange'' ps now) (\<lambda>a.
    let i = art_id a in
    andThen (compose i mine 0 (Some ''offered'')) (\<lambda>_.
    andThen (compose i theirs 1 (Some ''requested'')) (\<lambda>_.
    andThen (story_create rnd' ps now) (\<lambda>story.
    andThen (compose i story 2 (Some ''conversation'')) (\<lambda>_. ok i)))))"

definition ref_labelled :: "string \<Rightarrow> artifact_ref list \<Rightarrow> artifact_ref option" where
  "ref_labelled label rs = find (\<lambda>r. ref_label r = Some label) rs"

definition conversation :: "artifact_id \<Rightarrow> artifact_id vault_op" where
  "conversation i =
    andThen (exchange_refs i) (\<lambda>rs.
    andThen (ok_or ArtifactNotFound (ref_labelled ''conversation'' rs)) (\<lambda>r. ok (ref_artifact_id r)))"

definition resolve_ref :: "artifact_ref option \<Rightarrow> artifact option vault_op" where
  "resolve_ref x = (case x of Some r \<Rightarrow> reads (\<lambda>v. v_get_artifact v (ref_artifact_id r)) | None \<Rightarrow> ok None)"

definition offered :: "artifact_id \<Rightarrow> artifact option vault_op" where
  "offered i = andThen (exchange_refs i) (\<lambda>rs. resolve_ref (ref_labelled ''offered'' rs))"

definition requested :: "artifact_id \<Rightarrow> artifact option vault_op" where
  "requested i = andThen (exchange_refs i) (\<lambda>rs. resolve_ref (ref_labelled ''requested'' rs))"

definition is_closed :: "artifact_id \<Rightarrow> bool vault_op" where
  "is_closed i =
    andThen (find_artifact i) (\<lambda>a.
    case metadata a ''status'' of
      Some s \<Rightarrow> ok (s = as_bytes ''rejected'' \<or> s = as_bytes ''completed'')
    | None \<Rightarrow> ok False)"

definition is_accepted_by :: "artifact_id \<Rightarrow> player_id \<Rightarrow> bool vault_op" where
  "is_accepted_by i p = andThen (find_artifact i) (\<lambda>a. ok (metadata a (accept_key p) \<noteq> None))"

definition accept :: "artifact_id \<Rightarrow> unit vault_op" where
  "accept i =
    andThen (is_closed i) (\<lambda>closed.
    andThen (unless_fail (\<not> closed) ExchangeClosed) (\<lambda>_.
    andThen (reads v_player) (\<lambda>p.
    andThen (find_artifact i) (\<lambda>a.
    on_artifacts (put_artifact (a\<lparr>metadata := (metadata a)(accept_key p \<mapsto> as_bytes ''true'')\<rparr>))))))"

definition reject :: "artifact_id \<Rightarrow> unit vault_op" where
  "reject i =
    andThen (reads v_player) (\<lambda>p.
    andThen (find_artifact i) (\<lambda>a.
    on_artifacts (put_artifact (a\<lparr>metadata := (metadata a)
      (''status'' \<mapsto> as_bytes ''rejected'', ''rejected_by:'' @ hex p \<mapsto> as_bytes ''true'')\<rparr>))))"

definition complete :: "artifact_id \<Rightarrow> int \<Rightarrow> unit vault_op" where
  "complete i now =
    andThen (is_closed i) (\<lambda>closed.
    andThen (unless_fail (\<not> closed) ExchangeClosed) (\<lambda>_.
    andThen (exchange_refs i) (\<lambda>rs.
    andThen (ok_or ArtifactNotFound (ref_labelled ''offered'' rs)) (\<lambda>offered_ref.
    andThen (ok_or ArtifactNotFound (ref_labelled ''requested'' rs)) (\<lambda>requested_ref.
    andThen (find_artifact (ref_artifact_id offered_ref)) (\<lambda>off.
    andThen (find_artifact (ref_artifact_id requested_ref)) (\<lambda>req.
    let offerer = steward off; requester = steward req in
    andThen (is_accepted_by i offerer) (\<lambda>a1.
    andThen (if a1 then is_accepted_by i requester else ok False) (\<lambda>a2.
    andThen (unless_fail a2 ExchangeNotFullyAccepted) (\<lambda>_.
    andThen (on_artifacts (record_stewardship_transfer (ref_artifact_id offered_ref)
               \<lparr>sr_from = offerer, sr_to = requester, sr_timestamp = now\<rparr>)) (\<lambda>_.
    andThen (on_artifacts (update_steward (ref_artifact_id offered_ref) requester)) (\<lambda>_.
    andThen (on_artifacts (record_stewardship_transfer (ref_artifact_id requested_ref)
               \<lparr>sr_from = requester, sr_to = offerer, sr_timestamp = now\<rparr>)) (\<lambda>_.
    andThen (on_artifacts (update_steward (ref_artifact_id requested_ref) offerer)) (\<lambda>_.
    andThen (find_artifact i) (\<lambda>a.
    on_artifacts (put_artifact (a\<lparr>metadata := (metadata a)(''status'' \<mapsto> as_bytes ''completed'')\<rparr>)))))))))))))))))"

section \<open>Invariant\<close>

lemma keeps_record [keeps_intros]: "keeps (vault_ok L) (on_artifacts (record_stewardship_transfer i r))"
proof -
  have "snd (on_artifacts (record_stewardship_transfer i r) v) = add_history i r v" for v
    by (simp add: on_artifacts_def zoom_def add_history_def record_stewardship_transfer_def modify_def)
  then show ?thesis by (simp add: keeps_def)
qed

lemma keeps_vault_update_steward [keeps_intros]: "keeps (vault_ok L) (on_artifacts (update_steward i p))"
  unfolding keeps_def by (auto simp: vault_eqs split: option.splits intro!: vault_ok_edit)

text \<open>Read an artifact, change its metadata, write it back.\<close>

lemma keeps_put_metadata [keeps_intros]:
  "keeps (vault_ok L) (andThen (find_artifact i) (\<lambda>a. on_artifacts (put_artifact (a\<lparr>metadata := f a\<rparr>))))"
  unfolding keeps_def
proof (intro allI impI)
  fix v assume ok: "vault_ok L v"
  show "vault_ok L (snd (andThen (find_artifact i) (\<lambda>a. on_artifacts (put_artifact (a\<lparr>metadata := f a\<rparr>))) v))"
  proof (cases "v_get_artifact v i")
    case None
    with ok show ?thesis by (simp add: vault_eqs)
  next
    case (Some a)
    with ok vault_ok_get[OF ok Some] vault_ok_edit[OF ok Some, of "a\<lparr>metadata := f a\<rparr>"]
    show ?thesis by (simp add: vault_eqs)
  qed
qed

lemma keeps_if [keeps_intros]: "keeps P m \<Longrightarrow> keeps P m' \<Longrightarrow> keeps P (if b then m else m')"
  by simp

lemma keeps_exchange_reads [keeps_intros]:
  "keeps P (exchange_refs i)" "keeps P (is_closed i)" "keeps P (is_accepted_by i p)"
  unfolding exchange_refs_def is_closed_def is_accepted_by_def
  by (auto intro!: keeps_intros split: option.splits)

lemma keeps_exchange [keeps_intros]:
  "keeps (vault_ok L) (propose rnd rnd' mine theirs ps now)"
  "keeps (vault_ok L) (accept i)" "keeps (vault_ok L) (reject i)" "keeps (vault_ok L) (complete i now)"
  unfolding propose_def accept_def reject_def complete_def Let_def
  by (intro keeps_intros)+

section \<open>What the operations do\<close>

definition closed :: "artifact \<Rightarrow> bool" where
  "closed a \<longleftrightarrow> metadata a ''status'' \<in> {Some (as_bytes ''rejected''), Some (as_bytes ''completed'')}"

lemma is_closed_eq:
  "is_closed i v = (case v_get_artifact v i of None \<Rightarrow> (Inl ArtifactNotFound, v) | Some a \<Rightarrow> (Inr (closed a), v))"
  by (auto simp: is_closed_def vault_eqs ok_def closed_def split: option.splits)

lemma closed_guard [vault_eqs]:
  "andThen (is_closed i) f v =
    (case v_get_artifact v i of None \<Rightarrow> (Inl ArtifactNotFound, v) | Some a \<Rightarrow> f (closed a) v)"
  by (auto simp: andThen_def is_closed_eq split: option.splits)

lemma accepted_guard [vault_eqs]:
  "andThen (is_accepted_by i p) f v =
    (case v_get_artifact v i of
       None \<Rightarrow> (Inl ArtifactNotFound, v) | Some a \<Rightarrow> f (metadata a (accept_key p) \<noteq> None) v)"
  by (auto simp: is_accepted_by_def vault_eqs split: option.splits)

lemma exchange_refs_guard [vault_eqs]:
  "andThen (exchange_refs i) f v =
    (case v_get_artifact v i of None \<Rightarrow> (Inl ArtifactNotFound, v) | Some a \<Rightarrow> f (references a) v)"
  by (auto simp: exchange_refs_def vault_eqs split: option.splits)

lemma accept_key_inj [simp]: "accept_key p = accept_key q \<longleftrightarrow> p = q"
  by (simp add: accept_key_def)

lemma accept_key_not_status [simp]: "accept_key p \<noteq> ''status''" "''status'' \<noteq> accept_key p"
  by (simp_all add: accept_key_def)

lemma accept_eq:
  "accept i v =
    (case v_get_artifact v i of
       None \<Rightarrow> (Inl ArtifactNotFound, v)
     | Some a \<Rightarrow> if closed a then (Inl ExchangeClosed, v)
                 else (Inr (), set_artifact (art_id a)
                        (a\<lparr>metadata := (metadata a)(accept_key (v_player v) \<mapsto> as_bytes ''true'')\<rparr>) v))"
  by (auto simp: accept_def vault_eqs split: option.splits)

text \<open>The swap of a completed exchange.\<close>

lemma complete_success:
  assumes "complete i now v = (Inr (), v')"
  obtains a r1 r2 off req where "v_get_artifact v i = Some a" and "\<not> closed a"
    and "ref_labelled ''offered'' (references a) = Some r1" and "ref_labelled ''requested'' (references a) = Some r2"
    and "v_get_artifact v (ref_artifact_id r1) = Some off" and "v_get_artifact v (ref_artifact_id r2) = Some req"
    and "metadata a (accept_key (steward off)) \<noteq> None" and "metadata a (accept_key (steward req)) \<noteq> None"
  using assms
  by (auto simp: complete_def vault_eqs Let_def split: option.splits if_splits)

lemma complete_swap:
  assumes "v_get_artifact v i = Some a" and "\<not> closed a" and "art_id a = i"
    and "ref_labelled ''offered'' (references a) = Some r1" and "ref_labelled ''requested'' (references a) = Some r2"
    and "v_get_artifact v (ref_artifact_id r1) = Some off" and "v_get_artifact v (ref_artifact_id r2) = Some req"
    and "metadata a (accept_key (steward off)) \<noteq> None" and "metadata a (accept_key (steward req)) \<noteq> None"
    and "distinct [i, ref_artifact_id r1, ref_artifact_id r2]"
  shows "\<exists>v'. complete i now v = (Inr (), v') \<and> v_player v' = v_player v \<and>
    (\<forall>j. v_get_artifact v' j =
      (if j = ref_artifact_id r1 then Some (off\<lparr>steward := steward req\<rparr>)
       else if j = ref_artifact_id r2 then Some (req\<lparr>steward := steward off\<rparr>)
       else if j = i then Some (a\<lparr>metadata := (metadata a)(''status'' \<mapsto> as_bytes ''completed'')\<rparr>)
       else v_get_artifact v j))"
  using assms by (auto simp: complete_def vault_eqs Let_def)

section \<open>Properties of exchanges\<close>

text \<open>
  C7: An exchange completes exactly as agreed: \<open>complete\<close> succeeds only on an open exchange
  that the stewards of both sides accepted; it then swaps the two stewards, changes no other
  artifact but the exchange's own status, and closes the exchange, so that neither \<open>accept\<close> nor
  \<open>complete\<close> succeeds on it again.
\<close>

theorem exchange_completion:
  assumes "vault_ok L v" and "complete i now v = (Inr (), v')"
  shows "\<exists>a r1 r2 off req. v_get_artifact v i = Some a \<and> \<not> closed a \<and>
    ref_labelled ''offered'' (references a) = Some r1 \<and> ref_labelled ''requested'' (references a) = Some r2 \<and>
    v_get_artifact v (ref_artifact_id r1) = Some off \<and> v_get_artifact v (ref_artifact_id r2) = Some req \<and>
    metadata a (accept_key (steward off)) \<noteq> None \<and> metadata a (accept_key (steward req)) \<noteq> None \<and>
    (distinct [i, ref_artifact_id r1, ref_artifact_id r2] \<longrightarrow>
      v_get_artifact v' (ref_artifact_id r1) = Some (off\<lparr>steward := steward req\<rparr>) \<and>
      v_get_artifact v' (ref_artifact_id r2) = Some (req\<lparr>steward := steward off\<rparr>) \<and>
      (\<forall>j. j \<notin> {i, ref_artifact_id r1, ref_artifact_id r2} \<longrightarrow> v_get_artifact v' j = v_get_artifact v j) \<and>
      accept i v' = (Inl ExchangeClosed, v') \<and> complete i t v' = (Inl ExchangeClosed, v'))"
proof -
  from assms(2) obtain a r1 r2 off req where *:
    "v_get_artifact v i = Some a" "\<not> closed a"
    "ref_labelled ''offered'' (references a) = Some r1" "ref_labelled ''requested'' (references a) = Some r2"
    "v_get_artifact v (ref_artifact_id r1) = Some off" "v_get_artifact v (ref_artifact_id r2) = Some req"
    "metadata a (accept_key (steward off)) \<noteq> None" "metadata a (accept_key (steward req)) \<noteq> None"
    by (rule complete_success)
  have id: "art_id a = i" using vault_ok_get[OF assms(1) *(1)] by simp
  let ?done = "a\<lparr>metadata := (metadata a)(''status'' \<mapsto> as_bytes ''completed'')\<rparr>"
  have "v_get_artifact v' (ref_artifact_id r1) = Some (off\<lparr>steward := steward req\<rparr>) \<and>
      v_get_artifact v' (ref_artifact_id r2) = Some (req\<lparr>steward := steward off\<rparr>) \<and>
      (\<forall>j. j \<notin> {i, ref_artifact_id r1, ref_artifact_id r2} \<longrightarrow> v_get_artifact v' j = v_get_artifact v j) \<and>
      accept i v' = (Inl ExchangeClosed, v') \<and> complete i t v' = (Inl ExchangeClosed, v')"
    if d: "distinct [i, ref_artifact_id r1, ref_artifact_id r2]"
  proof -
    from complete_swap[OF *(1,2) id *(3-8) d, of now] assms(2)
    have get: "v_get_artifact v' j =
      (if j = ref_artifact_id r1 then Some (off\<lparr>steward := steward req\<rparr>)
       else if j = ref_artifact_id r2 then Some (req\<lparr>steward := steward off\<rparr>)
       else if j = i then Some ?done else v_get_artifact v j)" for j
      by simp
    have "v_get_artifact v' i = Some ?done" using d by (simp add: get)
    moreover have "closed ?done" by (simp add: closed_def)
    ultimately have "accept i v' = (Inl ExchangeClosed, v')" "complete i t v' = (Inl ExchangeClosed, v')"
      by (simp_all add: accept_eq complete_def vault_eqs)
    with d show ?thesis by (auto simp: get)
  qed
  with * show ?thesis by blast
qed

text \<open>
  A concrete exchange: document x of player a against document y of player b, accepted so far
  by the players in \<open>ps\<close>.
\<close>

definition ex_id :: artifact_id where
  "ex_id = Doc (replicate 32 20)"

definition plain_tree :: "artifact_id \<Rightarrow> player_id \<Rightarrow> artifact_ref list \<Rightarrow> (string \<rightharpoonup> bytes) \<Rightarrow> artifact" where
  "plain_tree i p rs md = \<lparr>art_id = i, artifact_type = ''note'', steward = p, grants = [], status = Active,
     provenance = None, created_at = 0, payload = None, references = rs, metadata = md, blessing_history = []\<rparr>"

definition ex_refs :: "artifact_ref list" where
  "ex_refs = [\<lparr>ref_artifact_id = doc_x, ref_position = 0, ref_label = Some ''offered''\<rparr>,
              \<lparr>ref_artifact_id = doc_y, ref_position = 1, ref_label = Some ''requested''\<rparr>]"

definition ex_vault :: "player_id set \<Rightarrow> vault" where
  "ex_vault ps = set_artifact ex_id (plain_tree ex_id player_a ex_refs
       (\<lambda>k. if \<exists>p \<in> ps. k = accept_key p then Some (as_bytes ''true'') else None))
     (set_artifact doc_y (plain_tree doc_y player_b [] Map.empty)
       (set_artifact doc_x (plain_tree doc_x player_a [] Map.empty) vault0))"

lemma ex_ids: "ex_id \<noteq> doc_x" "ex_id \<noteq> doc_y" "doc_x \<noteq> doc_y" "player_a \<noteq> player_b"
  by code_simp+

lemma ex_vault_ok: "vault_ok L (ex_vault ps)"
  unfolding ex_vault_def
  by (intro vault_ok_set) (auto simp: plain_tree_def refs_sorted_def ex_refs_def vault0_def in_memory_ok)

lemma ex_vault_get:
  "v_get_artifact (ex_vault ps) ex_id = Some (plain_tree ex_id player_a ex_refs
       (\<lambda>k. if \<exists>p \<in> ps. k = accept_key p then Some (as_bytes ''true'') else None))"
  "v_get_artifact (ex_vault ps) doc_x = Some (plain_tree doc_x player_a [] Map.empty)"
  "v_get_artifact (ex_vault ps) doc_y = Some (plain_tree doc_y player_b [] Map.empty)"
  "v_player (ex_vault ps) = player_a"
  using ex_ids by (simp_all add: ex_vault_def vault0_def in_memory_def v_player_def Let_def)

lemma ex_refs_labelled:
  "ref_labelled ''offered'' ex_refs = Some \<lparr>ref_artifact_id = doc_x, ref_position = 0, ref_label = Some ''offered''\<rparr>"
  "ref_labelled ''requested'' ex_refs = Some \<lparr>ref_artifact_id = doc_y, ref_position = 1, ref_label = Some ''requested''\<rparr>"
  by (simp_all add: ref_labelled_def ex_refs_def)

lemma ex_complete: "\<exists>v'. complete ex_id 9 (ex_vault {player_a, player_b}) = (Inr (), v') \<and>
    (\<exists>md. v_get_artifact v' ex_id = Some (plain_tree ex_id player_a ex_refs md)) \<and>
    v_get_artifact v' doc_x = Some (plain_tree doc_x player_b [] Map.empty) \<and> v_player v' = player_a"
  using complete_swap[of "ex_vault {player_a, player_b}" ex_id _ _ _ _ _ 9] ex_ids
  by (fastforce simp: ex_vault_get ex_refs_labelled plain_tree_def closed_def)

theorem exchange_completion_witness:
  "\<exists>v'. complete ex_id 9 (ex_vault {player_a, player_b}) = (Inr (), v') \<and>
     accept ex_id v' = (Inl ExchangeClosed, v') \<and> map_option steward (v_get_artifact v' doc_x) = Some player_b"
proof -
  obtain v' where v': "complete ex_id 9 (ex_vault {player_a, player_b}) = (Inr (), v')"
    using ex_complete by blast
  from exchange_completion[OF ex_vault_ok[of sample_lib] v', of 0] v' show ?thesis
    using ex_ids by (auto simp: ex_vault_get ex_refs_labelled plain_tree_def)
qed

text \<open>
  \<open>accept\<close> records the acceptance of this vault's player and of nobody else: afterwards a
  player counts as having accepted exactly if it is this player or had accepted before.
\<close>

theorem accept_records_player:
  assumes "vault_ok L v" and "accept i v = (Inr (), v')" and "is_accepted_by i q v = (Inr before, v)"
  shows "is_accepted_by i q v' = (Inr (before \<or> q = v_player v), v')"
proof -
  from assms(2) obtain a where a: "v_get_artifact v i = Some a"
    "v' = set_artifact (art_id a) (a\<lparr>metadata := (metadata a)(accept_key (v_player v) \<mapsto> as_bytes ''true'')\<rparr>) v"
    by (auto simp: accept_eq split: option.splits if_splits)
  with assms(3) vault_ok_get[OF assms(1) a(1)] show ?thesis
    by (auto simp: is_accepted_by_def vault_eqs ok_def)
qed

theorem accept_records_player_witness:
  "\<exists>v'. accept ex_id (ex_vault {}) = (Inr (), v') \<and> is_accepted_by ex_id player_a v' = (Inr True, v') \<and>
     is_accepted_by ex_id player_b v' = (Inr False, v')"
proof -
  obtain v' where v': "accept ex_id (ex_vault {}) = (Inr (), v')"
    by (simp add: accept_eq ex_vault_get closed_def plain_tree_def)
  have "is_accepted_by ex_id q (ex_vault {}) = (Inr False, ex_vault {})" for q
    by (simp add: is_accepted_by_def vault_eqs ok_def ex_vault_get plain_tree_def)
  from accept_records_player[OF ex_vault_ok[of sample_lib] v' this] v' show ?thesis
    using ex_ids by (auto simp: ex_vault_get)
qed

text \<open>
  \<open>reject\<close> does not look at the status: a completed exchange whose stewards have been swapped
  can still be turned into a rejected one.
\<close>

theorem completed_exchange_rejected:
  "\<exists>v1 v2. complete ex_id 9 (ex_vault {player_a, player_b}) = (Inr (), v1) \<and> reject ex_id v1 = (Inr (), v2) \<and>
     map_option (\<lambda>a. metadata a ''status'') (v_get_artifact v2 ex_id) = Some (Some (as_bytes ''rejected'')) \<and>
     map_option steward (v_get_artifact v2 doc_x) = Some player_b"
proof -
  obtain v1 md where v1: "complete ex_id 9 (ex_vault {player_a, player_b}) = (Inr (), v1)"
    "v_get_artifact v1 ex_id = Some (plain_tree ex_id player_a ex_refs md)"
    "v_get_artifact v1 doc_x = Some (plain_tree doc_x player_b [] Map.empty)"
    using ex_complete by blast
  then show ?thesis
    using ex_ids by (auto simp: reject_def vault_eqs plain_tree_def)
qed

end
