(* ===== verification/Intention.thy ===== *)
theory Intention
  imports Exchange
begin

text \<open>
  Intentions, \<open>indras-artifacts/src/intention.rs\<close>: a goal that collects attention, receives
  proofs of service and releases attention as tokens. The metadata key
  \<open>released:{player}:{start}\<close> marks a dwell window as released; the lemmas show that it is read
  back and that a released window is not offered again.
\<close>

section \<open>Operations\<close>

text \<open>\<open>i64::to_le_bytes\<close>\<close>

definition to_le_bytes :: "int \<Rightarrow> bytes" where
  "to_le_bytes x = map (\<lambda>k. word_of_int (x div 256 ^ k)) [0..<8]"

definition intention_create ::
  "('sk, 'pk) ledger_lib \<Rightarrow> bytes32 \<Rightarrow> string \<Rightarrow> player_id list \<Rightarrow> int \<Rightarrow> artifact_id vault_op" where
  "intention_create L rnd description ps now =
    andThen (place_tree rnd ''intention'' ps now) (\<lambda>tree.
    let i = art_id tree in
    andThen (place_leaf L (as_bytes description) ''description'' None ''message'' now) (\<lambda>leaf.
    andThen (compose i (art_id leaf) 0 (Some ''description'')) (\<lambda>_.
    andThen (andThen (find_artifact i) (\<lambda>a.
       on_artifacts (put_artifact (a\<lparr>metadata := (metadata a)(''status'' \<mapsto> as_bytes ''active'')\<rparr>)))) (\<lambda>_.
    ok i))))"

definition intention_refs :: "artifact_id \<Rightarrow> artifact_ref list vault_op" where
  "intention_refs i = andThen (find_artifact i) (\<lambda>a. ok (references a))"

definition intention_ref_count :: "artifact_id \<Rightarrow> nat vault_op" where
  "intention_ref_count i = andThen (find_artifact i) (\<lambda>a. ok (length (references a)))"

definition intention_description :: "artifact_id \<Rightarrow> artifact option vault_op" where
  "intention_description i =
    andThen (intention_refs i) (\<lambda>rs. resolve_ref (ref_labelled ''description'' rs))"

definition submit_proof :: "('sk, 'pk) ledger_lib \<Rightarrow> artifact_id \<Rightarrow> string \<Rightarrow> int \<Rightarrow> artifact_id vault_op" where
  "submit_proof L i body now =
    andThen (reads v_player) (\<lambda>submitter.
    andThen (place_leaf L (as_bytes body) (''proof-'' @ hex submitter) None ''attestation'' now) (\<lambda>leaf.
    andThen (intention_ref_count i) (\<lambda>n.
    let label = ''proof:'' @ hex submitter @ '':'' @ show_int now in
    andThen (compose i (art_id leaf) (of_nat n) (Some label)) (\<lambda>_. ok (art_id leaf)))))"

definition submit_proof_folder :: "artifact_id \<Rightarrow> artifact_id \<Rightarrow> int \<Rightarrow> unit vault_op" where
  "submit_proof_folder i folder now =
    andThen (reads v_player) (\<lambda>submitter.
    andThen (intention_ref_count i) (\<lambda>n.
    let label = ''proof:'' @ hex submitter @ '':'' @ show_int now in
    compose i folder (of_nat n) (Some label)))"

definition has_label_prefix :: "string \<Rightarrow> artifact_ref \<Rightarrow> bool" where
  "has_label_prefix pre r = (case ref_label r of None \<Rightarrow> False | Some l \<Rightarrow> starts_with pre l)"

definition proofs :: "artifact_id \<Rightarrow> artifact_ref list vault_op" where
  "proofs i = andThen (intention_refs i) (\<lambda>rs. ok (filter (has_label_prefix ''proof:'') rs))"

definition pledge_token :: "artifact_id \<Rightarrow> artifact_id \<Rightarrow> unit vault_op" where
  "pledge_token i token =
    andThen (reads v_player) (\<lambda>from_player.
    let token_hex = hex (take 8 (id_bytes token)) in
    andThen (intention_ref_count i) (\<lambda>n.
    let label = ''pledge:'' @ hex from_player @ '':'' @ token_hex in
    compose i token (of_nat n) (Some label)))"

definition pledged_tokens :: "artifact_id \<Rightarrow> artifact_ref list vault_op" where
  "pledged_tokens i = andThen (intention_refs i) (\<lambda>rs. ok (filter (has_label_prefix ''pledge:'') rs))"

definition released_prefix :: "player_id \<Rightarrow> string" where
  "released_prefix p = ''released:'' @ hex p @ '':''"

text \<open>The start times that the metadata keys of a player mark as released.\<close>

definition released_timestamps :: "(string \<rightharpoonup> bytes) \<Rightarrow> player_id \<Rightarrow> int set" where
  "released_timestamps md p =
    {t. \<exists>k \<in> dom md. \<exists>ts. strip_prefix (released_prefix p) k = Some ts \<and> parse_i64 ts = Some t}"

definition player_events :: "vault \<Rightarrow> player_id \<Rightarrow> vault_error + attention_switch_event list" where
  "player_events v p =
    (if p = v_player v then attention_events v
     else Inr (case v_peer_attention v p of None \<Rightarrow> [] | Some es \<Rightarrow> es))"

definition unreleased_attention :: "artifact_id \<Rightarrow> player_id \<Rightarrow> dwell_window list vault_op" where
  "unreleased_attention i p =
    andThen (\<lambda>v. (player_events v p, v)) (\<lambda>es.
    let windows = extract_dwell_windows p i es in
    andThen (find_artifact i) (\<lambda>a.
    ok (filter (\<lambda>w. dw_start_timestamp w \<notin> released_timestamps (metadata a) p) windows)))"

definition release_window ::
  "('sk, 'pk) ledger_lib \<Rightarrow> artifact_id \<Rightarrow> player_id \<Rightarrow> int \<Rightarrow> player_id \<Rightarrow> dwell_window \<Rightarrow> artifact_id vault_op" where
  "release_window L i submitter now player w =
    (let token_name = ''token-'' @ show_int (dw_duration_ms w) @ ''ms-'' @ show_int (dw_start_timestamp w) in
    andThen (place_leaf L (to_le_bytes (dw_duration_ms w)) token_name None ''token'' now) (\<lambda>leaf.
    let token = art_id leaf in
    andThen (andThen (find_artifact token) (\<lambda>a.
      on_artifacts (put_artifact (a\<lparr>blessing_history := blessing_history a @
        [\<lparr>br_from = player, br_quest_id = Some i, br_timestamp = now, br_message = None\<rparr>]\<rparr>)))) (\<lambda>_.
    andThen (transfer_stewardship token submitter now) (\<lambda>_.
    let key = released_prefix player @ show_int (dw_start_timestamp w);
        proof_label = ''proof:'' @ hex submitter in
    andThen (andThen (find_artifact i) (\<lambda>a.
      on_artifacts (put_artifact (a\<lparr>metadata := (metadata a)(key \<mapsto> as_bytes proof_label)\<rparr>)))) (\<lambda>_.
    ok token)))))"

definition release_attention ::
  "('sk, 'pk) ledger_lib \<Rightarrow> artifact_id \<Rightarrow> dwell_window list \<Rightarrow> player_id \<Rightarrow> int \<Rightarrow> artifact_id list vault_op" where
  "release_attention L i windows submitter now =
    andThen (reads v_player) (\<lambda>player. forEach windows (release_window L i submitter now player))"

definition release_pledged_tokens :: "artifact_id \<Rightarrow> artifact_id list \<Rightarrow> player_id \<Rightarrow> int \<Rightarrow> unit vault_op" where
  "release_pledged_tokens i tokens submitter now =
    andThen (forEach tokens (\<lambda>t.
      andThen (transfer_stewardship t submitter now) (\<lambda>_. v_remove_ref i t))) (\<lambda>_. ok ())"

definition intention_status :: "artifact_id \<Rightarrow> string option vault_op" where
  "intention_status i =
    andThen (find_artifact i) (\<lambda>a.
    ok (case metadata a ''status'' of None \<Rightarrow> None | Some b \<Rightarrow> from_utf8 b))"

definition fulfill :: "artifact_id \<Rightarrow> unit vault_op" where
  "fulfill i =
    andThen (find_artifact i) (\<lambda>a.
    on_artifacts (put_artifact (a\<lparr>metadata := (metadata a)(''status'' \<mapsto> as_bytes ''fulfilled'')\<rparr>)))"

section \<open>Invariant\<close>

lemma keeps_put_blessing [keeps_intros]:
  "keeps (vault_ok L) (andThen (find_artifact i) (\<lambda>a. on_artifacts (put_artifact (a\<lparr>blessing_history := f a\<rparr>))))"
  unfolding keeps_def
proof (intro allI impI)
  fix v assume ok: "vault_ok L v"
  show "vault_ok L (snd (andThen (find_artifact i) (\<lambda>a. on_artifacts (put_artifact (a\<lparr>blessing_history := f a\<rparr>))) v))"
  proof (cases "v_get_artifact v i")
    case None
    with ok show ?thesis by (simp add: vault_eqs)
  next
    case (Some a)
    with ok vault_ok_get[OF ok Some] vault_ok_edit[OF ok Some, of "a\<lparr>blessing_history := f a\<rparr>"]
    show ?thesis by (simp add: vault_eqs)
  qed
qed

lemma keeps_intention_ref_count [keeps_intros]: "keeps P (intention_ref_count i)"
  unfolding intention_ref_count_def by (intro keeps_intros)

lemma keeps_release_window [keeps_intros]: "keeps (vault_ok L) (release_window L i s now p w)"
  unfolding release_window_def Let_def by (rule keeps_intros)+

lemma keeps_intention [keeps_intros]:
  "keeps (vault_ok L) (intention_create L rnd d ps now)"
  "keeps (vault_ok L) (submit_proof L i body now)"
  "keeps (vault_ok L) (submit_proof_folder i folder now)"
  "keeps (vault_ok L) (pledge_token i token)"
  "keeps (vault_ok L) (release_attention L i ws s now)"
  "keeps (vault_ok L) (release_pledged_tokens i ts s now)"
  "keeps (vault_ok L) (fulfill i)"
  unfolding intention_create_def submit_proof_def submit_proof_folder_def pledge_token_def release_attention_def
    release_pledged_tokens_def fulfill_def Let_def
  by (intro keeps_intros)+

section \<open>Released windows\<close>

lemma released_timestamps_upd:
  "in_i64 t \<Longrightarrow>
    released_timestamps (md(released_prefix p @ show_int t \<mapsto> x)) p = insert t (released_timestamps md p)"
  by (auto simp: released_timestamps_def strip_prefix_Some_iff parse_show_i64)

lemma leaf_ne_doc: "is_doc i \<Longrightarrow> leaf_id b3 pl \<noteq> i"
  by (cases i) (auto simp: leaf_id_def)

lemma leaf_artifact_fields [simp]:
  "art_id (leaf_artifact L pl nm mime ty now p) = leaf_id (blake3 L) pl"
  "steward (leaf_artifact L pl nm mime ty now p) = p"
  "status (leaf_artifact L pl nm mime ty now p) = Active"
  "blessing_history (leaf_artifact L pl nm mime ty now p) = []"
  by (simp_all add: leaf_artifact_def)

lemma place_leaf_guard:
  "andThen (place_leaf L pl nm mime ty now) g v =
    g (leaf_artifact L pl nm mime ty now (v_player v))
      (set_artifact (leaf_id (blake3 L) pl) (leaf_artifact L pl nm mime ty now (v_player v))
        (v\<lparr>v_payloads := (v_payloads v)(leaf_id (blake3 L) pl \<mapsto> pl)\<rparr>))"
  by (simp add: andThen_def place_leaf_eq Let_def)

text \<open>What releasing one window does to the vault: the token is handed over, the window is marked.\<close>

lemma release_window_effect:
  assumes "v_get_artifact v i = Some a" and "art_id a = i" and "is_doc i"
  shows "\<exists>v' tok. release_window L i s now (v_player v) w v = (Inr (leaf_id (blake3 L) (to_le_bytes (dw_duration_ms w))), v') \<and>
    v_get_artifact v' i = Some (a\<lparr>metadata := (metadata a)
      (released_prefix (v_player v) @ show_int (dw_start_timestamp w) \<mapsto> as_bytes (''proof:'' @ hex s))\<rparr>) \<and>
    v_get_artifact v' (leaf_id (blake3 L) (to_le_bytes (dw_duration_ms w))) = Some tok \<and>
    steward tok = s \<and> status tok = Transferred s now \<and> map br_from (blessing_history tok) = [v_player v] \<and>
    v_player v' = v_player v \<and> v_log v' = v_log v \<and> v_peer_attention v' = v_peer_attention v"
proof -
  let ?t = "leaf_id (blake3 L) (to_le_bytes (dw_duration_ms w))"
  define leaf where "leaf = leaf_artifact L (to_le_bytes (dw_duration_ms w))
    (''token-'' @ show_int (dw_duration_ms w) @ ''ms-'' @ show_int (dw_start_timestamp w)) None ''token'' now (v_player v)"
  define v1 where "v1 = set_artifact ?t leaf (v\<lparr>v_payloads := (v_payloads v)(?t \<mapsto> to_le_bytes (dw_duration_ms w))\<rparr>)"
  have ne: "?t \<noteq> i" using leaf_ne_doc[OF assms(3)] .
  have v1: "v_get_artifact v1 ?t = Some leaf" "v_get_artifact v1 i = Some a" "v_player v1 = v_player v"
    "v_log v1 = v_log v" "v_peer_attention v1 = v_peer_attention v"
    using assms(1) ne by (auto simp: v1_def v_get_artifact_def set_artifact_def get_artifact_def v_player_def)
  have leaf: "art_id leaf = ?t" "steward leaf = v_player v" "status leaf = Active" "blessing_history leaf = []"
    by (simp_all add: leaf_def)
  have tr: "andThen (transfer_stewardship j q n) g u = (case transfer_stewardship j q n u of
      (Inl e, u') \<Rightarrow> (Inl e, u') | (Inr _, u') \<Rightarrow> g () u')" for j q n u and g :: "unit \<Rightarrow> artifact_id vault_op"
    by (simp add: andThen_def split: prod.splits sum.splits)
  show ?thesis
    unfolding release_window_def Let_def place_leaf_guard leaf_def[symmetric] v1_def[symmetric]
    using assms(2) ne v1 leaf by (simp add: vault_eqs tr transfer_stewardship_eq ok_def)
qed

lemma release_all_effect:
  assumes "v_get_artifact v i = Some a" and "art_id a = i" and "is_doc i"
    and "\<forall>w \<in> set ws. in_i64 (dw_start_timestamp w)"
  shows "\<exists>v' a'. forEach ws (release_window L i s now (v_player v)) v =
      (Inr (map (\<lambda>w. leaf_id (blake3 L) (to_le_bytes (dw_duration_ms w))) ws), v') \<and>
    v_get_artifact v' i = Some a' \<and> art_id a' = i \<and>
    released_timestamps (metadata a') (v_player v) =
      released_timestamps (metadata a) (v_player v) \<union> dw_start_timestamp ` set ws \<and>
    v_player v' = v_player v \<and> v_log v' = v_log v \<and> v_peer_attention v' = v_peer_attention v"
  using assms(1,2,4)
proof (induction ws arbitrary: v a)
  case Nil
  then show ?case by (simp add: ok_def)
next
  case (Cons w ws)
  from release_window_effect[OF Cons.prems(1,2) assms(3), of L s now w] obtain v1 where
    v1: "release_window L i s now (v_player v) w v = (Inr (leaf_id (blake3 L) (to_le_bytes (dw_duration_ms w))), v1)"
    "v_get_artifact v1 i = Some (a\<lparr>metadata := (metadata a)
      (released_prefix (v_player v) @ show_int (dw_start_timestamp w) \<mapsto> as_bytes (''proof:'' @ hex s))\<rparr>)"
    "v_player v1 = v_player v" "v_log v1 = v_log v" "v_peer_attention v1 = v_peer_attention v"
    by blast
  let ?a1 = "a\<lparr>metadata := (metadata a)
      (released_prefix (v_player v) @ show_int (dw_start_timestamp w) \<mapsto> as_bytes (''proof:'' @ hex s))\<rparr>"
  have "released_timestamps (metadata ?a1) (v_player v) =
      insert (dw_start_timestamp w) (released_timestamps (metadata a) (v_player v))"
    using Cons.prems(3) released_timestamps_upd[of "dw_start_timestamp w" "metadata a" "v_player v" "as_bytes (''proof:'' @ hex s)"]
    by simp
  with Cons.IH[OF v1(2)] Cons.prems(2,3) v1(3) obtain v' a' where
    "forEach ws (release_window L i s now (v_player v)) v1 =
      (Inr (map (\<lambda>w. leaf_id (blake3 L) (to_le_bytes (dw_duration_ms w))) ws), v')"
    "v_get_artifact v' i = Some a'" "art_id a' = i"
    "released_timestamps (metadata a') (v_player v) =
      insert (dw_start_timestamp w) (released_timestamps (metadata a) (v_player v)) \<union> dw_start_timestamp ` set ws"
    "v_player v' = v_player v1" "v_log v' = v_log v1" "v_peer_attention v' = v_peer_attention v1"
    by (auto simp del: fun_upd_apply)
  with v1 show ?case by (auto simp: andThen_def ok_def)
qed

lemma unreleased_eq:
  "unreleased_attention i p v =
    (case player_events v p of
       Inl e \<Rightarrow> (Inl e, v)
     | Inr es \<Rightarrow> (case v_get_artifact v i of
         None \<Rightarrow> (Inl ArtifactNotFound, v)
       | Some a \<Rightarrow> (Inr (filter (\<lambda>w. dw_start_timestamp w \<notin> released_timestamps (metadata a) p)
                     (extract_dwell_windows p i es)), v)))"
  by (auto simp: unreleased_attention_def andThen_def Let_def find_artifact_eq ok_def split: sum.splits option.splits)

section \<open>Properties of intentions\<close>

text \<open>
  Releasing attention succeeds on an intention of the vault and takes exactly the released
  windows out of the player's unreleased attention: what is left is what was there before
  without the windows that start when a released window starts.
\<close>

theorem release_marks_windows:
  assumes "vault_ok L v" and "is_doc i" and "unreleased_attention i (v_player v) v = (Inr before, v)"
    and "\<forall>w \<in> set ws. in_i64 (dw_start_timestamp w)"
  shows "\<exists>v'. release_attention L i ws s now v =
      (Inr (map (\<lambda>w. leaf_id (blake3 L) (to_le_bytes (dw_duration_ms w))) ws), v') \<and>
    unreleased_attention i (v_player v) v' =
      (Inr (filter (\<lambda>w. dw_start_timestamp w \<notin> dw_start_timestamp ` set ws) before), v')"
proof -
  from assms(3) obtain es a where es: "player_events v (v_player v) = Inr es" and a: "v_get_artifact v i = Some a"
    and before: "before = filter (\<lambda>w. dw_start_timestamp w \<notin> released_timestamps (metadata a) (v_player v))
      (extract_dwell_windows (v_player v) i es)"
    by (auto simp: unreleased_eq split: sum.splits option.splits)
  have "art_id a = i" using vault_ok_get[OF assms(1) a] by simp
  from release_all_effect[OF a this assms(2,4), of L s now] obtain v' a' where
    v': "forEach ws (release_window L i s now (v_player v)) v =
      (Inr (map (\<lambda>w. leaf_id (blake3 L) (to_le_bytes (dw_duration_ms w))) ws), v')"
    "v_get_artifact v' i = Some a'"
    "released_timestamps (metadata a') (v_player v) =
      released_timestamps (metadata a) (v_player v) \<union> dw_start_timestamp ` set ws"
    "v_player v' = v_player v" "v_log v' = v_log v"
    by blast
  have "player_events v' (v_player v) = Inr es"
    using es v'(4,5) by (simp add: player_events_def attention_events_def)
  with v' before show ?thesis
    by (auto simp: unreleased_eq release_attention_def vault_eqs intro!: filter_cong)
qed

text \<open>
  A concrete intention, document x, on which player a dwelt from time 10 to time 50.
\<close>

definition attended_vault :: vault where
  "attended_vault = snd (navigate_to sample_lib doc_y 50 (snd (navigate_to sample_lib doc_x 10 vault1)))"

lemma attended_ok: "vault_ok sample_lib attended_vault"
  unfolding attended_vault_def by (intro keepsD_snd[OF keeps_navigate_to] vault1_ok)

lemma attended_get: "\<exists>a. v_get_artifact attended_vault doc_x = Some a \<and> metadata a = Map.empty"
proof -
  have "snd (navigate_to sample_lib i n u) = u\<lparr>v_log := snd (log_navigate_to sample_lib in_memory_attention_store i n (v_log u))\<rparr>"
    for i n u by (simp add: navigate_to_def on_log_def zoom_def split: prod.splits)
  moreover have "\<exists>a. v_get_artifact vault1 doc_x = Some a \<and> metadata a = Map.empty"
    by (simp add: vault1_def place_tree_def vault_eqs ok_def Let_def doc_x_def generate_tree_id_def)
  ultimately show ?thesis by (simp add: attended_vault_def v_get_artifact_def)
qed

lemma attended_events:
  "player_events attended_vault player_a = Inr (events_of (al_store (v_log attended_vault)) player_a)"
  "v_player attended_vault = player_a"
  "extract_dwell_windows player_a doc_x (events_of (al_store (v_log attended_vault)) player_a) =
    [\<lparr>dw_player = player_a, dw_artifact_id = doc_x, dw_start_timestamp = 10, dw_end_timestamp = 50, dw_duration_ms = 40\<rparr>]"
proof -
  show p: "v_player attended_vault = player_a" by code_simp
  have "al_player (v_log attended_vault) = player_a" using attended_ok p by (simp add: vault_ok_def)
  with p show "player_events attended_vault player_a = Inr (events_of (al_store (v_log attended_vault)) player_a)"
    by (simp add: player_events_def attention_events_def log_events_def in_memory_attention_store_def)
  show "extract_dwell_windows player_a doc_x (events_of (al_store (v_log attended_vault)) player_a) =
    [\<lparr>dw_player = player_a, dw_artifact_id = doc_x, dw_start_timestamp = 10, dw_end_timestamp = 50, dw_duration_ms = 40\<rparr>]"
    by code_simp
qed

theorem release_marks_windows_witness:
  "\<exists>v' w. unreleased_attention doc_x player_a attended_vault = (Inr [w], attended_vault) \<and>
     release_attention sample_lib doc_x [w] player_b 60 attended_vault =
       (Inr [leaf_id (blake3 sample_lib) (to_le_bytes 40)], v') \<and>
     unreleased_attention doc_x player_a v' = (Inr [], v')"
proof -
  let ?w = "\<lparr>dw_player = player_a, dw_artifact_id = doc_x, dw_start_timestamp = 10, dw_end_timestamp = 50, dw_duration_ms = 40\<rparr>"
  have 1: "unreleased_attention doc_x player_a attended_vault = (Inr [?w], attended_vault)"
    using attended_get by (auto simp: unreleased_eq attended_events released_timestamps_def)
  have "is_doc doc_x" by (simp add: doc_x_def)
  from release_marks_windows[OF attended_ok this, of "[?w]" "[?w]" player_b 60] 1 show ?thesis
    by (auto simp: attended_events(2) in_i64_def)
qed

subsection \<open>Tokens\<close>

lemma bytes_determine_mod:
  "(\<forall>k < n. (x div 256 ^ k) mod 256 = (y div 256 ^ k) mod (256 :: int)) \<Longrightarrow> x mod 256 ^ n = y mod 256 ^ n"
proof (induction n)
  case (Suc n)
  have "z mod 256 ^ Suc n = 256 ^ n * (z div 256 ^ n mod 256) + z mod 256 ^ n" for z :: int
    using zmod_zmult2_eq[of 256 z "256 ^ n"] by (simp add: mult.commute)
  with Suc show ?case by simp
qed simp

lemma to_le_bytes_inj: "in_i64 x \<Longrightarrow> in_i64 y \<Longrightarrow> to_le_bytes x = to_le_bytes y \<longleftrightarrow> x = y"
proof
  assume i: "in_i64 x" "in_i64 y" and "to_le_bytes x = to_le_bytes y"
  then have "\<forall>k < 8. (word_of_int (x div 256 ^ k) :: u8) = word_of_int (y div 256 ^ k)"
    by (simp add: to_le_bytes_def)
  then have "\<forall>k < 8. (x div 256 ^ k) mod 256 = (y div 256 ^ k) mod 256"
    by (simp add: word_of_int_eq_iff take_bit_eq_mod)
  then have "x mod 256 ^ 8 = y mod 256 ^ 8" by (rule bytes_determine_mod)
  then have "signed_take_bit 63 x = signed_take_bit 63 y"
    by (simp add: signed_take_bit_eq_iff_take_bit_eq take_bit_eq_mod)
  then show "x = y" using wrap_i64_id[OF i(1)] wrap_i64_id[OF i(2)] by (simp add: wrap_i64_def)
qed simp

text \<open>
  The token of a window is determined by the window's duration alone. Two windows of equal
  duration, or the same window released twice, share one token artifact: a second release is
  not refused and takes the token away from the player who received it first.
\<close>

theorem token_taken_over:
  assumes "vault_ok L v" and "v_get_artifact v i = Some a" and "is_doc i"
    and "in_i64 (dw_duration_ms w)" and "in_i64 (dw_duration_ms w')"
    and "inj_on (blake3 L) {to_le_bytes (dw_duration_ms w), to_le_bytes (dw_duration_ms w')}"
  shows "\<exists>t t' v1 v2 tok1 tok2.
    release_attention L i [w] s now v = (Inr [t], v1) \<and> v_get_artifact v1 t = Some tok1 \<and> steward tok1 = s \<and>
    release_attention L i [w'] s' now' v1 = (Inr [t'], v2) \<and> v_get_artifact v2 t' = Some tok2 \<and> steward tok2 = s' \<and>
    (t = t' \<longleftrightarrow> dw_duration_ms w = dw_duration_ms w')"
proof -
  have one: "release_attention L i [x] q n u = (Inr [tok], u')"
    if "release_window L i q n (v_player u) x u = (Inr tok, u')" for x q n u u' tok
    using that by (simp add: release_attention_def andThen_def ok_def reads_def)
  have id: "art_id a = i" using vault_ok_get[OF assms(1,2)] by simp
  from release_window_effect[OF assms(2) id assms(3), of L s now w] obtain v1 tok1 a1 where
    v1: "release_window L i s now (v_player v) w v = (Inr (leaf_id (blake3 L) (to_le_bytes (dw_duration_ms w))), v1)"
    "v_get_artifact v1 i = Some a1" "art_id a1 = i"
    "v_get_artifact v1 (leaf_id (blake3 L) (to_le_bytes (dw_duration_ms w))) = Some tok1" "steward tok1 = s"
    using id by auto
  from release_window_effect[OF v1(2,3) assms(3), of L s' now' w'] obtain v2 tok2 where
    v2: "release_window L i s' now' (v_player v1) w' v1 = (Inr (leaf_id (blake3 L) (to_le_bytes (dw_duration_ms w'))), v2)"
    "v_get_artifact v2 (leaf_id (blake3 L) (to_le_bytes (dw_duration_ms w'))) = Some tok2" "steward tok2 = s'"
    by blast
  have "leaf_id (blake3 L) (to_le_bytes (dw_duration_ms w)) = leaf_id (blake3 L) (to_le_bytes (dw_duration_ms w'))
      \<longleftrightarrow> dw_duration_ms w = dw_duration_ms w'"
    using leaf_id_eq_iff[OF assms(6)] to_le_bytes_inj[OF assms(4,5)] by simp
  with one[OF v1(1)] one[OF v2(1)] v1 v2 show ?thesis by blast
qed

end
