(* ===== verification/Bytes.thy ===== *)
theory Bytes
  imports Prelude
begin

text \<open>
  Fixed-width integers as bytes, \<open>to_be_bytes\<close>, \<open>from_be_bytes\<close> and their little-endian
  variants of the Rust standard library, with the round trips and the fact that big-endian
  keys sort like the numbers they encode.
\<close>

section \<open>Encoding\<close>

primrec be_bytes :: "nat \<Rightarrow> nat \<Rightarrow> bytes" where
  "be_bytes 0 x = []"
| "be_bytes (Suc n) x = be_bytes n (x div 256) @ [of_nat (x mod 256)]"

definition be_val :: "bytes \<Rightarrow> nat" where
  "be_val bs = foldl (\<lambda>acc b. 256 * acc + unat b) 0 bs"

definition u64_to_be :: "u64 \<Rightarrow> bytes" where
  "u64_to_be w = be_bytes 8 (unat w)"

definition u64_from_be :: "bytes \<Rightarrow> u64" where
  "u64_from_be bs = of_nat (be_val bs)"

definition u64_to_le :: "u64 \<Rightarrow> bytes" where
  "u64_to_le w = rev (be_bytes 8 (unat w))"

definition u64_from_le :: "bytes \<Rightarrow> u64" where
  "u64_from_le bs = of_nat (be_val (rev bs))"

section \<open>Round trips\<close>

lemma length_be_bytes [simp]: "length (be_bytes n x) = n"
  by (induction n arbitrary: x) auto

lemma unat_u8_bound: "unat (b :: u8) < 256"
  using unsigned_less[of b] by simp

lemma be_val_Nil [simp]: "be_val [] = 0"
  by (simp add: be_val_def)

lemma be_val_snoc [simp]: "be_val (bs @ [b]) = 256 * be_val bs + unat b"
  by (simp add: be_val_def)

lemma unat_of_nat_mod [simp]: "unat (of_nat (x mod 256) :: u8) = x mod 256"
  by (simp add: unsigned_of_nat take_bit_eq_mod)

lemma be_val_be_bytes [simp]: "be_val (be_bytes n x) = x mod 256 ^ n"
proof (induction n arbitrary: x)
  case (Suc n)
  show ?case using Suc mod_mult2_eq[of x 256 "256 ^ n"] by (simp add: mult.commute)
qed simp

lemma be_val_less: "be_val bs < 256 ^ length bs"
proof (induction bs rule: rev_induct)
  case (snoc b bs)
  have "unat b < 256" by (rule unat_u8_bound)
  with snoc have "256 * be_val bs + unat b < 256 * (be_val bs + 1)" by simp
  also have "\<dots> \<le> 256 * 256 ^ length bs" using snoc by simp
  finally show ?case by simp
qed simp

lemma be_bytes_be_val [simp]: "length bs = n \<Longrightarrow> be_bytes n (be_val bs) = bs"
proof (induction bs arbitrary: n rule: rev_induct)
  case (snoc b bs)
  have "unat b < 256" by (rule unat_u8_bound)
  with snoc show ?case by auto
qed simp

lemma u64_be_roundtrip [simp]: "u64_from_be (u64_to_be w) = w"
proof -
  have "unat w < 2 ^ 64" using unsigned_less[of w, where 'a = nat] by simp
  then have "unat w mod 256 ^ 8 = unat w" by simp
  then show ?thesis by (simp add: u64_from_be_def u64_to_be_def)
qed

lemma u64_be_roundtrip': "length bs = 8 \<Longrightarrow> u64_to_be (u64_from_be bs) = bs"
proof -
  assume l: "length bs = 8"
  then have "be_val bs < 2 ^ 64" using be_val_less[of bs] by simp
  then have "unat (of_nat (be_val bs) :: u64) = be_val bs" by (simp add: unsigned_of_nat take_bit_eq_mod)
  with l show ?thesis by (simp add: u64_to_be_def u64_from_be_def)
qed

lemma u64_le_roundtrip [simp]: "u64_from_le (u64_to_le w) = w"
  using u64_be_roundtrip[of w] by (simp add: u64_from_le_def u64_to_le_def u64_from_be_def u64_to_be_def)

lemma length_u64_bytes [simp]: "length (u64_to_be w) = 8" "length (u64_to_le w) = 8"
  by (simp_all add: u64_to_be_def u64_to_le_def)

section \<open>Order\<close>

lemma be_val_append: "be_val (xs @ ys) = be_val xs * 256 ^ length ys + be_val ys"
  by (induction ys rule: rev_induct) (simp_all add: algebra_simps flip: append_assoc)

lemma be_val_Cons: "be_val (x # xs) = unat x * 256 ^ length xs + be_val xs"
  using be_val_append[of "[x]" xs] by (simp add: be_val_def)

text \<open>Byte strings of equal length compare like the numbers they spell.\<close>

lemma be_val_less_iff: "length xs = length ys \<Longrightarrow> be_val xs < be_val ys \<longleftrightarrow> xs < ys"
proof (induction xs ys rule: list_induct2)
  case (Cons x xs y ys)
  have bx: "be_val xs < 256 ^ length ys" and "by": "be_val ys < 256 ^ length ys"
    using be_val_less[of xs] be_val_less[of ys] Cons.hyps by simp_all
  consider "x < y" | "x = y" | "y < x" by fastforce
  then show ?case
  proof cases
    case 1
    then have "unat x + 1 \<le> unat y" by (simp add: word_less_nat_alt)
    then have "(unat x + 1) * 256 ^ length ys \<le> unat y * 256 ^ length ys" by (rule mult_le_mono1)
    with bx have "be_val (x # xs) < be_val (y # ys)" using Cons.hyps by (simp add: be_val_Cons)
    with 1 show ?thesis by simp
  next
    case 2
    with Cons show ?thesis by (simp add: be_val_Cons)
  next
    case 3
    then have "unat y + 1 \<le> unat x" by (simp add: word_less_nat_alt)
    then have "(unat y + 1) * 256 ^ length ys \<le> unat x * 256 ^ length ys" by (rule mult_le_mono1)
    with "by" have "be_val (y # ys) < be_val (x # xs)" using Cons.hyps by (simp add: be_val_Cons)
    with 3 show ?thesis by (auto dest: order.asym)
  qed
qed simp

end
