(* ===== verification/Packet.thy ===== *)
theory Packet
  imports Bytes
begin

text \<open>
  Identities, event and packet identifiers and packets of \<open>indras-core\<close>: \<open>src/identity.rs\<close>,
  the \<open>EventId\<close> of \<open>src/interface.rs\<close>, \<open>src/packet.rs\<close> and the decision types of
  \<open>src/routing.rs\<close>. A peer identity is a type \<open>'i\<close>; the \<open>PeerIdentity\<close> trait's byte key and the
  standard hasher, whose algorithm is unspecified, are the arguments \<open>key\<close> and \<open>h\<close>. Points in
  time are integers in nanoseconds.
\<close>

section \<open>Identities\<close>

datatype identity_error = InvalidFormat string | IdentityNotFound string | InvalidKeyLength nat nat

text \<open>\<open>b as char\<close> for a byte, as the UTF-8 bytes of the character.\<close>

definition latin1 :: "u8 \<Rightarrow> string" where
  "latin1 b = (if unat b < 128 then [char_of (unat b)]
     else [char_of (192 + unat b div 64), char_of (128 + unat b mod 64)])"

datatype simulation_identity = SimId (as_char: u32)

definition is_ascii_uppercase :: "u32 \<Rightarrow> bool" where
  "is_ascii_uppercase c \<longleftrightarrow> 65 \<le> c \<and> c \<le> 90"

definition sim_new :: "u32 \<Rightarrow> simulation_identity option" where
  "sim_new c = (if is_ascii_uppercase c then Some (SimId c) else None)"

definition sim_range_to :: "u32 \<Rightarrow> simulation_identity list" where
  "sim_range_to end_char = List.map_filter (\<lambda>n. sim_new (of_nat n)) [65..<unat end_char + 1]"

definition sim_as_bytes :: "simulation_identity \<Rightarrow> bytes" where
  "sim_as_bytes i = [ucast (as_char i)]"

definition sim_from_bytes :: "bytes \<Rightarrow> identity_error + simulation_identity" where
  "sim_from_bytes bs =
    (case bs of
       [b] \<Rightarrow> (case sim_new (ucast b) of 
          None \<Rightarrow> Inl (InvalidFormat (''Invalid simulation identity: '' @ latin1 b)) | Some i \<Rightarrow> Inr i)
     | _ \<Rightarrow> Inl (InvalidKeyLength 1 (length bs)))"

section \<open>Identifiers\<close>

text \<open>The derived order compares the fields in declaration order.\<close>

datatype event_id = EventId (sender_hash: u64) (sequence_no: u64)

instantiation event_id :: linorder
begin

definition less_eq_event_id :: "event_id \<Rightarrow> event_id \<Rightarrow> bool" where
  "a \<le> b \<longleftrightarrow> sender_hash a < sender_hash b \<or> sender_hash a = sender_hash b \<and> sequence_no a \<le> sequence_no b"

definition less_event_id :: "event_id \<Rightarrow> event_id \<Rightarrow> bool" where
  "(a :: event_id) < b \<longleftrightarrow> a \<le> b \<and> a \<noteq> b"

instance
proof
  fix x y z :: event_id
  show "(x < y) = (x \<le> y \<and> \<not> y \<le> x)"
    by (cases x; cases y) (auto simp: less_eq_event_id_def less_event_id_def)
  show "x \<le> x" by (simp add: less_eq_event_id_def)
  show "x \<le> y \<Longrightarrow> y \<le> z \<Longrightarrow> x \<le> z" by (auto simp: less_eq_event_id_def)
  show "x \<le> y \<Longrightarrow> y \<le> x \<Longrightarrow> x = y" by (cases x; cases y) (auto simp: less_eq_event_id_def)
  show "x \<le> y \<or> y \<le> x" by (auto simp: less_eq_event_id_def)
qed

end

definition event_to_bytes :: "event_id \<Rightarrow> bytes" where
  "event_to_bytes e = u64_to_be (sender_hash e) @ u64_to_be (sequence_no e)"

definition event_from_bytes :: "bytes \<Rightarrow> event_id" where
  "event_from_bytes bs = EventId (u64_from_be (take 8 bs)) (u64_from_be (drop 8 bs))"

definition event_from_peer :: "('i \<Rightarrow> u64) \<Rightarrow> 'i \<Rightarrow> u64 \<Rightarrow> event_id" where
  "event_from_peer h p sq = EventId (h p) sq"

text \<open>\<open>PacketId\<close> has the same fields, order and use as a key.\<close>

type_synonym packet_id = event_id

definition new_packet_id :: "u64 \<Rightarrow> u64 \<Rightarrow> packet_id" where
  "new_packet_id source_hash sq = EventId source_hash sq"

section \<open>Packets\<close>

datatype priority = Low | Normal | High | Critical

record encrypted_payload =
  ep_data :: bytes
  ep_encrypted :: bool

definition plaintext :: "bytes \<Rightarrow> encrypted_payload" where
  "plaintext d = \<lparr>ep_data = d, ep_encrypted = False\<rparr>"

definition encrypted :: "bytes \<Rightarrow> encrypted_payload" where
  "encrypted d = \<lparr>ep_data = d, ep_encrypted = True\<rparr>"

record 'i packet =
  pk_id :: packet_id
  pk_source :: 'i
  pk_destination :: 'i
  pk_payload :: encrypted_payload
  pk_routing_hints :: "'i list"
  pk_created_at :: int
  pk_ttl :: u8
  pk_visited :: "u64 set"
  pk_priority :: priority
  pk_correlation_id :: "bytes option"

definition new_packet ::
  "('i \<Rightarrow> u64) \<Rightarrow> int \<Rightarrow> bytes \<Rightarrow> packet_id \<Rightarrow> 'i \<Rightarrow> 'i \<Rightarrow> encrypted_payload \<Rightarrow> 'i list \<Rightarrow> 'i packet" where
  "new_packet h now uuid i src dst pl hints =
    \<lparr>pk_id = i, pk_source = src, pk_destination = dst, pk_payload = pl, pk_routing_hints = hints,
     pk_created_at = now, pk_ttl = 10, pk_visited = {h src}, pk_priority = Normal,
     pk_correlation_id = Some uuid\<rparr>"

definition with_ttl :: "u8 \<Rightarrow> 'i packet \<Rightarrow> 'i packet" where
  "with_ttl t p = p\<lparr>pk_ttl := t\<rparr>"

definition with_priority :: "priority \<Rightarrow> 'i packet \<Rightarrow> 'i packet" where
  "with_priority pr p = p\<lparr>pk_priority := pr\<rparr>"

definition with_correlation_id :: "bytes \<Rightarrow> 'i packet \<Rightarrow> 'i packet" where
  "with_correlation_id c p = p\<lparr>pk_correlation_id := Some c\<rparr>"

definition without_correlation_id :: "'i packet \<Rightarrow> 'i packet" where
  "without_correlation_id p = p\<lparr>pk_correlation_id := None\<rparr>"

definition mark_visited :: "('i \<Rightarrow> u64) \<Rightarrow> 'i \<Rightarrow> 'i packet \<Rightarrow> 'i packet" where
  "mark_visited h peer p = p\<lparr>pk_visited := insert (h peer) (pk_visited p)\<rparr>"

definition was_visited :: "('i \<Rightarrow> u64) \<Rightarrow> 'i \<Rightarrow> 'i packet \<Rightarrow> bool" where
  "was_visited h peer p \<longleftrightarrow> h peer \<in> pk_visited p"

definition decrement_ttl :: "'i packet \<Rightarrow> bool \<times> 'i packet" where
  "decrement_ttl p = (if pk_ttl p = 0 then (False, p) else (True, p\<lparr>pk_ttl := pk_ttl p - 1\<rparr>))"

definition hop_count :: "'i packet \<Rightarrow> nat" where
  "hop_count p = card (pk_visited p)"

definition packet_age :: "int \<Rightarrow> 'i packet \<Rightarrow> int" where
  "packet_age now p = now - pk_created_at p"

record 'i delivery_confirmation =
  dc_packet_id :: packet_id
  dc_delivered_to :: 'i
  dc_delivered_at :: int
  dc_path :: "'i list"

definition new_confirmation :: "int \<Rightarrow> packet_id \<Rightarrow> 'i \<Rightarrow> 'i list \<Rightarrow> 'i delivery_confirmation" where
  "new_confirmation now i to path = \<lparr>dc_packet_id = i, dc_delivered_to = to, dc_delivered_at = now, dc_path = path\<rparr>"

section \<open>Routing decisions\<close>

datatype drop_reason =
  TtlExpired | NoRoute | DuplicatePacket | ExpiredPacket | SenderOffline | StorageFull | TooLarge

datatype 'i routing_decision =
  DirectDelivery 'i | RelayThrough "'i list" | HoldForLater | Drop drop_reason

record 'i route_info =
  ri_destination :: 'i
  ri_next_hop :: 'i
  ri_hop_count :: u32
  ri_metric :: u32
  ri_last_confirmed :: "int option"

definition new_route_info :: "'i \<Rightarrow> 'i \<Rightarrow> u32 \<Rightarrow> 'i route_info" where
  "new_route_info dst hop n =
    \<lparr>ri_destination = dst, ri_next_hop = hop, ri_hop_count = n, ri_metric = n, ri_last_confirmed = None\<rparr>"

definition route_confirm :: "int \<Rightarrow> 'i route_info \<Rightarrow> 'i route_info" where
  "route_confirm now r = r\<lparr>ri_last_confirmed := Some now\<rparr>"

definition route_is_stale :: "int \<Rightarrow> int \<Rightarrow> 'i route_info \<Rightarrow> bool" where
  "route_is_stale now max_age r =
    (case ri_last_confirmed r of Some c \<Rightarrow> now - c > max_age | None \<Rightarrow> True)"

section \<open>Keys\<close>

text \<open>What the stores and caches rely on: the byte key of an identity decodes to the identity.\<close>

locale peer_identity =
  fixes key :: "'i \<Rightarrow> bytes" and from_key :: "bytes \<Rightarrow> 'e + 'i" and valid :: "'i \<Rightarrow> bool"
  assumes decode: "valid i \<Longrightarrow> from_key (key i) = Inr i"
begin

lemma key_inj_on: "inj_on key {i. valid i}"
  by (rule inj_onI) (metis decode mem_Collect_eq sum.inject(2))

lemma key_eq_iff: "valid i \<Longrightarrow> valid j \<Longrightarrow> key i = key j \<longleftrightarrow> i = j"
  using key_inj_on by (auto simp: inj_on_def)

end

definition sim_valid :: "simulation_identity \<Rightarrow> bool" where
  "sim_valid i \<longleftrightarrow> is_ascii_uppercase (as_char i)"

interpretation sim: peer_identity sim_as_bytes sim_from_bytes sim_valid
proof
  fix i assume v: "sim_valid i"
  then have "unat (as_char i) \<le> 90" by (simp add: sim_valid_def is_ascii_uppercase_def word_le_nat_alt)
  then have "unat (ucast (ucast (as_char i) :: u8) :: u32) = unat (as_char i)"
    by (simp add: unsigned_ucast_eq unsigned_take_bit_eq take_bit_nat_eq_self)
  then have "(ucast (ucast (as_char i) :: u8) :: u32) = as_char i"
    by (rule unsigned_word_eqI)
  with v show "sim_from_bytes (sim_as_bytes i) = Inr i"
    by (cases i) (simp add: sim_from_bytes_def sim_as_bytes_def sim_new_def sim_valid_def)
qed

section \<open>Properties\<close>

lemma event_bytes_roundtrip [simp]: "event_from_bytes (event_to_bytes e) = e"
  by (simp add: event_from_bytes_def event_to_bytes_def)

lemma append_less_append:
  "length a = length c \<Longrightarrow> (a @ b < c @ d) \<longleftrightarrow> a < c \<or> a = c \<and> b < (d :: 'a :: linorder list)"
proof (induction a c rule: list_induct2)
  case (Cons x xs y ys)
  then show ?case by (cases "x = y") auto
qed simp

lemma u64_to_be_less: "u64_to_be v < u64_to_be w \<longleftrightarrow> v < w"
proof -
  have "unat x mod 256 ^ 8 = unat x" for x :: u64
    using unsigned_less[of x, where 'a = nat] by simp
  then have "be_val (u64_to_be x) = unat x" for x by (simp add: u64_to_be_def)
  then show ?thesis using be_val_less_iff[of "u64_to_be v" "u64_to_be w"] by (simp add: word_less_nat_alt)
qed

lemma u64_to_be_inj [simp]: "u64_to_be v = u64_to_be w \<longleftrightarrow> v = w"
  by (metis u64_be_roundtrip)

text \<open>
  The storage key of an event identifier is 16 bytes long, decodes to the identifier, and
  sorts as the identifiers do: by sender, then by sequence number.
\<close>

theorem event_key_order:
  "length (event_to_bytes e) = 16 \<and> event_from_bytes (event_to_bytes e) = e \<and>
   (event_to_bytes e < event_to_bytes f \<longleftrightarrow> e < f)"
proof -
  have "event_to_bytes e < event_to_bytes f \<longleftrightarrow>
      sender_hash e < sender_hash f \<or> sender_hash e = sender_hash f \<and> sequence_no e < sequence_no f"
    by (simp add: event_to_bytes_def append_less_append u64_to_be_less)
  also have "\<dots> \<longleftrightarrow> e < f"
    by (cases e; cases f) (auto simp: less_event_id_def less_eq_event_id_def)
  finally show ?thesis by (simp add: event_to_bytes_def event_from_bytes_def)
qed

end
