(* ===== verification/Routing.thy ===== *)
theory Routing
  imports Packet
begin

text \<open>
  The caches of the router, \<open>indras-routing\<close>: the routing table (\<open>src/table.rs\<close>), the mutual
  peer tracker (\<open>src/mutual.rs\<close>) and the back-propagation of delivery confirmations
  (\<open>src/backprop.rs\<close>). The current time is the argument \<open>now\<close>, in nanoseconds. Iterating over a
  \<open>HashSet\<close> has an unspecified order, which is the argument \<open>ord\<close>.
\<close>

section \<open>Routing table\<close>

record 'i route_entry =
  re_info :: "'i route_info"
  re_inserted_at :: int

record 'i routing_table =
  rt_routes :: "bytes \<rightharpoonup> 'i route_entry"
  rt_stale_timeout :: nat

definition new_table :: "nat \<Rightarrow> 'i routing_table" where
  "new_table timeout = \<lparr>rt_routes = Map.empty, rt_stale_timeout = timeout\<rparr>"

definition table_insert :: "('i \<Rightarrow> bytes) \<Rightarrow> int \<Rightarrow> 'i \<Rightarrow> 'i route_info \<Rightarrow> 'i routing_table \<Rightarrow> 'i routing_table" where
  "table_insert key now dst info t =
    t\<lparr>rt_routes := (rt_routes t)(key dst \<mapsto> \<lparr>re_info = info, re_inserted_at = now\<rparr>)\<rparr>"

definition table_get :: "('i \<Rightarrow> bytes) \<Rightarrow> 'i routing_table \<Rightarrow> 'i \<Rightarrow> 'i route_info option" where
  "table_get key t dst = map_option re_info (rt_routes t (key dst))"

definition table_remove :: "('i \<Rightarrow> bytes) \<Rightarrow> 'i \<Rightarrow> 'i routing_table \<Rightarrow> 'i routing_table" where
  "table_remove key dst t = t\<lparr>rt_routes := (rt_routes t)(key dst := None)\<rparr>"

text \<open>\<open>chrono::Duration::from_std(d).unwrap_or(MAX)\<close>; the largest duration is \<open>i64::MAX\<close> milliseconds.\<close>

definition chrono_max :: int where
  "chrono_max = (2 ^ 63 - 1) * 1000000"

definition stale_duration :: "'i routing_table \<Rightarrow> int" where
  "stale_duration t = min (int (rt_stale_timeout t)) chrono_max"

definition table_is_stale :: "('i \<Rightarrow> bytes) \<Rightarrow> int \<Rightarrow> 'i routing_table \<Rightarrow> 'i \<Rightarrow> bool" where
  "table_is_stale key now t dst =
    (case rt_routes t (key dst) of
       None \<Rightarrow> True
     | Some entry \<Rightarrow> now - re_inserted_at entry > stale_duration t)"

definition prune_stale :: "int \<Rightarrow> 'i routing_table \<Rightarrow> 'i routing_table" where
  "prune_stale now t =
    t\<lparr>rt_routes := (\<lambda>k. case rt_routes t k of
       None \<Rightarrow> None
     | Some entry \<Rightarrow> if now - re_inserted_at entry \<le> stale_duration t then Some entry else None)\<rparr>"

definition table_confirm :: "('i \<Rightarrow> bytes) \<Rightarrow> int \<Rightarrow> 'i \<Rightarrow> 'i routing_table \<Rightarrow> 'i routing_table" where
  "table_confirm key now dst t =
    (case rt_routes t (key dst) of
       None \<Rightarrow> t
     | Some entry \<Rightarrow> t\<lparr>rt_routes := (rt_routes t)(key dst \<mapsto>
         \<lparr>re_info = route_confirm now (re_info entry), re_inserted_at = now\<rparr>)\<rparr>)"

definition update_metric :: "('i \<Rightarrow> bytes) \<Rightarrow> 'i \<Rightarrow> u32 \<Rightarrow> 'i routing_table \<Rightarrow> 'i routing_table" where
  "update_metric key dst m t =
    (case rt_routes t (key dst) of
       None \<Rightarrow> t
     | Some entry \<Rightarrow> t\<lparr>rt_routes := (rt_routes t)(key dst \<mapsto>
         entry\<lparr>re_info := (re_info entry)\<lparr>ri_metric := m\<rparr>\<rparr>)\<rparr>)"

definition table_clear :: "'i routing_table \<Rightarrow> 'i routing_table" where
  "table_clear t = t\<lparr>rt_routes := Map.empty\<rparr>"

section \<open>Mutual peers\<close>

record 'i topology =
  tp_neighbors :: "'i \<Rightarrow> 'i list"
  tp_connected :: "'i \<Rightarrow> 'i \<Rightarrow> bool"
  tp_online :: "'i \<Rightarrow> bool"

text \<open>The provided method of the trait \<open>NetworkTopology\<close>.\<close>

definition topology_mutual_peers :: "('i set \<Rightarrow> 'i list) \<Rightarrow> 'i topology \<Rightarrow> 'i \<Rightarrow> 'i \<Rightarrow> 'i list" where
  "topology_mutual_peers ord T a b = ord (set (tp_neighbors T a) \<inter> set (tp_neighbors T b))"

type_synonym 'i mutual_tracker = "(bytes \<times> bytes) \<rightharpoonup> 'i list"

definition make_key :: "('i \<Rightarrow> bytes) \<Rightarrow> 'i \<Rightarrow> 'i \<Rightarrow> bytes \<times> bytes" where
  "make_key key a b = (if key a \<le> key b then (key a, key b) else (key b, key a))"

definition on_connect ::
  "('i \<Rightarrow> bytes) \<Rightarrow> ('i set \<Rightarrow> 'i list) \<Rightarrow> 'i topology \<Rightarrow> 'i \<Rightarrow> 'i \<Rightarrow> 'i mutual_tracker \<Rightarrow> 'i mutual_tracker" where
  "on_connect key ord T a b m = m(make_key key a b \<mapsto> topology_mutual_peers ord T a b)"

definition on_disconnect :: "('i \<Rightarrow> bytes) \<Rightarrow> 'i \<Rightarrow> 'i \<Rightarrow> 'i mutual_tracker \<Rightarrow> 'i mutual_tracker" where
  "on_disconnect key a b m = m(make_key key a b := None)"

definition get_relays_for :: "('i \<Rightarrow> bytes) \<Rightarrow> 'i mutual_tracker \<Rightarrow> 'i \<Rightarrow> 'i \<Rightarrow> 'i list" where
  "get_relays_for key m src dst = (case m (make_key key src dst) of None \<Rightarrow> [] | Some rs \<Rightarrow> rs)"

text \<open>The two loops of \<open>get_group_relays\<close>, with the set of keys seen and the relays so far.\<close>

fun collect_relays :: "('i \<Rightarrow> bytes) \<Rightarrow> bytes set \<times> 'i list \<Rightarrow> 'i list \<Rightarrow> bytes set \<times> 'i list" where
  "collect_relays key acc [] = acc"
| "collect_relays key (seen, rs) (r # rest) =
    collect_relays key (if key r \<in> seen then (seen, rs) else (insert (key r) seen, rs @ [r])) rest"

fun group_loop :: "('i \<Rightarrow> bytes) \<Rightarrow> 'i mutual_tracker \<Rightarrow> 'i \<Rightarrow> bytes set \<times> 'i list \<Rightarrow> 'i list \<Rightarrow> bytes set \<times> 'i list" where
  "group_loop key m src acc [] = acc"
| "group_loop key m src acc (member # members) =
    (if member = src then group_loop key m src acc members
     else (case m (make_key key src member) of
        None \<Rightarrow> group_loop key m src acc members
      | Some mutuals \<Rightarrow> group_loop key m src (collect_relays key acc mutuals) members))"

definition get_group_relays :: "('i \<Rightarrow> bytes) \<Rightarrow> 'i mutual_tracker \<Rightarrow> 'i \<Rightarrow> 'i list \<Rightarrow> 'i list" where
  "get_group_relays key m src members = snd (group_loop key m src ({}, []) members)"

definition tracker_refresh ::
  "('i \<Rightarrow> bytes) \<Rightarrow> ('i set \<Rightarrow> 'i list) \<Rightarrow> 'i topology \<Rightarrow> 'i \<Rightarrow> 'i \<Rightarrow> 'i mutual_tracker \<Rightarrow> 'i mutual_tracker" where
  "tracker_refresh key ord T a b m = on_connect key ord T a b m"

definition tracker_clear :: "'i mutual_tracker \<Rightarrow> 'i mutual_tracker" where
  "tracker_clear m = Map.empty"

section \<open>Back-propagation\<close>

record 'i backprop_state =
  bp_path :: "'i list"
  bp_current_hop :: nat
  bp_created_at :: nat
  bp_timeout :: nat

definition new_backprop :: "nat \<Rightarrow> 'i list \<Rightarrow> nat \<Rightarrow> 'i backprop_state" where
  "new_backprop now path timeout =
    \<lparr>bp_path = path, bp_current_hop = length path - 1, bp_created_at = now, bp_timeout = timeout\<rparr>"

text \<open>\<open>Instant::elapsed\<close> is zero when the clock is behind, as truncated subtraction.\<close>

definition is_timed_out :: "nat \<Rightarrow> 'i backprop_state \<Rightarrow> bool" where
  "is_timed_out now s \<longleftrightarrow> now - bp_created_at s > bp_timeout s"

definition next_confirmer :: "'i backprop_state \<Rightarrow> 'i option" where
  "next_confirmer s = (if bp_current_hop s > 0 then Some (bp_path s ! (bp_current_hop s - 1)) else None)"

definition current_peer :: "'i backprop_state \<Rightarrow> 'i option" where
  "current_peer s = (if bp_current_hop s < length (bp_path s) then Some (bp_path s ! bp_current_hop s) else None)"

definition is_complete :: "'i backprop_state \<Rightarrow> bool" where
  "is_complete s \<longleftrightarrow> bp_current_hop s = 0"

datatype backprop_progress = Complete | InProgress nat | TimedOut | NotFound

record 'i backprop_manager =
  bm_pending :: "packet_id \<rightharpoonup> 'i backprop_state"
  bm_default_timeout :: nat

definition new_backprop_manager :: "nat \<Rightarrow> 'i backprop_manager" where
  "new_backprop_manager timeout = \<lparr>bm_pending = Map.empty, bm_default_timeout = timeout\<rparr>"

definition start_backprop_with_timeout ::
  "nat \<Rightarrow> packet_id \<Rightarrow> 'i list \<Rightarrow> nat \<Rightarrow> 'i backprop_manager \<Rightarrow> 'i backprop_manager" where
  "start_backprop_with_timeout now i path timeout m =
    (if length path < 2 then m else m\<lparr>bm_pending := (bm_pending m)(i \<mapsto> new_backprop now path timeout)\<rparr>)"

definition start_backprop :: "nat \<Rightarrow> packet_id \<Rightarrow> 'i list \<Rightarrow> 'i backprop_manager \<Rightarrow> 'i backprop_manager" where
  "start_backprop now i path m =
    (if length path < 2 then m
     else m\<lparr>bm_pending := (bm_pending m)(i \<mapsto> new_backprop now path (bm_default_timeout m))\<rparr>)"

definition backprop_remove :: "packet_id \<Rightarrow> 'i backprop_manager \<Rightarrow> 'i backprop_manager" where
  "backprop_remove i m = m\<lparr>bm_pending := (bm_pending m)(i := None)\<rparr>"

definition advance :: "nat \<Rightarrow> packet_id \<Rightarrow> 'i \<Rightarrow> 'i backprop_manager \<Rightarrow> backprop_progress \<times> 'i backprop_manager" where
  "advance now i peer m =
    (case bm_pending m i of
       None \<Rightarrow> (NotFound, m)
     | Some s \<Rightarrow>
        if is_timed_out now s then (TimedOut, backprop_remove i m)
        else if (case next_confirmer s of None \<Rightarrow> False | Some expected \<Rightarrow> expected \<noteq> peer)
          then (InProgress (bp_current_hop s), m)
        else let s' = (if bp_current_hop s > 0 then s\<lparr>bp_current_hop := bp_current_hop s - 1\<rparr> else s);
                 m' = m\<lparr>bm_pending := (bm_pending m)(i \<mapsto> s')\<rparr>
             in if is_complete s' then (Complete, backprop_remove i m')
                else (InProgress (bp_current_hop s'), m'))"

definition check_timeouts :: "nat \<Rightarrow> 'i backprop_manager \<Rightarrow> packet_id set" where
  "check_timeouts now m = {i. \<exists>s. bm_pending m i = Some s \<and> is_timed_out now s}"

definition backprop_status :: "nat \<Rightarrow> packet_id \<Rightarrow> 'i backprop_manager \<Rightarrow> backprop_progress" where
  "backprop_status now i m =
    (case bm_pending m i of
       None \<Rightarrow> NotFound
     | Some s \<Rightarrow> if is_timed_out now s then TimedOut
                 else if is_complete s then Complete else InProgress (bp_current_hop s))"

definition backprop_clear :: "'i backprop_manager \<Rightarrow> 'i backprop_manager" where
  "backprop_clear m = m\<lparr>bm_pending := Map.empty\<rparr>"

section \<open>Properties of the caches\<close>

lemma make_key_sym: "make_key key a b = make_key key b a"
  by (auto simp: make_key_def)

lemma make_key_eq_iff: "make_key key a b = make_key key c d \<longleftrightarrow> {key a, key b} = {key c, key d}"
  by (auto simp: make_key_def doubleton_eq_iff)

text \<open>
  Pruning agrees with the staleness test: after \<open>prune_stale\<close> a destination has a route
  exactly if it had one that was not stale at that moment, and no stale route is left.
\<close>

theorem prune_removes_stale:
  "table_get key (prune_stale now t) d = (if table_is_stale key now t d then None else table_get key t d) \<and>
   (table_is_stale key now (prune_stale now t) d \<longleftrightarrow> table_get key (prune_stale now t) d = None)"
  by (auto simp: table_get_def prune_stale_def table_is_stale_def stale_duration_def split: option.splits)

lemma collect_relays_inv:
  assumes "snd acc = rs" and "fst acc = key ` set rs" and "distinct (map key rs)"
  shows "fst (collect_relays key acc xs) = key ` set (snd (collect_relays key acc xs)) \<and>
    distinct (map key (snd (collect_relays key acc xs))) \<and>
    set (snd (collect_relays key acc xs)) \<subseteq> set rs \<union> set xs \<and>
    key ` set (snd (collect_relays key acc xs)) = key ` (set rs \<union> set xs)"
  using assms
proof (induction key acc xs arbitrary: rs rule: collect_relays.induct)
  case (2 key seen rs0 r rest)
  show ?case
  proof (cases "key r \<in> seen")
    case True
    with 2 show ?thesis using "2.IH"[of rs] by (auto simp: insert_absorb)
  next
    case False
    with 2 show ?thesis using "2.IH"[of "rs @ [r]"] by auto
  qed
qed auto

text \<open>The relays that the cache holds for the members of a group.\<close>

definition group_candidates :: "('i \<Rightarrow> bytes) \<Rightarrow> 'i mutual_tracker \<Rightarrow> 'i \<Rightarrow> 'i list \<Rightarrow> 'i set" where
  "group_candidates key m src members = (\<Union>x \<in> set members - {src}. set (get_relays_for key m src x))"

lemma group_loop_inv:
  assumes "fst acc = key ` set (snd acc)" and "distinct (map key (snd acc))"
  shows "distinct (map key (snd (group_loop key m src acc ms))) \<and>
    set (snd (group_loop key m src acc ms)) \<subseteq> set (snd acc) \<union> group_candidates key m src ms \<and>
    key ` set (snd (group_loop key m src acc ms)) = key ` (set (snd acc) \<union> group_candidates key m src ms)"
  using assms
proof (induction key m src acc ms rule: group_loop.induct)
  case (2 key m src acc x ms)
  have cand: "group_candidates key m src (x # ms) =
      (if x = src then {} else set (get_relays_for key m src x)) \<union> group_candidates key m src ms"
    by (auto simp: group_candidates_def)
  show ?case
  proof (cases "x = src \<or> m (make_key key src x) = None")
    case True
    then have "group_candidates key m src (x # ms) = group_candidates key m src ms"
      and "group_loop key m src acc (x # ms) = group_loop key m src acc ms"
      by (auto simp: cand get_relays_for_def)
    with True 2 show ?thesis by (cases "x = src") (simp_all only: simp_thms)
  next
    case False
    then obtain mut where mut: "m (make_key key src x) = Some mut" "x \<noteq> src" by auto
    note col = collect_relays_inv[of acc "snd acc" key mut, OF refl 2(4,5)]
    from "2.IH"(3)[OF mut(2,1)] col
    have "distinct (map key (snd (group_loop key m src (collect_relays key acc mut) ms)))"
      "set (snd (group_loop key m src (collect_relays key acc mut) ms)) \<subseteq>
         set (snd acc) \<union> set mut \<union> group_candidates key m src ms"
      "key ` set (snd (group_loop key m src (collect_relays key acc mut) ms)) =
         key ` (set (snd acc) \<union> set mut \<union> group_candidates key m src ms)"
      by (auto simp: image_Un)
    with mut cand show ?thesis by (auto simp: get_relays_for_def)
  qed
qed (simp add: group_candidates_def)

text \<open>
  The relays for a group are the union of the cached mutual peers of the source with the
  other members, each listed once: with an injective byte key the result is exactly that
  union without repetition.
\<close>

theorem group_relays_union:
  assumes "inj_on key (group_candidates key m src members)"
  shows "set (get_group_relays key m src members) = group_candidates key m src members \<and>
    distinct (get_group_relays key m src members)"
proof -
  let ?rs = "get_group_relays key m src members"
  have "distinct (map key ?rs) \<and> set ?rs \<subseteq> group_candidates key m src members \<and>
      key ` set ?rs = key ` group_candidates key m src members"
    using group_loop_inv[of "({}, [])" key m src members] by (simp add: get_group_relays_def)
  then show ?thesis
    using inj_on_image_eq_iff[OF assms, of "set ?rs" "group_candidates key m src members"] by (simp add: distinct_map)
qed

theorem group_relays_union_witness:
  "set (get_group_relays (\<lambda>n. [of_nat n]) [([1], [2]) \<mapsto> [5, 6], ([1], [3]) \<mapsto> [6, 8]] 1 [1, 2, 3 :: nat]) = {5, 6, 8} \<and>
   distinct (get_group_relays (\<lambda>n. [of_nat n]) [([1], [2]) \<mapsto> [5, 6], ([1], [3]) \<mapsto> [6, 8]] 1 [1, 2, 3 :: nat])"
proof -
  let ?m = "[([1], [2]) \<mapsto> [5, 6], ([1], [3]) \<mapsto> [6, 8 :: nat]]" and ?key = "\<lambda>n :: nat. [of_nat n :: u8]"
  have c: "group_candidates ?key ?m 1 [1, 2, 3] = {5, 6, 8}"
    by (auto simp: group_candidates_def get_relays_for_def make_key_def)
  have "inj_on ?key {5, 6, 8}" by (simp add: inj_on_def)
  with c group_relays_union[of ?key ?m 1 "[1, 2, 3]"] show ?thesis by simp
qed

text \<open>
  The mutual peer cache is symmetric and exact: after two peers connect, the relays for the
  pair, asked for in either direction, are their common neighbours; after they disconnect
  there are none; pairs of other peers keep theirs.
\<close>

theorem relay_cache_exact:
  assumes "\<And>S. finite S \<Longrightarrow> set (ord S) = S"
  shows "set (get_relays_for key (on_connect key ord T a b m) a b) = set (tp_neighbors T a) \<inter> set (tp_neighbors T b) \<and>
    get_relays_for key m' d c = get_relays_for key m' c d \<and>
    get_relays_for key (on_disconnect key a b m) a b = [] \<and>
    ({key c, key d} \<noteq> {key a, key b} \<longrightarrow>
      get_relays_for key (on_connect key ord T a b m) c d = get_relays_for key m c d \<and>
      get_relays_for key (on_disconnect key a b m) c d = get_relays_for key m c d)"
  using assms[of "set (tp_neighbors T a) \<inter> set (tp_neighbors T b)"] 
  by (auto simp: get_relays_for_def on_connect_def on_disconnect_def topology_mutual_peers_def make_key_eq_iff
      make_key_sym[of key d c])

theorem relay_cache_exact_witness:
  "set (get_relays_for (\<lambda>n. [of_nat n])
     (on_connect (\<lambda>n. [of_nat n]) sorted_list_of_set
        \<lparr>tp_neighbors = (\<lambda>p. if p = 1 then [2, 3, 4] else [4, 3, 7]), tp_connected = (\<lambda>_ _. False), tp_online = (\<lambda>_. True)\<rparr>
        1 2 Map.empty) 1 (2 :: nat)) = {3, 4}"
  using relay_cache_exact[of sorted_list_of_set "\<lambda>n. [of_nat n]"
      "\<lparr>tp_neighbors = (\<lambda>p. if p = 1 then [2, 3, 4] else [4, 3, 7]), tp_connected = (\<lambda>_ _. False), tp_online = (\<lambda>_. True)\<rparr>"
      1 2 Map.empty Map.empty 2 1]
  by auto

section \<open>Properties of back-propagation\<close>

text \<open>A sequence of confirmations, each with its time and peer, and the statuses returned.\<close>

primrec confirm_seq :: "packet_id \<Rightarrow> (nat \<times> 'i) list \<Rightarrow> 'i backprop_manager \<Rightarrow> backprop_progress list \<times> 'i backprop_manager" where
  "confirm_seq i [] m = ([], m)"
| "confirm_seq i (c # cs) m =
    (let (st, m1) = advance (fst c) i (snd c) m; (sts, m2) = confirm_seq i cs m1 in (st # sts, m2))"

lemma advance_expected:
  assumes "bm_pending m i = Some s" and "\<not> is_timed_out t s" and "bp_current_hop s = Suc h"
  shows "advance t i (bp_path s ! h) m =
    (if h = 0 then (Complete, backprop_remove i m)
     else (InProgress h, m\<lparr>bm_pending := (bm_pending m)(i \<mapsto> s\<lparr>bp_current_hop := h\<rparr>)\<rparr>))"
  using assms by (simp add: advance_def next_confirmer_def is_complete_def Let_def backprop_remove_def)

lemma confirm_seq_completes:
  assumes "bm_pending m i = Some s" and "bp_current_hop s = Suc h" and "h < length (bp_path s)"
    and "length ts = Suc h" and "\<forall>t \<in> set ts. \<not> is_timed_out t s"
  shows "confirm_seq i (zip ts (rev (take (Suc h) (bp_path s)))) m =
    (map InProgress (rev [1..<Suc h]) @ [Complete], backprop_remove i m)"
  using assms
proof (induction h arbitrary: m s ts)
  case 0
  then obtain t where ts: "ts = [t]" by (auto simp: length_Suc_conv)
  have "rev (take (Suc 0) (bp_path s)) = [bp_path s ! 0]"
    using 0(3) by (simp add: take_Suc_conv_app_nth)
  then show ?case using 0 ts advance_expected[OF 0(1) _ 0(2), of t] by simp
next
  case (Suc h)
  from Suc.prems(4) obtain t ts' where ts: "ts = t # ts'" "length ts' = Suc h" by (cases ts) auto
  have path: "rev (take (Suc (Suc h)) (bp_path s)) = bp_path s ! Suc h # rev (take (Suc h) (bp_path s))"
    using Suc.prems(3) by (simp add: take_Suc_conv_app_nth)
  let ?s = "s\<lparr>bp_current_hop := Suc h\<rparr>" and ?m = "m\<lparr>bm_pending := (bm_pending m)(i \<mapsto> s\<lparr>bp_current_hop := Suc h\<rparr>)\<rparr>"
  have "confirm_seq i (zip ts' (rev (take (Suc h) (bp_path ?s)))) ?m =
      (map InProgress (rev [1..<Suc h]) @ [Complete], backprop_remove i ?m)"
    using Suc.prems ts by (intro Suc.IH) (auto simp: is_timed_out_def)
  moreover have "advance t i (bp_path s ! Suc h) m = (InProgress (Suc h), ?m)"
    using Suc.prems ts advance_expected[OF Suc.prems(1) _ Suc.prems(2), of t] by simp
  ultimately show ?case
    using ts path by (simp add: backprop_remove_def)
qed

text \<open>
  Confirmations that travel back along the path within the timeout complete the
  back-propagation: started on a path of at least two peers, the peers before the destination
  confirming from the last one to the source get \<open>InProgress\<close> with the hops that are left and
  finally \<open>Complete\<close>, and the packet is no longer pending.
\<close>

theorem backprop_completes:
  assumes "2 \<le> length path" and "length ts = length path - 1"
    and "\<forall>t \<in> set ts. t - t0 \<le> bm_default_timeout m"
  shows "confirm_seq i (zip ts (rev (butlast path))) (start_backprop t0 i path m) =
    (map InProgress (rev [1..<length path - 1]) @ [Complete], backprop_remove i m)"
proof -
  let ?m = "start_backprop t0 i path m"
  obtain h where h: "length path - 1 = Suc h" using assms(1) by (cases "length path - 1") auto
  let ?s = "new_backprop t0 path (bm_default_timeout m)"
  have s: "bp_path ?s = path" "bp_current_hop ?s = Suc h" "bm_pending ?m i = Some ?s"
    using assms(1) h by (simp_all add: new_backprop_def start_backprop_def)
  have "\<forall>t \<in> set ts. \<not> is_timed_out t ?s"
    using assms(3) by (auto simp: is_timed_out_def new_backprop_def not_less)
  with confirm_seq_completes[OF s(3,2), of ts] s(1) assms(1,2) h
  have "confirm_seq i (zip ts (rev (take (Suc h) path))) ?m =
      (map InProgress (rev [1..<Suc h]) @ [Complete], backprop_remove i ?m)"
    by simp
  moreover have "take (Suc h) path = butlast path" using h by (simp add: butlast_conv_take)
  moreover have "backprop_remove i ?m = backprop_remove i m"
    using assms(1) by (simp add: backprop_remove_def start_backprop_def)
  ultimately show ?thesis using h by simp
qed

theorem backprop_completes_witness:
  "confirm_seq (EventId 1 1) (zip [5, 6, 7] (rev (butlast [10, 11, 12, 13 :: nat])))
     (start_backprop 3 (EventId 1 1) [10, 11, 12, 13] (new_backprop_manager 30)) =
   ([InProgress 2, InProgress 1, Complete], backprop_remove (EventId 1 1) (new_backprop_manager 30))"
  using backprop_completes[of "[10, 11, 12, 13 :: nat]" "[5, 6, 7]" 3 "new_backprop_manager 30" "EventId 1 1"]
  by (simp add: new_backprop_manager_def upt_rec)

end
