(* ===== verification/Pending_Store.thy ===== *)
theory Pending_Store
  imports Packet
begin

text \<open>
  Storage of \<open>indras-storage\<close>: the quota manager (\<open>src/quota.rs\<close>), the in-memory store of
  pending events and the in-memory packet store (\<open>src/memory.rs\<close>). A \<open>usize\<close> that counts
  elements is a natural number, with saturation written out; the atomic total is a \<open>u64\<close>
  whose additions and subtractions wrap. Calls are taken one after the other: the source reads the total and adds to
  it in two separate atomic operations, so concurrent calls of \<open>mark_pending\<close> may pass the total quota together, which is outside the model.
\<close>

section \<open>Quotas\<close>

datatype eviction_policy = Fifo | OldestFirst

record quota_manager =
  max_pending_per_peer :: nat
  max_total_pending :: nat
  eviction_policy :: eviction_policy

definition default_quota :: quota_manager where
  "default_quota = \<lparr>max_pending_per_peer = 1000, max_total_pending = 100000, eviction_policy = Fifo\<rparr>"

definition new_quota :: "nat \<Rightarrow> nat \<Rightarrow> quota_manager" where
  "new_quota per_peer total_max =
    \<lparr>max_pending_per_peer = per_peer, max_total_pending = total_max, eviction_policy = Fifo\<rparr>"

definition with_eviction_policy :: "eviction_policy \<Rightarrow> quota_manager \<Rightarrow> quota_manager" where
  "with_eviction_policy p q = q\<lparr>eviction_policy := p\<rparr>"

definition would_exceed_peer_quota :: "quota_manager \<Rightarrow> nat \<Rightarrow> bool" where
  "would_exceed_peer_quota q n \<longleftrightarrow> n \<ge> max_pending_per_peer q"

definition would_exceed_total_quota :: "quota_manager \<Rightarrow> nat \<Rightarrow> bool" where
  "would_exceed_total_quota q n \<longleftrightarrow> n \<ge> max_total_pending q"

text \<open>A \<open>BTreeSet\<close> is iterated in increasing order.\<close>

definition select_for_eviction :: "quota_manager \<Rightarrow> event_id set \<Rightarrow> nat \<Rightarrow> event_id list" where
  "select_for_eviction q events n =
    (if n = 0 \<or> events = {} then []
     else let to_evict = min n (card events)
          in case eviction_policy q of
               Fifo \<Rightarrow> take to_evict (sorted_list_of_set events)
             | OldestFirst \<Rightarrow> take to_evict (sorted_list_of_set events))"

definition usize_max :: nat where
  "usize_max = 2 ^ 64 - 1"

definition saturating_add :: "nat \<Rightarrow> nat \<Rightarrow> nat" where
  "saturating_add a b = min (a + b) usize_max"

definition events_to_evict_for_peer :: "quota_manager \<Rightarrow> nat \<Rightarrow> nat \<Rightarrow> nat" where
  "events_to_evict_for_peer q n to_add = saturating_add n to_add - max_pending_per_peer q"

definition events_to_evict_for_total :: "quota_manager \<Rightarrow> nat \<Rightarrow> nat \<Rightarrow> nat" where
  "events_to_evict_for_total q n to_add = saturating_add n to_add - max_total_pending q"

record quota_builder =
  qb_max_pending_per_peer :: "nat option"
  qb_max_total_pending :: "nat option"
  qb_eviction_policy :: "eviction_policy option"

definition new_quota_builder :: quota_builder where
  "new_quota_builder =
    \<lparr>qb_max_pending_per_peer = None, qb_max_total_pending = None, qb_eviction_policy = None\<rparr>"

definition qb_per_peer :: "nat \<Rightarrow> quota_builder \<Rightarrow> quota_builder" where
  "qb_per_peer n b = b\<lparr>qb_max_pending_per_peer := Some n\<rparr>"

definition qb_total :: "nat \<Rightarrow> quota_builder \<Rightarrow> quota_builder" where
  "qb_total n b = b\<lparr>qb_max_total_pending := Some n\<rparr>"

definition qb_policy :: "eviction_policy \<Rightarrow> quota_builder \<Rightarrow> quota_builder" where
  "qb_policy p b = b\<lparr>qb_eviction_policy := Some p\<rparr>"

definition build_quota :: "quota_builder \<Rightarrow> quota_manager" where
  "build_quota b =
    (let m = default_quota;
         m = (case qb_max_pending_per_peer b of None \<Rightarrow> m | Some n \<Rightarrow> m\<lparr>max_pending_per_peer := n\<rparr>);
         m = (case qb_max_total_pending b of None \<Rightarrow> m | Some n \<Rightarrow> m\<lparr>max_total_pending := n\<rparr>)
     in case qb_eviction_policy b of None \<Rightarrow> m | Some p \<Rightarrow> m\<lparr>eviction_policy := p\<rparr>)"

section \<open>Pending events\<close>

datatype storage_error =
    StIo string | StNotFound string | StPacketNotFound string | CapacityExceeded
  | StSerialization string | StDeserialization string | StIdentity string | StDatabase string
  | DatabaseLocked

record pending_store =
  ps_pending :: "bytes \<rightharpoonup> event_id set"
  ps_quota :: quota_manager
  ps_total_count :: u64

type_synonym 'a pending_op = "(pending_store, storage_error, 'a) op"

definition new_pending_store :: pending_store where
  "new_pending_store = \<lparr>ps_pending = Map.empty, ps_quota = default_quota, ps_total_count = 0\<rparr>"

definition pending_with_quota :: "quota_manager \<Rightarrow> pending_store" where
  "pending_with_quota q = \<lparr>ps_pending = Map.empty, ps_quota = q, ps_total_count = 0\<rparr>"

definition total_pending :: "pending_store \<Rightarrow> nat" where
  "total_pending s = unat (ps_total_count s)"

definition pending_is_empty :: "pending_store \<Rightarrow> bool" where
  "pending_is_empty s \<longleftrightarrow> ps_total_count s = 0"

text \<open>The loop that removes the selected events, counting each removal.\<close>

fun evict :: "event_id list \<Rightarrow> event_id set \<times> u64 \<Rightarrow> event_id set \<times> u64" where
  "evict [] acc = acc"
| "evict (i # ids) (events, total_count) = evict ids (events - {i}, total_count - 1)"

definition mark_pending :: "('i \<Rightarrow> bytes) \<Rightarrow> 'i \<Rightarrow> event_id \<Rightarrow> unit pending_op" where
  "mark_pending key p e s =
    (if would_exceed_total_quota (ps_quota s) (unat (ps_total_count s)) then (Inl CapacityExceeded, s)
     else
      let events = (case ps_pending s (key p) of None \<Rightarrow> {} | Some es \<Rightarrow> es);
          (events, n) =
            (if would_exceed_peer_quota (ps_quota s) (card events)
             then evict (select_for_eviction (ps_quota s) events
                    (events_to_evict_for_peer (ps_quota s) (card events) 1)) (events, ps_total_count s)
             else (events, ps_total_count s));
          n = (if e \<in> events then n else n + 1)
      in (Inr (), s\<lparr>ps_pending := (ps_pending s)(key p \<mapsto> insert e events), ps_total_count := n\<rparr>))"

definition pending_for :: "('i \<Rightarrow> bytes) \<Rightarrow> 'i \<Rightarrow> event_id list pending_op" where
  "pending_for key p s =
    (Inr (case ps_pending s (key p) of Some events \<Rightarrow> sorted_list_of_set events | None \<Rightarrow> []), s)"

definition mark_delivered :: "('i \<Rightarrow> bytes) \<Rightarrow> 'i \<Rightarrow> event_id \<Rightarrow> unit pending_op" where
  "mark_delivered key p e s =
    (Inr (), case ps_pending s (key p) of
       None \<Rightarrow> s
     | Some events \<Rightarrow>
        if e \<in> events
        then s\<lparr>ps_pending := (ps_pending s)(key p \<mapsto> events - {e}), ps_total_count := ps_total_count s - 1\<rparr>
        else s)"

definition mark_delivered_up_to :: "('i \<Rightarrow> bytes) \<Rightarrow> 'i \<Rightarrow> event_id \<Rightarrow> unit pending_op" where
  "mark_delivered_up_to key p up_to s =
    (Inr (), case ps_pending s (key p) of
       None \<Rightarrow> s
     | Some events \<Rightarrow>
        let to_remove = filter (\<lambda>i. sender_hash i = sender_hash up_to \<and> sequence_no i \<le> sequence_no up_to)
              (sorted_list_of_set events);
            s' = s\<lparr>ps_pending := (ps_pending s)(key p \<mapsto> foldl (\<lambda>es i. es - {i}) events to_remove)\<rparr>
        in if length to_remove > 0
           then s'\<lparr>ps_total_count := ps_total_count s' - of_nat (length to_remove)\<rparr> else s')"

definition clear_pending :: "('i \<Rightarrow> bytes) \<Rightarrow> 'i \<Rightarrow> unit pending_op" where
  "clear_pending key p s =
    (Inr (), case ps_pending s (key p) of
       None \<Rightarrow> s
     | Some events \<Rightarrow>
        s\<lparr>ps_pending := (ps_pending s)(key p := None), ps_total_count := ps_total_count s - of_nat (card events)\<rparr>)"

section \<open>Invariant of the pending store\<close>

text \<open>
  The counter is the number of pending events of all peers, and the quotas hold. A peer quota
  of zero still admits the event just marked.
\<close>

definition pending_count :: "(bytes \<rightharpoonup> event_id set) \<Rightarrow> nat" where
  "pending_count m = (\<Sum>k \<in> dom m. card (the (m k)))"

definition pending_ok :: "pending_store \<Rightarrow> bool" where
  "pending_ok s \<longleftrightarrow> finite (dom (ps_pending s)) \<and>
     (\<forall>k es. ps_pending s k = Some es \<longrightarrow> finite es \<and> card es \<le> max 1 (max_pending_per_peer (ps_quota s))) \<and>
     unat (ps_total_count s) = pending_count (ps_pending s) \<and>
     pending_count (ps_pending s) \<le> max_total_pending (ps_quota s) \<and> max_total_pending (ps_quota s) < 2 ^ 64"

definition events_at :: "(bytes \<rightharpoonup> event_id set) \<Rightarrow> bytes \<Rightarrow> event_id set" where
  "events_at m k = (case m k of None \<Rightarrow> {} | Some es \<Rightarrow> es)"

lemma pending_count_upd:
  assumes "finite (dom m)"
  shows "pending_count (m(k \<mapsto> es)) + card (events_at m k) = pending_count m + card es"
proof -
  let ?f = "\<lambda>j. card (the ((m(k \<mapsto> es)) j))" and ?g = "\<lambda>j. card (the (m j))"
  have same: "sum ?f (dom m - {k}) = sum ?g (dom m - {k})" by (intro sum.cong) auto
  have "pending_count (m(k \<mapsto> es)) = card es + sum ?f (dom m - {k})"
    using assms by (simp add: pending_count_def sum.insert_remove)
  moreover have "pending_count m = card (events_at m k) + sum ?g (dom m - {k})"
  proof (cases "k \<in> dom m")
    case True
    then have "pending_count m = ?g k + sum ?g (dom m - {k})"
      using assms by (simp add: pending_count_def sum.remove[of "dom m" k])
    with True show ?thesis by (auto simp: events_at_def)
  next
    case False
    then show ?thesis by (auto simp: pending_count_def events_at_def domIff)
  qed
  ultimately show ?thesis using same by simp
qed

lemma pending_count_del:
  assumes "finite (dom m)"
  shows "pending_count (m(k := None)) + card (events_at m k) = pending_count m"
proof (cases "k \<in> dom m")
  case True
  have "sum (\<lambda>j. card (the ((m(k := None)) j))) (dom m - {k}) = sum (\<lambda>j. card (the (m j))) (dom m - {k})"
    by (intro sum.cong) auto
  with True assms show ?thesis by (auto simp: pending_count_def events_at_def sum.remove[of "dom m" k])
next
  case False
  then have "m(k := None) = m" by (auto simp: domIff)
  with False show ?thesis by (auto simp: events_at_def domIff)
qed

lemma events_at_le: "finite (dom m) \<Longrightarrow> card (events_at m k) \<le> pending_count m"
  using pending_count_del[of m k] by linarith

lemma evict_eq: "evict ids (es, n) = (es - set ids, n - of_nat (length ids))"
  by (induction ids arbitrary: es n) (auto simp: algebra_simps)

lemma remove_all_eq: "foldl (\<lambda>es i. es - {i}) es ids = es - set ids"
  by (induction ids arbitrary: es) auto

lemma select_eq:
  "finite es \<Longrightarrow> select_for_eviction q es n = take n (sorted_list_of_set es)"
  by (auto simp: select_for_eviction_def Let_def min_def split: eviction_policy.splits)

lemma card_minus_select:
  assumes "finite es"
  shows "card (es - set (take n (sorted_list_of_set es))) = card es - n"
    and "length (take n (sorted_list_of_set es)) = min n (card es)"
proof -
  have "card (set (take n (sorted_list_of_set es))) = min n (card es)"
    using assms by (simp add: distinct_card min.commute)
  moreover have "set (take n (sorted_list_of_set es)) \<subseteq> es"
    using assms set_take_subset[of n "sorted_list_of_set es"] by simp
  ultimately show "card (es - set (take n (sorted_list_of_set es))) = card es - n"
    using assms by (simp add: card_Diff_subset finite_subset)
qed (use assms in \<open>simp add: min.commute\<close>)


lemma unat_of_nat_u64: "k < 2 ^ 64 \<Longrightarrow> unat (of_nat k :: u64) = k"
  by (simp add: unsigned_of_nat take_bit_nat_eq_self)

lemma unat_minus_of_nat:
  fixes n :: u64
  assumes "k \<le> unat n"
  shows "unat (n - of_nat k) = unat n - k"
proof -
  have "unat (of_nat k :: u64) = k"
    using assms unsigned_less[of n, where 'a = nat] by (intro unat_of_nat_u64) simp
  moreover from this have "of_nat k \<le> n" using assms by (simp add: word_le_nat_alt)
  ultimately show ?thesis by (simp add: unat_sub)
qed

lemma unat_plus_1:
  fixes n :: u64
  assumes "unat n < 2 ^ 64 - 1"
  shows "unat (n + 1) = unat n + 1"
proof -
  have "n + 1 = of_nat (unat n + 1)" by simp
  also have "unat (of_nat (unat n + 1) :: u64) = unat n + 1" using assms by (intro unat_of_nat_u64) simp
  finally show ?thesis .
qed

text \<open>What marking an event pending makes of the pending events of a peer.\<close>

definition keep_latest :: "nat \<Rightarrow> event_id set \<Rightarrow> event_id set" where
  "keep_latest n es = es - set (take (card es - n) (sorted_list_of_set es))"

definition admit :: "quota_manager \<Rightarrow> event_id \<Rightarrow> event_id set \<Rightarrow> event_id set" where
  "admit q e es =
    insert e (if card es < max_pending_per_peer q then es else keep_latest (max_pending_per_peer q - 1) es)"

lemma pending_okD:
  assumes "pending_ok s"
  shows "finite (dom (ps_pending s))" and "finite (events_at (ps_pending s) k)"
    and "card (events_at (ps_pending s) k) \<le> max 1 (max_pending_per_peer (ps_quota s))"
    and "unat (ps_total_count s) = pending_count (ps_pending s)"
    and "pending_count (ps_pending s) \<le> max_total_pending (ps_quota s)"
    and "max_total_pending (ps_quota s) < 2 ^ 64"
  using assms by (auto simp: pending_ok_def events_at_def split: option.splits)

text \<open>An operation that replaces the events of one peer keeps the invariant.\<close>

lemma pending_ok_upd:
  assumes "pending_ok s" and "finite es" and "card es \<le> max 1 (max_pending_per_peer (ps_quota s))"
    and n: "unat n + card (events_at (ps_pending s) k) = unat (ps_total_count s) + card es"
    and "unat n \<le> max_total_pending (ps_quota s)"
  shows "pending_ok (s\<lparr>ps_pending := (ps_pending s)(k \<mapsto> es), ps_total_count := n\<rparr>)"
proof -
  have "unat n = pending_count ((ps_pending s)(k \<mapsto> es))"
    using pending_count_upd[OF pending_okD(1)[OF assms(1)], of k es] n pending_okD(4)[OF assms(1)] by linarith
  then show ?thesis using assms by (auto simp: pending_ok_def)
qed

lemma card_keep_latest: "finite es \<Longrightarrow> card (keep_latest n es) = min n (card es)"
  by (simp add: keep_latest_def card_minus_select)

lemma finite_keep_latest: "finite es \<Longrightarrow> finite (keep_latest n es)"
  by (simp add: keep_latest_def)

lemma mark_pending_full: "would_exceed_total_quota (ps_quota s) (unat (ps_total_count s)) \<Longrightarrow>
  mark_pending key p e s = (Inl CapacityExceeded, s)"
  by (simp add: mark_pending_def)

lemma mark_pending_eq:
  assumes ok: "pending_ok s" and room: "\<not> would_exceed_total_quota (ps_quota s) (unat (ps_total_count s))"
  shows "\<exists>n. mark_pending key p e s = (Inr (), s\<lparr>ps_pending := (ps_pending s)(key p \<mapsto>
             admit (ps_quota s) e (events_at (ps_pending s) (key p))), ps_total_count := n\<rparr>) \<and>
           unat n + card (events_at (ps_pending s) (key p)) = unat (ps_total_count s) +
             card (admit (ps_quota s) e (events_at (ps_pending s) (key p)))"
proof -
  let ?es = "events_at (ps_pending s) (key p)" and ?q = "ps_quota s" and ?t = "ps_total_count s"
  let ?k = "card ?es + 1 - max_pending_per_peer ?q"
  note fin = pending_okD(2)[OF ok, of "key p"]
  have le: "card ?es \<le> unat ?t"
    using events_at_le[OF pending_okD(1)[OF ok], of "key p"] pending_okD(4)[OF ok] by simp
  have lt: "unat ?t < 2 ^ 64 - 1" 
    using room pending_okD(6)[OF ok] by (simp add: would_exceed_total_quota_def)
  define es' where "es' = (if card ?es < max_pending_per_peer ?q then ?es
      else keep_latest (max_pending_per_peer ?q - 1) ?es)"
  define m where "m = (if card ?es < max_pending_per_peer ?q then ?t else ?t - of_nat (min ?k (card ?es)))"
  have sat: "events_to_evict_for_peer ?q (card ?es) 1 = ?k"
    using le lt by (simp add: events_to_evict_for_peer_def saturating_add_def usize_max_def)
  have keep: "?es - set (take ?k (sorted_list_of_set ?es)) = keep_latest (max_pending_per_peer ?q - 1) ?es"
    if "\<not> card ?es < max_pending_per_peer ?q"
  proof (cases "max_pending_per_peer ?q = 0")
    case True
    then show ?thesis using fin by (simp add: keep_latest_def)
  next
    case False
    then have "?k = card ?es - (max_pending_per_peer ?q - 1)" using that by simp
    then show ?thesis by (simp only: keep_latest_def)
  qed
  have fin': "finite es'" using fin by (auto simp: es'_def keep_latest_def)
  have um: "unat m + card ?es = unat ?t + card es'" and m_le: "unat m \<le> unat ?t"
    using le fin unat_minus_of_nat[of "min ?k (card ?es)" ?t]
    by (auto simp: m_def es'_def card_keep_latest)
  have "mark_pending key p e s = (Inr (), s\<lparr>ps_pending := (ps_pending s)(key p \<mapsto> insert e es'),
      ps_total_count := (if e \<in> es' then m else m + 1)\<rparr>)"
    using room sat keep fin card_minus_select(2)[OF fin, of ?k]
    by (auto simp: mark_pending_def Let_def es'_def m_def would_exceed_peer_quota_def evict_eq select_eq
        events_at_def[symmetric])
  moreover have "insert e es' = admit ?q e ?es" by (simp add: admit_def es'_def)
  moreover have "unat (if e \<in> es' then m else m + 1) + card ?es = unat ?t + card (insert e es')"
    using um fin' m_le lt by (auto simp: insert_absorb unat_plus_1)
  ultimately show ?thesis by metis
qed

lemma card_admit: "finite es \<Longrightarrow> card (admit q e es) \<le> max 1 (max_pending_per_peer q)"
  by (auto simp: admit_def card_insert_if card_keep_latest finite_keep_latest)

lemma finite_admit: "finite es \<Longrightarrow> finite (admit q e es)"
  by (auto simp: admit_def keep_latest_def)

lemma card_admit_le: "finite es \<Longrightarrow> card (admit q e es) \<le> card es + 1"
  by (auto simp: admit_def card_insert_if card_keep_latest finite_keep_latest)

lemma mark_pending_ok: "pending_ok s \<Longrightarrow> pending_ok (snd (mark_pending key p e s))"
proof (cases "would_exceed_total_quota (ps_quota s) (unat (ps_total_count s))")
  case False
  assume ok: "pending_ok s"
  let ?es = "events_at (ps_pending s) (key p)"
  note fin = pending_okD(2)[OF ok, of "key p"]
  from mark_pending_eq[OF ok False, of key p e] obtain n where
    eq: "mark_pending key p e s =
      (Inr (), s\<lparr>ps_pending := (ps_pending s)(key p \<mapsto> admit (ps_quota s) e ?es), ps_total_count := n\<rparr>)"
    and n: "unat n + card ?es = unat (ps_total_count s) + card (admit (ps_quota s) e ?es)" by blast
  have "unat n \<le> max_total_pending (ps_quota s)"
    using n card_admit_le[OF fin, of "ps_quota s" e] False by (simp add: would_exceed_total_quota_def)
  then show ?thesis
    using pending_ok_upd[OF ok finite_admit[OF fin] card_admit[OF fin] n] by (simp add: eq)
qed (simp add: mark_pending_full)

lemma mark_delivered_up_to_eq:
  fixes u :: event_id
  assumes "finite (events_at (ps_pending s) (key p))"
  defines "gone \<equiv> {i \<in> events_at (ps_pending s) (key p). sender_hash i = sender_hash u \<and> sequence_no i \<le> sequence_no u}"
  shows "mark_delivered_up_to key p u s = (Inr (), case ps_pending s (key p) of None \<Rightarrow> s
    | Some es \<Rightarrow> s\<lparr>ps_pending := (ps_pending s)(key p \<mapsto> es - gone), ps_total_count := ps_total_count s - of_nat (card gone)\<rparr>)"
proof (cases "ps_pending s (key p)")
  case (Some es)
  let ?P = "\<lambda>i. sender_hash i = sender_hash u \<and> sequence_no i \<le> sequence_no u"
  have es: "events_at (ps_pending s) (key p) = es" using Some by (simp add: events_at_def)
  have gone: "gone = {i \<in> es. ?P i}" by (simp add: gone_def es)
  have removed: "set (filter ?P (sorted_list_of_set es)) = gone" using assms(1) by (auto simp: es gone)
  have "distinct (filter ?P (sorted_list_of_set es))" by simp
  from distinct_card[OF this] have len: "length (filter ?P (sorted_list_of_set es)) = card gone"
    unfolding removed by (rule sym)
  show ?thesis
    unfolding mark_delivered_up_to_def Let_def Some option.case remove_all_eq removed len
    by (cases s) simp
qed (simp add: mark_delivered_up_to_def)

lemma pending_ok_remove:
  assumes ok: "pending_ok s" and k: "ps_pending s k = Some es" and "gone \<subseteq> es"
  shows "pending_ok (s\<lparr>ps_pending := (ps_pending s)(k \<mapsto> es - gone), ps_total_count := ps_total_count s - of_nat (card gone)\<rparr>)"
proof -
  have es: "events_at (ps_pending s) k = es" using k by (simp add: events_at_def)
  have fin: "finite es" and "finite gone" and le: "card es \<le> max 1 (max_pending_per_peer (ps_quota s))"
    using pending_okD(2,3)[OF ok, of k] assms(3) finite_subset by (auto simp: es)
  have "card gone \<le> card es" using fin assms(3) by (rule card_mono)
  moreover have "card es \<le> unat (ps_total_count s)"
    using events_at_le[OF pending_okD(1)[OF ok], of k] pending_okD(4)[OF ok] by (simp add: es)
  ultimately have "unat (ps_total_count s - of_nat (card gone)) = unat (ps_total_count s) - card gone"
    and "card gone \<le> unat (ps_total_count s)"
    by (simp_all add: unat_minus_of_nat)
  then show ?thesis
    using pending_okD(4,5)[OF ok] \<open>finite gone\<close> \<open>card gone \<le> card es\<close> fin le assms(3)
    by (intro pending_ok_upd[OF ok]) (auto simp: es card_Diff_subset)
qed

lemma mark_delivered_ok: "pending_ok s \<Longrightarrow> pending_ok (snd (mark_delivered key p e s))"
  using pending_ok_remove[of s "key p" _ "{e}"]
  by (auto simp: mark_delivered_def split: option.splits)

lemma mark_delivered_up_to_ok: "pending_ok s \<Longrightarrow> pending_ok (snd (mark_delivered_up_to key p e s))"
  by (subst mark_delivered_up_to_eq, erule pending_okD(2))
    (auto simp: events_at_def split: option.splits intro!: pending_ok_remove)

lemma clear_pending_ok:
  assumes ok: "pending_ok s"
  shows "pending_ok (snd (clear_pending key p s))"
proof (cases "ps_pending s (key p)")
  case (Some es)
  have "card es \<le> unat (ps_total_count s)" and
    "pending_count ((ps_pending s)(key p := None)) + card es = unat (ps_total_count s)"
    using Some events_at_le[OF pending_okD(1)[OF ok], of "key p"] pending_okD(4)[OF ok]
      pending_count_del[OF pending_okD(1)[OF ok], of "key p"] by (simp_all add: events_at_def)
  with Some ok show ?thesis
    by (auto simp: clear_pending_def pending_ok_def unat_minus_of_nat)
qed (use ok in \<open>simp add: clear_pending_def\<close>)

section \<open>Calls\<close>

datatype 'i pending_call =
  MarkPending 'i event_id | MarkDelivered 'i event_id | MarkDeliveredUpTo 'i event_id | ClearPending 'i

fun pending_run :: "('i \<Rightarrow> bytes) \<Rightarrow> 'i pending_call \<Rightarrow> pending_store \<Rightarrow> pending_store" where
  "pending_run key (MarkPending p e) s = snd (mark_pending key p e s)"
| "pending_run key (MarkDelivered p e) s = snd (mark_delivered key p e s)"
| "pending_run key (MarkDeliveredUpTo p e) s = snd (mark_delivered_up_to key p e s)"
| "pending_run key (ClearPending p) s = snd (clear_pending key p s)"

lemma pending_run_ok: "pending_ok s \<Longrightarrow> pending_ok (fold (pending_run key) calls s)"
proof (induction calls arbitrary: s)
  case (Cons c calls)
  have "pending_ok (pending_run key c s)"
    using Cons.prems
    by (cases c) (simp_all add: mark_pending_ok mark_delivered_ok mark_delivered_up_to_ok clear_pending_ok)
  then show ?case using Cons.IH by simp
qed simp

lemma pending_run_quota: "ps_quota (pending_run key c s) = ps_quota s"
  by (cases c) (auto simp: mark_pending_def mark_delivered_def mark_delivered_up_to_def clear_pending_def
      Let_def split: option.splits prod.splits)

lemma pending_fold_quota: "ps_quota (fold (pending_run key) calls s) = ps_quota s"
  by (induction calls arbitrary: s) (simp_all add: pending_run_quota)


definition ex_quota :: quota_manager where
  "ex_quota = new_quota 2 3"

lemmas pending_eval =
  pending_for_def mark_pending_def mark_delivered_def pending_with_quota_def ex_quota_def new_quota_def
  would_exceed_total_quota_def would_exceed_peer_quota_def select_for_eviction_def events_to_evict_for_peer_def
  saturating_add_def usize_max_def evict_eq events_at_def less_eq_event_id_def Let_def word_le_nat_alt insert_Diff_if

definition ex_calls :: "bytes pending_call list" where
  "ex_calls = [MarkPending [1] (EventId 1 2), MarkPending [2] (EventId 1 1), MarkDelivered [2] (EventId 1 1),
     MarkPending [1] (EventId 1 3), MarkPending [1] (EventId 1 4)]"

lemma ex_calls_pending:
  "fst (pending_for id [1] (fold (pending_run id) ex_calls (pending_with_quota ex_quota))) =
     Inr [EventId 1 3, EventId 1 4]"
  by (simp add: ex_calls_def pending_eval)


text \<open>
  C19: Each call of the pending store does to the events of its peer what it should and nothing to
  those of other peers: marking adds the event, at the peer quota after dropping the smallest
  identifiers so that one place is free; delivery removes the event; delivery up to an event
  removes those of its sender with at most its sequence number; clearing removes all.
  At the total quota marking fails and changes nothing.
\<close>

theorem pending_refines:
  assumes "pending_ok s"
  shows "(if total_pending s < max_total_pending (ps_quota s)
      then fst (mark_pending key p e s) = Inr () \<and>
        events_at (ps_pending (snd (mark_pending key p e s))) =
          (events_at (ps_pending s))(key p := admit (ps_quota s) e (events_at (ps_pending s) (key p)))
      else mark_pending key p e s = (Inl CapacityExceeded, s)) \<and>
    events_at (ps_pending (snd (mark_delivered key p e s))) =
      (events_at (ps_pending s))(key p := events_at (ps_pending s) (key p) - {e}) \<and>
    events_at (ps_pending (snd (mark_delivered_up_to key p e s))) =
      (events_at (ps_pending s))(key p := {i \<in> events_at (ps_pending s) (key p).
         \<not> (sender_hash i = sender_hash e \<and> sequence_no i \<le> sequence_no e)}) \<and>
    events_at (ps_pending (snd (clear_pending key p s))) = (events_at (ps_pending s))(key p := {})"
proof (intro conjI)
  have room: "total_pending s < max_total_pending (ps_quota s) \<longleftrightarrow>
      \<not> would_exceed_total_quota (ps_quota s) (unat (ps_total_count s))"
    by (auto simp: total_pending_def would_exceed_total_quota_def)
  show "if total_pending s < max_total_pending (ps_quota s)
      then fst (mark_pending key p e s) = Inr () \<and>
        events_at (ps_pending (snd (mark_pending key p e s))) =
          (events_at (ps_pending s))(key p := admit (ps_quota s) e (events_at (ps_pending s) (key p)))
      else mark_pending key p e s = (Inl CapacityExceeded, s)"
  proof (cases "would_exceed_total_quota (ps_quota s) (unat (ps_total_count s))")
    case False
    from mark_pending_eq[OF assms False, of key p e] obtain n where
      "mark_pending key p e s = (Inr (), s\<lparr>ps_pending := (ps_pending s)(key p \<mapsto>
         admit (ps_quota s) e (events_at (ps_pending s) (key p))), ps_total_count := n\<rparr>)" by blast
    then show ?thesis using False by (simp add: room fun_eq_iff) (simp add: events_at_def)
  qed (simp add: room mark_pending_full)
  show "events_at (ps_pending (snd (mark_delivered key p e s))) =
      (events_at (ps_pending s))(key p := events_at (ps_pending s) (key p) - {e})"
    by (auto simp: mark_delivered_def fun_eq_iff events_at_def split: option.splits)
  show "events_at (ps_pending (snd (mark_delivered_up_to key p e s))) =
      (events_at (ps_pending s))(key p := {i \<in> events_at (ps_pending s) (key p).
         \<not> (sender_hash i = sender_hash e \<and> sequence_no i \<le> sequence_no e)})"
    by (subst mark_delivered_up_to_eq, rule pending_okD(2)[OF assms])
      (auto simp: fun_eq_iff events_at_def split: option.splits)
  show "events_at (ps_pending (snd (clear_pending key p s))) = (events_at (ps_pending s))(key p := {})"
    by (auto simp: clear_pending_def fun_eq_iff events_at_def split: option.splits)
qed

theorem pending_refines_witness:
  "events_at (ps_pending (snd (mark_pending id [1] (EventId 1 7) (pending_with_quota ex_quota)))) [1] = {EventId 1 7}"
proof -
  have ok: "pending_ok (pending_with_quota ex_quota)"
    by (simp add: pending_ok_def pending_with_quota_def pending_count_def ex_quota_def new_quota_def)
  show ?thesis
    using pending_refines[OF ok, of id "[1]" "EventId 1 7"]
    by (simp add: total_pending_def pending_with_quota_def ex_quota_def new_quota_def admit_def events_at_def)
qed

text \<open>
  At the peer quota \<open>mark_pending\<close> makes room before it looks whether the event is already
  pending: marking a pending event again drops another one.
\<close>

lemma remark_loses_event:
  "events_at (ps_pending (fold (pending_run id)
     [MarkPending [1] (EventId 1 1), MarkPending [1] (EventId 1 2), MarkPending [1] (EventId 1 2)]
     (pending_with_quota ex_quota))) [1] = {EventId 1 2}"
  by (auto simp: pending_eval)

end
