(* ===== verification/Packet_Store.thy ===== *)
theory Packet_Store
  imports Pending_Store
begin

text \<open>
  The \<open>PacketStore\<close> interface of \<open>indras-core\<close> (\<open>src/traits.rs\<close>) and its in-memory
  implementation in \<open>indras-storage\<close> (\<open>src/memory.rs\<close>), which keeps an index from destinations
  to packet identifiers. The locale \<open>packet_storage\<close> is the contract the router relies on.
\<close>

section \<open>The interface\<close>

datatype core_storage_error =
  CoreIo string | CorePacketNotFound string | CoreCapacityExceeded | CoreSerialization string | CoreDeserialization string

record ('i, 's) packet_store_ops =
  st_store :: "'i packet \<Rightarrow> ('s, core_storage_error, unit) op"
  st_retrieve :: "packet_id \<Rightarrow> ('s, core_storage_error, 'i packet option) op"
  st_pending_for :: "'i \<Rightarrow> ('s, core_storage_error, 'i packet list) op"
  st_delete :: "packet_id \<Rightarrow> ('s, core_storage_error, unit) op"
  st_all_packets :: "('s, core_storage_error, 'i packet set) op"
  st_count :: "('s, core_storage_error, nat) op"
  st_clear :: "('s, core_storage_error, unit) op"

section \<open>The in-memory packet store\<close>

record 'i packet_store =
  pks_packets :: "packet_id \<rightharpoonup> 'i packet"
  pks_by_destination :: "bytes \<rightharpoonup> packet_id set"

definition new_packet_store :: "'i packet_store" where
  "new_packet_store = \<lparr>pks_packets = Map.empty, pks_by_destination = Map.empty\<rparr>"

definition mem_store :: "('i \<Rightarrow> bytes) \<Rightarrow> 'i packet \<Rightarrow> ('i packet_store, core_storage_error, unit) op" where
  "mem_store key p s =
    (let k = key (pk_destination p);
         ids = (case pks_by_destination s k of None \<Rightarrow> {} | Some ids \<Rightarrow> ids)
     in (Inr (), s\<lparr>pks_by_destination := (pks_by_destination s)(k \<mapsto> insert (pk_id p) ids),
                   pks_packets := (pks_packets s)(pk_id p \<mapsto> p)\<rparr>))"

definition mem_retrieve :: "packet_id \<Rightarrow> ('i packet_store, core_storage_error, 'i packet option) op" where
  "mem_retrieve i s = (Inr (pks_packets s i), s)"

definition mem_pending_for :: "('i \<Rightarrow> bytes) \<Rightarrow> 'i \<Rightarrow> ('i packet_store, core_storage_error, 'i packet list) op" where
  "mem_pending_for key d s =
    (Inr (case pks_by_destination s (key d) of
       Some ids \<Rightarrow> List.map_filter (pks_packets s) (sorted_list_of_set ids)
     | None \<Rightarrow> []), s)"

definition mem_delete :: "('i \<Rightarrow> bytes) \<Rightarrow> packet_id \<Rightarrow> ('i packet_store, core_storage_error, unit) op" where
  "mem_delete key i s =
    (Inr (), case pks_packets s i of
       None \<Rightarrow> s
     | Some p \<Rightarrow>
        let s' = s\<lparr>pks_packets := (pks_packets s)(i := None)\<rparr>; k = key (pk_destination p)
        in case pks_by_destination s' k of
             None \<Rightarrow> s'
           | Some ids \<Rightarrow> s'\<lparr>pks_by_destination := (pks_by_destination s')(k \<mapsto> ids - {i})\<rparr>)"

definition mem_all_packets :: "('i packet_store, core_storage_error, 'i packet set) op" where
  "mem_all_packets s = (Inr (ran (pks_packets s)), s)"

definition mem_count :: "('i packet_store, core_storage_error, nat) op" where
  "mem_count s = (Inr (card (dom (pks_packets s))), s)"

definition mem_clear :: "('i packet_store, core_storage_error, unit) op" where
  "mem_clear s = (Inr (), s\<lparr>pks_packets := Map.empty, pks_by_destination := Map.empty\<rparr>)"

definition in_memory_packets :: "('i \<Rightarrow> bytes) \<Rightarrow> ('i, 'i packet_store) packet_store_ops" where
  "in_memory_packets key =
    \<lparr>st_store = mem_store key, st_retrieve = mem_retrieve, st_pending_for = mem_pending_for key,
     st_delete = mem_delete key, st_all_packets = mem_all_packets, st_count = mem_count, st_clear = mem_clear\<rparr>"

section \<open>The contract\<close>

text \<open>
  A packet store is a map from identifiers to packets; the packets pending for a destination are
  those of the map with the key of that destination. Storing under an identifier in use is
  covered when the destination stays the same.
\<close>

definition same_destination :: "('i \<Rightarrow> bytes) \<Rightarrow> (packet_id \<rightharpoonup> 'i packet) \<Rightarrow> 'i packet \<Rightarrow> bool" where
  "same_destination key m p \<longleftrightarrow>
    (case m (pk_id p) of None \<Rightarrow> True | Some q \<Rightarrow> key (pk_destination q) = key (pk_destination p))"

locale packet_storage =
  fixes S :: "('i, 's) packet_store_ops" and key :: "'i \<Rightarrow> bytes"
    and inv :: "'s \<Rightarrow> bool" and held :: "'s \<Rightarrow> (packet_id \<rightharpoonup> 'i packet)"
  assumes store_law: "inv s \<Longrightarrow> same_destination key (held s) p \<Longrightarrow> st_store S p s = (r, s') \<Longrightarrow>
      inv s' \<and> held s' = (case r of Inl _ \<Rightarrow> held s | Inr _ \<Rightarrow> (held s)(pk_id p \<mapsto> p))"
    and delete_law: "inv s \<Longrightarrow> st_delete S i s = (r, s') \<Longrightarrow>
      inv s' \<and> held s' = (case r of Inl _ \<Rightarrow> held s | Inr _ \<Rightarrow> (held s)(i := None))"
    and pending_law: "inv s \<Longrightarrow> st_pending_for S d s = (Inr ps, s') \<Longrightarrow>
      s' = s \<and> set ps = {p \<in> ran (held s). key (pk_destination p) = key d}"
    and keyed: "inv s \<Longrightarrow> key_matches pk_id (held s)"
begin

lemma stored_is_pending:
  assumes "inv s" and "same_destination key (held s) p" and "st_store S p s = (Inr (), s')"
    and "st_pending_for S (pk_destination p) s' = (Inr ps, s'')"
  shows "p \<in> set ps"
  using store_law[OF assms(1-3)] pending_law[OF _ assms(4)] by (auto simp: ran_def)

lemma deleted_not_pending:
  assumes "inv s" and "st_delete S i s = (Inr (), s')" and "st_pending_for S d s' = (Inr ps, s'')" and "p \<in> set ps"
  shows "pk_id p \<noteq> i"
proof -
  have "inv s'" and held: "held s' = (held s)(i := None)" using delete_law[OF assms(1,2)] by auto
  moreover from this have "p \<in> ran (held s')" using pending_law[OF _ assms(3)] assms(4) by blast
  ultimately show ?thesis using keyed[of s'] by (auto simp: ran_def key_matches_def split: if_splits)
qed

end

section \<open>The in-memory store keeps the contract\<close>

definition index_ok :: "('i \<Rightarrow> bytes) \<Rightarrow> 'i packet_store \<Rightarrow> bool" where
  "index_ok key s \<longleftrightarrow> key_matches pk_id (pks_packets s) \<and> finite (dom (pks_packets s)) \<and>
     (\<forall>k. (case pks_by_destination s k of None \<Rightarrow> {} | Some ids \<Rightarrow> ids) =
       {i. \<exists>p. pks_packets s i = Some p \<and> key (pk_destination p) = k})"

lemma index_ok_ids:
  assumes "index_ok key s" and "pks_by_destination s k = Some ids"
  shows "ids = {i. \<exists>p. pks_packets s i = Some p \<and> key (pk_destination p) = k}" and "finite ids"
proof -
  show eq: "ids = {i. \<exists>p. pks_packets s i = Some p \<and> key (pk_destination p) = k}"
    using assms unfolding index_ok_def by (metis (mono_tags, lifting) option.simps(5))
  have "ids \<subseteq> dom (pks_packets s)" by (auto simp: eq)
  then show "finite ids" using assms(1) by (auto simp: index_ok_def intro: finite_subset)
qed

lemma mem_store_ok:
  assumes ok: "index_ok key s" and same: "same_destination key (pks_packets s) p"
  shows "index_ok key (snd (mem_store key p s))"
proof -
  have *: "pks_packets s (pk_id p) = Some q \<Longrightarrow> key (pk_destination q) = key (pk_destination p)" for q
    using same by (simp add: same_destination_def)
  let ?ids = "\<lambda>k. case pks_by_destination s k of None \<Rightarrow> {} | Some ids \<Rightarrow> ids"
  have "?ids k = {i. \<exists>p. pks_packets s i = Some p \<and> key (pk_destination p) = k}" for k
    using ok by (simp add: index_ok_def)
  then show ?thesis
    using ok * by (auto simp: index_ok_def mem_store_def Let_def)
qed

lemma mem_delete_ok:
  assumes ok: "index_ok key s"
  shows "index_ok key (snd (mem_delete key i s))"
proof (cases "pks_packets s i")
  case (Some p)
  let ?k = "key (pk_destination p)"
  have ids: "(case pks_by_destination s k of None \<Rightarrow> {} | Some ids \<Rightarrow> ids) =
      {i. \<exists>p. pks_packets s i = Some p \<and> key (pk_destination p) = k}" for k
    using ok by (simp add: index_ok_def)
  from ids[of ?k] Some obtain js where js: "pks_by_destination s ?k = Some js"
    by (cases "pks_by_destination s ?k") auto
  have "(case ((pks_by_destination s)(?k \<mapsto> js - {i})) k of None \<Rightarrow> {} | Some ids \<Rightarrow> ids) =
      {j. \<exists>q. ((pks_packets s)(i := None)) j = Some q \<and> key (pk_destination q) = k}" for k
    using ids[of k] js Some by (cases "k = ?k") auto
  then show ?thesis
    using ok Some js by (simp add: index_ok_def mem_delete_def)
qed (use ok in \<open>simp add: mem_delete_def\<close>)

lemma mem_pending_for_eq:
  assumes "index_ok key s"
  shows "mem_pending_for key d s = (Inr (map (the \<circ> pks_packets s)
    (sorted_list_of_set {i. \<exists>p. pks_packets s i = Some p \<and> key (pk_destination p) = key d})), s)"
proof (cases "pks_by_destination s (key d)")
  case None
  have "(case pks_by_destination s (key d) of None \<Rightarrow> {} | Some ids \<Rightarrow> ids) =
       {i. \<exists>p. pks_packets s i = Some p \<and> key (pk_destination p) = key d}"
    using assms unfolding index_ok_def by blast
  then have empty: "{i. \<exists>p. pks_packets s i = Some p \<and> key (pk_destination p) = key d} = {}"
    unfolding None option.case by (rule sym)
  show ?thesis unfolding mem_pending_for_def None option.case empty by simp
next
  case (Some ids)
  note ids = index_ok_ids[OF assms Some]
  have "x \<in> ids \<Longrightarrow> pks_packets s x \<noteq> None" for x using ids(1) by auto
  then show ?thesis
    unfolding mem_pending_for_def Some option.case ids(1)[symmetric]
    using ids(2) by (simp add: List.map_filter_def filter_True)
qed

lemma the_image: "(\<lambda>i. the (m i)) ` {i. \<exists>p. m i = Some p \<and> P p} = {p \<in> ran m. P p}"
proof (intro equalityI subsetI)
  fix p assume "p \<in> {p \<in> ran m. P p}"
  then obtain i where "m i = Some p" and "P p" by (auto simp: ran_def)
  then show "p \<in> (\<lambda>i. the (m i)) ` {i. \<exists>p. m i = Some p \<and> P p}" by (intro image_eqI[of _ _ i]) auto
qed (auto simp: ran_def)

interpretation mp: packet_storage "in_memory_packets key" key "index_ok key" pks_packets for key
proof
  fix s s' :: "'a packet_store" and p r i d ps
  assume ok: "index_ok key s"
  show "key_matches pk_id (pks_packets s)" using ok by (simp add: index_ok_def)
  show "st_delete (in_memory_packets key) i s = (r, s') \<Longrightarrow>
      index_ok key s' \<and> pks_packets s' = (case r of Inl _ \<Rightarrow> pks_packets s | Inr _ \<Rightarrow> (pks_packets s)(i := None))"
    using mem_delete_ok[OF ok, of i]
    by (auto simp: in_memory_packets_def mem_delete_def Let_def fun_eq_iff split: option.splits)
  show "index_ok key s' \<and> pks_packets s' =
      (case r of Inl _ \<Rightarrow> pks_packets s | Inr _ \<Rightarrow> (pks_packets s)(pk_id p \<mapsto> p))"
    if "same_destination key (pks_packets s) p" and "st_store (in_memory_packets key) p s = (r, s')"
    using mem_store_ok[OF ok that(1)] that(2) by (auto simp: in_memory_packets_def mem_store_def Let_def)
  show "s' = s \<and> set ps = {p \<in> ran (pks_packets s). key (pk_destination p) = key d}"
    if "st_pending_for (in_memory_packets key) d s = (Inr ps, s')"
  proof -
    let ?ids = "{i. \<exists>p. pks_packets s i = Some p \<and> key (pk_destination p) = key d}"
    have "?ids \<subseteq> dom (pks_packets s)" by auto
    then have "finite ?ids" using ok by (auto simp: index_ok_def intro: finite_subset)
    then show ?thesis
      using that by (auto simp: in_memory_packets_def mem_pending_for_eq[OF ok] the_image)
  qed
qed

section \<open>Properties\<close>

datatype 'i packet_call = Store "'i packet" | Delete packet_id | Clear

fun packet_run :: "('i \<Rightarrow> bytes) \<Rightarrow> 'i packet_call \<Rightarrow> 'i packet_store \<Rightarrow> 'i packet_store" where
  "packet_run key (Store p) s = snd (mem_store key p s)"
| "packet_run key (Delete i) s = snd (mem_delete key i s)"
| "packet_run key Clear s = snd (mem_clear s)"

text \<open>The specification: a plain map.\<close>

fun packet_spec :: "'i packet_call \<Rightarrow> (packet_id \<rightharpoonup> 'i packet) \<Rightarrow> (packet_id \<rightharpoonup> 'i packet)" where
  "packet_spec (Store p) m = m(pk_id p \<mapsto> p)"
| "packet_spec (Delete i) m = m(i := None)"
| "packet_spec Clear m = Map.empty"

fun keeps_destinations :: "('i \<Rightarrow> bytes) \<Rightarrow> 'i packet_call list \<Rightarrow> (packet_id \<rightharpoonup> 'i packet) \<Rightarrow> bool" where
  "keeps_destinations key [] m \<longleftrightarrow> True"
| "keeps_destinations key (c # cs) m \<longleftrightarrow>
    (case c of Store p \<Rightarrow> same_destination key m p | _ \<Rightarrow> True) \<and> keeps_destinations key cs (packet_spec c m)"

lemma packet_run_refines:
  assumes "index_ok key s" and "case c of Store p \<Rightarrow> same_destination key (pks_packets s) p | _ \<Rightarrow> True"
  shows "index_ok key (packet_run key c s) \<and> pks_packets (packet_run key c s) = packet_spec c (pks_packets s)"
proof (cases c)
  case (Store p)
  then show ?thesis using mem_store_ok[OF assms(1), of p] assms(2) by (simp add: mem_store_def Let_def)
next
  case (Delete i)
  then show ?thesis using mem_delete_ok[OF assms(1), of i]
    by (auto simp: mem_delete_def Let_def fun_eq_iff split: option.splits)
next
  case Clear
  then show ?thesis by (simp add: mem_clear_def index_ok_def)
qed

lemma packet_fold_refines:
  "index_ok key s \<Longrightarrow> keeps_destinations key cs (pks_packets s) \<Longrightarrow>
   index_ok key (fold (packet_run key) cs s) \<and>
   pks_packets (fold (packet_run key) cs s) = fold packet_spec cs (pks_packets s)"
proof (induction cs arbitrary: s)
  case (Cons c cs)
  from packet_run_refines[OF Cons.prems(1), of c] Cons.prems(2) have
    "index_ok key (packet_run key c s)" and eq: "pks_packets (packet_run key c s) = packet_spec c (pks_packets s)"
    by auto
  from Cons.IH[OF this(1)] Cons.prems(2) eq show ?case by simp
qed simp

lemma packet_run_map: "pks_packets (packet_run key c s) = packet_spec c (pks_packets s)"
  by (cases c) (auto simp: mem_store_def mem_delete_def mem_clear_def Let_def fun_eq_iff split: option.splits)

lemma packet_fold_map: "pks_packets (fold (packet_run key) cs s) = fold packet_spec cs (pks_packets s)"
  by (induction cs arbitrary: s) (simp_all add: packet_run_map)

text \<open>
  The indexed packet store refines a plain map. After any sequence of calls retrieval reads the map and the count is the
  size of the map. If in addition no call stored a packet under an identifier in use with another
  destination, the packets pending for a destination are exactly those of the map with
  that destination, in the order of their identifiers and each once.
\<close>

theorem packet_store_refines:
  assumes "s = fold (packet_run key) calls new_packet_store" and "m = fold packet_spec calls Map.empty"
  shows "mem_retrieve i s = (Inr (m i), s) \<and> mem_count s = (Inr (card (dom m)), s) \<and>
    (keeps_destinations key calls Map.empty \<longrightarrow> mem_pending_for key d s = (Inr (map (the \<circ> m)
      (sorted_list_of_set {i. \<exists>p. m i = Some p \<and> key (pk_destination p) = key d})), s))"
proof -
  have map: "pks_packets s = m" unfolding assms packet_fold_map by (simp add: new_packet_store_def)
  have "index_ok key (new_packet_store :: 'a packet_store)" by (simp add: index_ok_def new_packet_store_def)
  from packet_fold_refines[OF this, of calls] have "keeps_destinations key calls Map.empty \<longrightarrow> index_ok key s"
    by (simp add: assms(1) new_packet_store_def)
  with map show ?thesis by (simp add: mem_retrieve_def mem_count_def mem_pending_for_eq)
qed

definition ex_packet :: "u64 \<Rightarrow> bytes \<Rightarrow> bytes packet" where
  "ex_packet n d = new_packet (\<lambda>_. 0) 0 [] (EventId 0 n) [1] d (plaintext []) []"

theorem packet_store_refines_witness:
  "fst (mem_pending_for id [2] (fold (packet_run id)
     [Store (ex_packet 7 [2]), Store (ex_packet 8 [3]), Delete (EventId 0 8)] new_packet_store)) = Inr [ex_packet 7 [2]]"
proof -
  let ?calls = "[Store (ex_packet 7 [2]), Store (ex_packet 8 [3]), Delete (EventId 0 8)]"
  have k: "keeps_destinations id ?calls Map.empty"
    by (simp add: same_destination_def ex_packet_def new_packet_def)
  have "{i. \<exists>p. fold packet_spec ?calls Map.empty i = Some p \<and> pk_destination p = [2]} = {EventId 0 7}"
    by (auto simp: ex_packet_def new_packet_def split: if_splits)
  then show ?thesis
    using packet_store_refines[OF refl refl, of _ id ?calls "[2]"] k by (simp add: ex_packet_def new_packet_def)
qed

text \<open>
  Storing another packet under an identifier in use leaves the old index entry behind, so the
  packet is returned for a destination that is not its own.
\<close>

lemma stale_index_entry:
  "fst (mem_pending_for id [2] (fold (packet_run id) [Store (ex_packet 7 [2]), Store (ex_packet 7 [3])] new_packet_store)) =
     Inr [ex_packet 7 [3]]"
  by (simp add: mem_pending_for_def mem_store_def new_packet_store_def ex_packet_def new_packet_def List.map_filter_def Let_def)

end
