(* ===== verification/Router.thy ===== *)
theory Router
  imports Routing Packet_Store
begin

text \<open>
  The store-and-forward router, \<open>indras-routing/src/router.rs\<close>. The topology is a field of the
  router; the packet store is a field together with the operations \<open>S\<close> of the interface
  \<open>PacketStore\<close>, which the router is generic over. Log output is left out.
\<close>

datatype core_routing_error =
  CoreNoRoute | CoreTtlExpired | CoreAlreadyVisited | CoreDestinationNotFound | CoreTimeout u64

datatype routing_error =
    Core core_routing_error | StorageFailed | BackPropTimeout | InvalidRouteState string
  | TopologyError string | RouteCacheMiss | RouteStale | NoRelayCandidates

record ('i, 's) router =
  r_topology :: "'i topology"
  r_storage :: 's
  r_tracker :: "'i mutual_tracker"
  r_table :: "'i routing_table"
  r_backprop :: "'i backprop_manager"

definition new_router :: "'i topology \<Rightarrow> 's \<Rightarrow> ('i, 's) router" where
  "new_router T st =
    \<lparr>r_topology = T, r_storage = st, r_tracker = Map.empty,
     r_table = new_table (300 * 10 ^ 9), r_backprop = new_backprop_manager (30 * 10 ^ 9)\<rparr>"

definition router_with_timeouts :: "'i topology \<Rightarrow> 's \<Rightarrow> nat \<Rightarrow> nat \<Rightarrow> ('i, 's) router" where
  "router_with_timeouts T st route_stale_timeout backprop_timeout =
    \<lparr>r_topology = T, r_storage = st, r_tracker = Map.empty,
     r_table = new_table route_stale_timeout, r_backprop = new_backprop_manager backprop_timeout\<rparr>"

definition on_peer_connect ::
  "('i \<Rightarrow> bytes) \<Rightarrow> ('i set \<Rightarrow> 'i list) \<Rightarrow> 'i \<Rightarrow> 'i \<Rightarrow> ('i, 's) router \<Rightarrow> ('i, 's) router" where
  "on_peer_connect key ord a b r = r\<lparr>r_tracker := on_connect key ord (r_topology r) a b (r_tracker r)\<rparr>"

definition on_peer_disconnect :: "('i \<Rightarrow> bytes) \<Rightarrow> 'i \<Rightarrow> 'i \<Rightarrow> ('i, 's) router \<Rightarrow> ('i, 's) router" where
  "on_peer_disconnect key a b r = r\<lparr>r_tracker := on_disconnect key a b (r_tracker r)\<rparr>"

text \<open>A call of the store, with its errors replaced by \<open>StorageFailed\<close>.\<close>

definition on_storage :: "('s, core_storage_error, 'a) op \<Rightarrow> (('i, 's) router, routing_error, 'a) op" where
  "on_storage m r =
    (case m (r_storage r) of
       (Inl _, st) \<Rightarrow> (Inl StorageFailed, r\<lparr>r_storage := st\<rparr>)
     | (Inr x, st) \<Rightarrow> (Inr x, r\<lparr>r_storage := st\<rparr>))"

definition store_packet ::
  "('i, 's) packet_store_ops \<Rightarrow> 'i packet \<Rightarrow> (('i, 's) router, routing_error, unit) op" where
  "store_packet S p = on_storage (st_store S p)"

definition get_pending ::
  "('i, 's) packet_store_ops \<Rightarrow> 'i \<Rightarrow> (('i, 's) router, routing_error, 'i packet list) op" where
  "get_pending S d = on_storage (st_pending_for S d)"

definition delete_packet ::
  "('i, 's) packet_store_ops \<Rightarrow> 'i packet \<Rightarrow> (('i, 's) router, routing_error, unit) op" where
  "delete_packet S p = on_storage (st_delete S (pk_id p))"

definition router_start_backprop :: "nat \<Rightarrow> 'i packet \<Rightarrow> 'i list \<Rightarrow> ('i, 's) router \<Rightarrow> ('i, 's) router" where
  "router_start_backprop now p path r = r\<lparr>r_backprop := start_backprop now (pk_id p) path (r_backprop r)\<rparr>"

definition check_backprop_timeouts :: "nat \<Rightarrow> ('i, 's) router \<Rightarrow> packet_id set" where
  "check_backprop_timeouts now r = check_timeouts now (r_backprop r)"

definition prune_stale_routes :: "int \<Rightarrow> ('i, 's) router \<Rightarrow> ('i, 's) router" where
  "prune_stale_routes now r = r\<lparr>r_table := prune_stale now (r_table r)\<rparr>"

definition filter_relays :: "('i \<Rightarrow> u64) \<Rightarrow> ('i, 's) router \<Rightarrow> 'i list \<Rightarrow> 'i packet \<Rightarrow> 'i list" where
  "filter_relays h r relays p = filter (\<lambda>x. tp_online (r_topology r) x \<and> \<not> was_visited h x p) relays"

text \<open>The loop that adds the mutual peers to the routing hints.\<close>

fun add_candidates :: "'i list \<Rightarrow> 'i list \<Rightarrow> 'i list" where
  "add_candidates cs [] = cs"
| "add_candidates cs (x # xs) = add_candidates (if x \<in> set cs then cs else cs @ [x]) xs"

definition route ::
  "('i \<Rightarrow> u64) \<Rightarrow> ('i \<Rightarrow> bytes) \<Rightarrow> ('i, 's) packet_store_ops \<Rightarrow> 'i packet \<Rightarrow> 'i \<Rightarrow>
   (('i, 's) router, core_routing_error, 'i routing_decision) op" where
  "route h key S p current r =
    (let dest = pk_destination p; T = r_topology r in
     if pk_ttl p = 0 then (Inr (Drop TtlExpired), r)
     else if tp_online T dest \<and> tp_connected T current dest then (Inr (DirectDelivery dest), r)
     else if \<not> tp_online T dest \<and> tp_connected T current dest then
       (case st_store S p (r_storage r) of
          (Inl _, st) \<Rightarrow> (Inl CoreNoRoute, r\<lparr>r_storage := st\<rparr>)
        | (Inr _, st) \<Rightarrow> (Inr HoldForLater, r\<lparr>r_storage := st\<rparr>))
     else
       let candidates = add_candidates (pk_routing_hints p) (get_relays_for key (r_tracker r) current dest);
           online_relays = filter_relays h r candidates p
       in if online_relays \<noteq> [] then (Inr (RelayThrough online_relays), r)
          else (Inr (Drop NoRoute), r))"

section \<open>Properties\<close>

lemma set_add_candidates: "set (add_candidates cs xs) = set cs \<union> set xs"
  by (induction cs xs rule: add_candidates.induct) auto

lemma add_candidates_append: "\<exists>ys. add_candidates cs xs = cs @ ys"
proof (induction cs xs rule: add_candidates.induct)
  case (2 cs x xs)
  then show ?case by (auto split: if_splits)
qed simp

text \<open>
  C30: The decision of the router, on every branch: a packet whose hops are used up is dropped
  whatever the topology; otherwise it goes directly to a connected destination that is online
  and is stored for one that is offline; for a destination that is not connected the next hops
  are exactly the online peers among the hints and the cached mutual peers that have not seen
  the packet, hints first, and without any of them the packet is dropped. Only the offline
  branch touches the store, and only there a failing store makes routing fail.
\<close>

theorem route_decision:
  "\<exists>hops. set hops = {x \<in> set (pk_routing_hints p) \<union> set (get_relays_for key (r_tracker r) current (pk_destination p)).
        tp_online (r_topology r) x \<and> \<not> was_visited h x p} \<and>
      take (length (filter_relays h r (pk_routing_hints p) p)) hops = filter_relays h r (pk_routing_hints p) p \<and>
      route h key S p current r =
       (if pk_ttl p = 0 then (Inr (Drop TtlExpired), r)
        else if tp_connected (r_topology r) current (pk_destination p) then
          if tp_online (r_topology r) (pk_destination p) then (Inr (DirectDelivery (pk_destination p)), r)
          else (case store_packet S p r of (Inl _, r') \<Rightarrow> (Inl CoreNoRoute, r') | (Inr _, r') \<Rightarrow> (Inr HoldForLater, r'))
        else if hops = [] then (Inr (Drop NoRoute), r) else (Inr (RelayThrough hops), r))"
proof (intro exI conjI)
  let ?rel = "get_relays_for key (r_tracker r) current (pk_destination p)"
  let ?hops = "filter_relays h r (add_candidates (pk_routing_hints p) ?rel) p"
  show "set ?hops = {x \<in> set (pk_routing_hints p) \<union> set ?rel. tp_online (r_topology r) x \<and> \<not> was_visited h x p}"
    by (auto simp: filter_relays_def set_add_candidates)
  obtain ys where "add_candidates (pk_routing_hints p) ?rel = pk_routing_hints p @ ys"
    using add_candidates_append by blast
  then show "take (length (filter_relays h r (pk_routing_hints p) p)) ?hops = filter_relays h r (pk_routing_hints p) p"
    by (simp add: filter_relays_def)
  obtain x st where "st_store S p (r_storage r) = (x, st)" by (cases "st_store S p (r_storage r)")
  then show "route h key S p current r =
     (if pk_ttl p = 0 then (Inr (Drop TtlExpired), r)
      else if tp_connected (r_topology r) current (pk_destination p) then
        if tp_online (r_topology r) (pk_destination p) then (Inr (DirectDelivery (pk_destination p)), r)
        else (case store_packet S p r of (Inl _, r') \<Rightarrow> (Inl CoreNoRoute, r') | (Inr _, r') \<Rightarrow> (Inr HoldForLater, r'))
      else if ?hops = [] then (Inr (Drop NoRoute), r) else (Inr (RelayThrough ?hops), r))"
    by (cases x) (simp_all add: route_def Let_def store_packet_def on_storage_def)
qed

text \<open>The router on top of any store that keeps the contract.\<close>

context packet_storage
begin

lemma held_packet_pending:
  assumes "inv (r_storage r)" and "same_destination key (held (r_storage r)) p"
    and "route h key' S p current r = (Inr HoldForLater, r')"
    and "get_pending S (pk_destination p) r' = (Inr ps, r'')"
  shows "p \<in> set ps"
proof -
  obtain x st where st: "st_store S p (r_storage r) = (x, st)" by (cases "st_store S p (r_storage r)")
  with assms(3) have "x = Inr ()" and r': "r' = r\<lparr>r_storage := st\<rparr>"
    by (auto simp: route_def Let_def split: if_splits sum.splits)
  moreover obtain y st' where "st_pending_for S (pk_destination p) st = (y, st')"
    by (cases "st_pending_for S (pk_destination p) st")
  moreover from this have "y = Inr ps"
    using assms(4) by (auto simp: get_pending_def on_storage_def r' split: sum.splits)
  ultimately show ?thesis using stored_is_pending[OF assms(1,2)] st by blast
qed

lemma deleted_packet_gone:
  assumes "inv (r_storage r)" and "delete_packet S p r = (Inr (), r')"
    and "get_pending S d r' = (Inr ps, r'')" and "q \<in> set ps"
  shows "pk_id q \<noteq> pk_id p"
proof -
  obtain x st where st: "st_delete S (pk_id p) (r_storage r) = (x, st)" by (cases "st_delete S (pk_id p) (r_storage r)")
  with assms(2) have "x = Inr ()" and r': "r' = r\<lparr>r_storage := st\<rparr>"
    by (auto simp: delete_packet_def on_storage_def split: sum.splits)
  moreover obtain y st' where "st_pending_for S d st = (y, st')" by (cases "st_pending_for S d st")
  moreover from this have "y = Inr ps"
    using assms(3) by (auto simp: get_pending_def on_storage_def r' split: sum.splits)
  ultimately show ?thesis using deleted_not_pending[OF assms(1)] st assms(4) by blast
qed

end

text \<open>
  With the in-memory packet store a held packet is pending: routing to a connected destination
  that is offline succeeds with \<open>HoldForLater\<close>, the packet is then among the packets
  pending for its destination, and deleting it takes exactly it away.
\<close>

lemma held_until_deleted:
  assumes "index_ok key (r_storage r)" and "same_destination key (pks_packets (r_storage r)) p"
    and "pk_ttl p \<noteq> 0" and "tp_connected (r_topology r) current (pk_destination p)"
    and "\<not> tp_online (r_topology r) (pk_destination p)"
    and "route h key (in_memory_packets key) p current r = (d, r')"
    and "get_pending (in_memory_packets key) (pk_destination p) r' = (Inr ps, r1)"
    and "delete_packet (in_memory_packets key) p r' = (x, r2)"
    and "get_pending (in_memory_packets key) (pk_destination p) r2 = (Inr qs, r3)"
  shows "d = Inr HoldForLater \<and> p \<in> set ps \<and> set qs = {q \<in> set ps. pk_id q \<noteq> pk_id p}"
proof -
  have st: "st_store (in_memory_packets key) p (r_storage r) = (Inr (), snd (mem_store key p (r_storage r)))"
    by (simp add: in_memory_packets_def mem_store_def Let_def)
  have d: "d = Inr HoldForLater" and r': "r' = r\<lparr>r_storage := snd (mem_store key p (r_storage r))\<rparr>"
    using assms(3-6) st by (auto simp: route_def Let_def)
  then have ok: "index_ok key (r_storage r')" using mem_store_ok[OF assms(1,2)] by simp
  have x: "x = Inr ()" and r2: "r2 = r'\<lparr>r_storage := snd (mem_delete key (pk_id p) (r_storage r'))\<rparr>"
    using assms(8) by (auto simp: delete_packet_def on_storage_def in_memory_packets_def mem_delete_def)
  have ok2: "index_ok key (r_storage r2)" using mem_delete_ok[OF ok] r2 by simp
  have pks2: "pks_packets (r_storage r2) = (pks_packets (r_storage r'))(pk_id p := None)"
    by (auto simp: r2 mem_delete_def Let_def fun_eq_iff split: option.splits)
  have pend: "set ps' = {q \<in> ran (pks_packets (r_storage t)). key (pk_destination q) = key (pk_destination p)}"
    if "index_ok key (r_storage t)" "get_pending (in_memory_packets key) (pk_destination p) t = (Inr ps', t')" for t t' ps'
    using that mp.pending_law[OF that(1), of "pk_destination p" ps' "r_storage t"]
    by (auto simp: get_pending_def on_storage_def in_memory_packets_def mem_pending_for_def)
  have key: "key_matches pk_id (pks_packets (r_storage r'))" using ok by (simp add: index_ok_def)
  have "ran ((pks_packets (r_storage r'))(pk_id p := None)) = {q \<in> ran (pks_packets (r_storage r')). pk_id q \<noteq> pk_id p}"
    using key by (force simp: ran_def key_matches_def)
  then have "set qs = {q \<in> set ps. pk_id q \<noteq> pk_id p}"
    using pend[OF ok assms(7)] pend[OF ok2 assms(9)] by (auto simp: pks2)
  moreover have "p \<in> set ps" using mp.held_packet_pending[OF assms(1,2) _ assms(7)] assms(6) d by blast
  ultimately show ?thesis using d by auto
qed

definition ex_router :: "(bytes, bytes packet_store) router" where
  "ex_router = new_router \<lparr>tp_neighbors = (\<lambda>_. []), tp_connected = (\<lambda>_ _. True), tp_online = (\<lambda>x. x \<noteq> [2])\<rparr> new_packet_store"

lemma held_until_deleted_witness:
  "fst (route (\<lambda>_. 0) id (in_memory_packets id) (ex_packet 7 [2]) [1] ex_router) = Inr HoldForLater \<and>
   fst (get_pending (in_memory_packets id) [2]
     (snd (route (\<lambda>_. 0) id (in_memory_packets id) (ex_packet 7 [2]) [1] ex_router))) = Inr [ex_packet 7 [2]]"
proof -
  let ?S = "in_memory_packets id :: (bytes, bytes packet_store) packet_store_ops" and ?p = "ex_packet 7 [2]"
  let ?r' = "snd (route (\<lambda>_. 0) id ?S ?p [1] ex_router)"
  let ?r2 = "snd (delete_packet ?S ?p ?r')"
  note defs = ex_router_def new_router_def ex_packet_def new_packet_def in_memory_packets_def mem_store_def
    new_packet_store_def route_def get_pending_def delete_packet_def on_storage_def mem_pending_for_def mem_delete_def Let_def
  have got: "fst (get_pending ?S [2] ?r') = Inr [?p]" by (simp add: defs List.map_filter_def)
  then have ps: "get_pending ?S (pk_destination ?p) ?r' = (Inr [?p], snd (get_pending ?S [2] ?r'))"
    by (metis (no_types) ex_packet_def new_packet_def packet.select_convs(3) prod.collapse)
  have "fst (get_pending ?S [2] ?r2) = Inr []" by (simp add: defs List.map_filter_def)
  then have qs: "get_pending ?S (pk_destination ?p) ?r2 = (Inr [], snd (get_pending ?S [2] ?r2))"
    by (metis (no_types) ex_packet_def new_packet_def packet.select_convs(3) prod.collapse)
  have "index_ok id (r_storage ex_router)" by (simp add: index_ok_def ex_router_def new_router_def new_packet_store_def)
  moreover have "same_destination id (pks_packets (r_storage ex_router)) ?p"
    by (simp add: same_destination_def ex_router_def new_router_def new_packet_store_def)
  moreover have "pk_ttl ?p \<noteq> 0" "tp_connected (r_topology ex_router) [1] (pk_destination ?p)"
    "\<not> tp_online (r_topology ex_router) (pk_destination ?p)"
    by (simp_all add: ex_router_def new_router_def ex_packet_def new_packet_def)
  ultimately show ?thesis
    using held_until_deleted[OF _ _ _ _ _ prod.collapse[symmetric] ps prod.collapse[symmetric] qs] got by blast
qed

text \<open>
  The tracker caches the mutual peers of connected pairs, but \<open>route\<close> asks for those of a pair
  that is not connected: while every disconnection is announced, the hints of the packet are
  the only relays.
\<close>

lemma only_hints_relay:
  assumes "\<And>a b. \<not> tp_connected (r_topology r) a b \<Longrightarrow> r_tracker r (make_key key a b) = None"
    and "route h key S p current r = (Inr (RelayThrough hops), r')"
  shows "set hops \<subseteq> set (pk_routing_hints p)"
proof -
  have nc: "\<not> tp_connected (r_topology r) current (pk_destination p)"
    using assms(2) by (auto simp: route_def Let_def split: if_splits sum.splits prod.splits)
  then have "get_relays_for key (r_tracker r) current (pk_destination p) = []"
    by (simp add: get_relays_for_def assms(1))
  with nc assms(2) show ?thesis
    by (auto simp: route_def Let_def filter_relays_def split: if_splits)
qed

end
