(* ===== verification/Prophet.thy ===== *)
theory Prophet
  imports Complex_Main Prelude
begin

text \<open>
  PRoPHET delivery probabilities, \<open>indras-dtn/src/prophet.rs\<close>. A finite \<open>f64\<close> is a rational
  number and the code only adds, subtracts and multiplies, so a floating point operation is the
  exact rational operation followed by the rounding \<open>rnd\<close>, an argument of the model. Of it the
  properties assume what IEEE 754 says of every rounding mode: it is monotone, it keeps
  values that are representable, and zero and one are. NaN and the infinities, which a peer could report, are outside the model.
\<close>

type_synonym f64 = rat

record prophet_config =
  initial_probability :: f64
  aging_constant :: f64
  transitivity_constant :: f64
  decay_interval :: nat
  max_probability :: f64
  min_probability :: f64

definition default_prophet :: "(f64 \<Rightarrow> f64) \<Rightarrow> prophet_config" where
  "default_prophet rnd =
    \<lparr>initial_probability = rnd (75 / 100), aging_constant = rnd (98 / 100), transitivity_constant = rnd (25 / 100),
     decay_interval = 3600 * 10 ^ 9, max_probability = rnd (99 / 100), min_probability = rnd (1 / 100)\<rparr>"

record probability_entry =
  pe_probability :: f64
  pe_last_updated :: int
  pe_last_encounter :: "int option"

definition entry_new :: "int \<Rightarrow> f64 \<Rightarrow> probability_entry" where
  "entry_new now p = \<lparr>pe_probability = p, pe_last_updated = now, pe_last_encounter = None\<rparr>"

definition entry_with_encounter :: "int \<Rightarrow> f64 \<Rightarrow> probability_entry" where
  "entry_with_encounter now p = \<lparr>pe_probability = p, pe_last_updated = now, pe_last_encounter = Some now\<rparr>"

record 'i prophet_state =
  pr_local_id :: 'i
  pr_probabilities :: "'i \<rightharpoonup> probability_entry"
  pr_config :: prophet_config
  pr_last_aging :: int

definition new_prophet :: "int \<Rightarrow> 'i \<Rightarrow> prophet_config \<Rightarrow> 'i prophet_state" where
  "new_prophet now i cfg =
    \<lparr>pr_local_id = i, pr_probabilities = Map.empty, pr_config = cfg, pr_last_aging = now\<rparr>"

definition get_probability :: "'i prophet_state \<Rightarrow> 'i \<Rightarrow> f64" where
  "get_probability s d = (case pr_probabilities s d of None \<Rightarrow> 0 | Some e \<Rightarrow> pe_probability e)"

definition all_probabilities :: "('i set \<Rightarrow> 'i list) \<Rightarrow> 'i prophet_state \<Rightarrow> ('i \<times> f64) list" where
  "all_probabilities ord s = map (\<lambda>i. (i, get_probability s i)) (ord (dom (pr_probabilities s)))"

definition encounter :: "(f64 \<Rightarrow> f64) \<Rightarrow> int \<Rightarrow> 'i \<Rightarrow> 'i prophet_state \<Rightarrow> 'i prophet_state" where
  "encounter rnd now p s =
    (if p = pr_local_id s then s
     else
      let new_prob =
        (case pr_probabilities s p of
           Some e \<Rightarrow>
             let p_old = pe_probability e;
                 p_new = rnd (p_old + rnd (rnd (1 - p_old) * initial_probability (pr_config s)))
             in min p_new (max_probability (pr_config s))
         | None \<Rightarrow> initial_probability (pr_config s))
      in s\<lparr>pr_probabilities := (pr_probabilities s)(p \<mapsto> entry_with_encounter now new_prob)\<rparr>)"

text \<open>One destination of the loop of \<open>transitive_update\<close>.\<close>

definition transitive_entry ::
  "(f64 \<Rightarrow> f64) \<Rightarrow> int \<Rightarrow> f64 \<Rightarrow> 'i \<Rightarrow> 'i \<times> f64 \<Rightarrow> 'i prophet_state \<Rightarrow> 'i prophet_state" where
  "transitive_entry rnd now p_to_intermediary intermediary x s =
    (let (dst, p_int_to_dest) = x in
     if dst = pr_local_id s \<or> dst = intermediary then s
     else
      let p_old = get_probability s dst;
          transitive_prob = rnd (rnd (p_to_intermediary * p_int_to_dest) * transitivity_constant (pr_config s));
          p_new = rnd (p_old + rnd (rnd (1 - p_old) * transitive_prob));
          p_capped = min p_new (max_probability (pr_config s))
      in if p_capped > p_old
         then s\<lparr>pr_probabilities := (pr_probabilities s)(dst \<mapsto>
            (case pr_probabilities s dst of
               Some e \<Rightarrow> e\<lparr>pe_probability := p_capped, pe_last_updated := now\<rparr>
             | None \<Rightarrow> entry_new now p_capped))\<rparr>
         else s)"

definition transitive_update ::
  "(f64 \<Rightarrow> f64) \<Rightarrow> int \<Rightarrow> 'i \<Rightarrow> ('i \<times> f64) list \<Rightarrow> 'i prophet_state \<Rightarrow> 'i prophet_state" where
  "transitive_update rnd now intermediary probs s =
    (let p = get_probability s intermediary in
     if p \<le> min_probability (pr_config s) then s
     else fold (transitive_entry rnd now p intermediary) probs s)"

definition age_all :: "(f64 \<Rightarrow> f64) \<Rightarrow> int \<Rightarrow> 'i prophet_state \<Rightarrow> 'i prophet_state" where
  "age_all rnd now s =
    (if now - pr_last_aging s < int (decay_interval (pr_config s)) then s
     else s\<lparr>pr_last_aging := now,
            pr_probabilities := (\<lambda>i. case pr_probabilities s i of
               None \<Rightarrow> None
             | Some e \<Rightarrow>
                if rnd (pe_probability e * aging_constant (pr_config s)) < min_probability (pr_config s) then None
                else Some (e\<lparr>pe_probability := rnd (pe_probability e * aging_constant (pr_config s)),
                             pe_last_updated := now\<rparr>))\<rparr>)"

definition force_age :: "(f64 \<Rightarrow> f64) \<Rightarrow> int \<Rightarrow> 'i prophet_state \<Rightarrow> 'i prophet_state" where
  "force_age rnd now s = age_all rnd now (s\<lparr>pr_last_aging := now - int (decay_interval (pr_config s)) * 2\<rparr>)"

text \<open>\<open>Iterator::max_by\<close> keeps the later of two elements unless the earlier one is greater.\<close>

fun max_by :: "('a \<Rightarrow> f64) \<Rightarrow> 'a list \<Rightarrow> 'a option" where
  "max_by f [] = None"
| "max_by f (x # xs) = Some (foldl (\<lambda>best y. if f best > f y then best else y) x xs)"

definition best_candidate :: "'i prophet_state \<Rightarrow> 'i \<Rightarrow> 'i list \<Rightarrow> 'i option" where
  "best_candidate s dst candidates =
    (case max_by (get_probability s) (filter (\<lambda>c. c \<noteq> pr_local_id s \<and> c \<noteq> dst) candidates) of
       None \<Rightarrow> None
     | Some best \<Rightarrow> if get_probability s best > get_probability s dst then Some best else None)"

definition should_forward_to :: "'i prophet_state \<Rightarrow> 'i \<Rightarrow> 'i \<Rightarrow> bool" where
  "should_forward_to s dst candidate \<longleftrightarrow>
    \<not> (candidate = pr_local_id s \<or> candidate = dst) \<and> get_probability s candidate > get_probability s dst"

definition known_destinations :: "'i prophet_state \<Rightarrow> nat" where
  "known_destinations s = card (dom (pr_probabilities s))"

definition prophet_clear :: "'i prophet_state \<Rightarrow> 'i prophet_state" where
  "prophet_clear s = s\<lparr>pr_probabilities := Map.empty\<rparr>"

record 'i prophet_summary =
  sm_node_id :: 'i
  sm_probabilities :: "('i \<times> f64) list"

definition summary_from_state :: "('i set \<Rightarrow> 'i list) \<Rightarrow> 'i prophet_state \<Rightarrow> 'i prophet_summary" where
  "summary_from_state ord s = \<lparr>sm_node_id = pr_local_id s, sm_probabilities = all_probabilities ord s\<rparr>"

section \<open>Choosing a relay\<close>

lemma foldl_max_in: "foldl (\<lambda>best y. if f best > f y then best else y) x xs \<in> set (x # xs)"
proof (induction xs arbitrary: x)
  case (Cons y xs)
  let ?w = "if f x > f y then x else y"
  have "foldl (\<lambda>best y. if f best > f y then best else y) ?w xs \<in> set (?w # xs)" by (rule Cons.IH)
  moreover have "?w \<in> {x, y}" by simp
  ultimately show ?case by auto
qed simp

lemma foldl_max_ge:
  fixes f :: "'a \<Rightarrow> f64"
  shows "y \<in> set (x # xs) \<Longrightarrow> f y \<le> f (foldl (\<lambda>best y. if f best > f y then best else y) x xs)"
proof (induction xs arbitrary: x y)
  case (Cons z xs)
  let ?w = "if f x > f z then x else z"
  have "f ?w \<le> f (foldl (\<lambda>best y. if f best > f y then best else y) ?w xs)" by (rule Cons.IH) simp
  moreover have "f x \<le> f ?w" "f z \<le> f ?w" by auto
  moreover have "y \<in> set xs \<Longrightarrow> ?case" using Cons.IH[of y ?w] by simp
  ultimately show ?case using Cons.prems by fastforce
qed simp

lemma max_by_Some: "max_by f xs = Some m \<Longrightarrow> m \<in> set xs \<and> (\<forall>y \<in> set xs. f y \<le> f m)"
  using foldl_max_in[of f "hd xs" "tl xs"] foldl_max_ge[of _ "hd xs" "tl xs" f]
  by (cases xs) auto

lemma max_by_None: "max_by f xs = None \<longleftrightarrow> xs = []"
  by (cases xs) auto

lemma best_candidate_Some:
  assumes "best_candidate s d cs = Some c"
  shows "c \<in> set cs" and "should_forward_to s d c"
    and "\<And>x. x \<in> set cs \<Longrightarrow> should_forward_to s d x \<Longrightarrow> get_probability s x \<le> get_probability s c"
proof -
  let ?cs = "filter (\<lambda>c. c \<noteq> pr_local_id s \<and> c \<noteq> d) cs"
  from assms have "max_by (get_probability s) ?cs = Some c" and gt: "get_probability s c > get_probability s d"
    by (auto simp: best_candidate_def split: option.splits if_splits)
  from max_by_Some[OF this(1)] have c: "c \<in> set ?cs" and max: "\<forall>y \<in> set ?cs. get_probability s y \<le> get_probability s c"
    by blast+
  from c gt show "c \<in> set cs" "should_forward_to s d c" by (simp_all add: should_forward_to_def)
  show "get_probability s x \<le> get_probability s c" if "x \<in> set cs" and "should_forward_to s d x" for x
    using max that by (simp add: should_forward_to_def)
qed

lemma best_candidate_None:
  assumes "best_candidate s d cs = None" and "x \<in> set cs"
  shows "\<not> should_forward_to s d x"
proof
  assume f: "should_forward_to s d x"
  let ?cs = "filter (\<lambda>c. c \<noteq> pr_local_id s \<and> c \<noteq> d) cs"
  from f assms(2) have x: "x \<in> set ?cs" by (auto simp: should_forward_to_def)
  then obtain m where m: "max_by (get_probability s) ?cs = Some m" by (cases ?cs) auto
  from max_by_Some[OF m] x have "get_probability s x \<le> get_probability s m" by blast
  with f m assms(1) show False by (auto simp: best_candidate_def should_forward_to_def split: if_splits)
qed

text \<open>
  The chosen relay is one of the candidates that qualify and has the greatest probability
  among them; there is none exactly when no candidate qualifies.
\<close>

theorem best_candidate_optimal:
  "case best_candidate s d cs of
     None \<Rightarrow> filter (should_forward_to s d) cs = []
   | Some c \<Rightarrow> c \<in> set (filter (should_forward_to s d) cs) \<and>
       get_probability s c = Max (get_probability s ` set (filter (should_forward_to s d) cs))"
proof (cases "best_candidate s d cs")
  case None
  then show ?thesis using best_candidate_None[OF None] by (auto simp: filter_empty_conv)
next
  case (Some c)
  note c = best_candidate_Some[OF Some]
  have "Max (get_probability s ` set (filter (should_forward_to s d) cs)) = get_probability s c"
    by (rule Max_eqI) (use c in auto)
  with Some c show ?thesis by auto
qed

section \<open>Bounds on probabilities\<close>

text \<open>What the properties assume of the rounding of floating point results, and of a configuration.\<close>

definition rounding :: "(f64 \<Rightarrow> f64) \<Rightarrow> bool" where
  "rounding rnd \<longleftrightarrow> mono rnd \<and> (\<forall>x. rnd (rnd x) = rnd x) \<and> rnd 0 = 0 \<and> rnd 1 = 1"

definition config_ok :: "(f64 \<Rightarrow> f64) \<Rightarrow> prophet_config \<Rightarrow> bool" where
  "config_ok rnd c \<longleftrightarrow>
     rnd (initial_probability c) = initial_probability c \<and> rnd (max_probability c) = max_probability c \<and>
     0 \<le> initial_probability c \<and> initial_probability c \<le> max_probability c \<and> max_probability c \<le> 1 \<and>
     0 \<le> transitivity_constant c \<and> 0 \<le> aging_constant c \<and> aging_constant c \<le> 1 \<and> 0 \<le> min_probability c"

definition prophet_ok :: "(f64 \<Rightarrow> f64) \<Rightarrow> 'i prophet_state \<Rightarrow> bool" where
  "prophet_ok rnd s \<longleftrightarrow> config_ok rnd (pr_config s) \<and>
     (\<forall>i e. pr_probabilities s i = Some e \<longrightarrow> i \<noteq> pr_local_id s \<and> rnd (pe_probability e) = pe_probability e \<and>
        0 \<le> pe_probability e \<and> pe_probability e \<le> max_probability (pr_config s))"

lemma rnd_bounds:
  assumes "rounding rnd"
  shows "0 \<le> x \<Longrightarrow> 0 \<le> rnd x" and "x \<le> 1 \<Longrightarrow> rnd x \<le> 1" and "rnd y = y \<Longrightarrow> y \<le> x \<Longrightarrow> y \<le> rnd x"
    and "rnd y = y \<Longrightarrow> x \<le> y \<Longrightarrow> rnd x \<le> y" and "rnd (rnd x) = rnd x"
proof -
  have m: "x \<le> y \<Longrightarrow> rnd x \<le> rnd y" for x y using assms by (auto simp: rounding_def dest: monoD)
  have "rnd 0 = 0" and "rnd 1 = 1" and "rnd (rnd x) = rnd x" using assms by (auto simp: rounding_def)
  with m[of 0 x] m[of x 1] m[of y x] m[of x y] show "0 \<le> x \<Longrightarrow> 0 \<le> rnd x" "x \<le> 1 \<Longrightarrow> rnd x \<le> 1"
    "rnd y = y \<Longrightarrow> y \<le> x \<Longrightarrow> y \<le> rnd x" "rnd y = y \<Longrightarrow> x \<le> y \<Longrightarrow> rnd x \<le> y" "rnd (rnd x) = rnd x" by simp_all
qed

text \<open>The update \<open>P + (1 - P) * q\<close> of encounters and transitivity, capped.\<close>

lemma raise_bounds:
  assumes r: "rounding rnd" and p: "rnd p = p" "0 \<le> p" "p \<le> m" and m: "rnd m = m" "m \<le> 1" and q: "0 \<le> q"
  defines "p' \<equiv> min (rnd (p + rnd (rnd (1 - p) * q))) m"
  shows "p \<le> p'" and "p' \<le> m" and "rnd p' = p'" and "0 \<le> p'"
proof -
  have "0 \<le> rnd (rnd (1 - p) * q)" by (intro rnd_bounds(1)[OF r] mult_nonneg_nonneg q) (use p m in linarith)
  then have "p \<le> rnd (p + rnd (rnd (1 - p) * q))" by (intro rnd_bounds(3)[OF r] p) linarith
  with p(3) show "p \<le> p'" by (simp add: p'_def)
  with p(2) show "0 \<le> p'" by linarith
  show "p' \<le> m" by (simp add: p'_def)
  show "rnd p' = p'" using m rnd_bounds(5)[OF r] by (simp add: p'_def min_def)
qed

lemma prophet_okD:
  assumes "prophet_ok rnd s"
  shows "config_ok rnd (pr_config s)" and "rnd 0 = 0 \<Longrightarrow> rnd (get_probability s i) = get_probability s i"
    and "0 \<le> get_probability s i" and "get_probability s i \<le> max_probability (pr_config s)"
  using assms by (auto simp: prophet_ok_def get_probability_def config_ok_def split: option.splits)

lemma rounding_0: "rounding rnd \<Longrightarrow> rnd 0 = 0"
  by (simp add: rounding_def)

lemma get_probability_upd:
  "get_probability (s\<lparr>pr_probabilities := (pr_probabilities s)(j \<mapsto> e)\<rparr>) i =
     (if i = j then pe_probability e else get_probability s i)"
  by (simp add: get_probability_def)

lemma encounter_ok:
  assumes r: "rounding rnd" and ok: "prophet_ok rnd s"
  shows "prophet_ok rnd (encounter rnd now p s)" and "get_probability s i \<le> get_probability (encounter rnd now p s) i"
proof -
  let ?c = "pr_config s"
  have c: "rnd (initial_probability ?c) = initial_probability ?c" "rnd (max_probability ?c) = max_probability ?c"
    "0 \<le> initial_probability ?c" "initial_probability ?c \<le> max_probability ?c" "max_probability ?c \<le> 1"
    using ok by (auto simp: prophet_ok_def config_ok_def)
  note b = raise_bounds[OF r _ _ _ c(2,5,3)]
  show "prophet_ok rnd (encounter rnd now p s)"
    using ok b c by (auto simp: prophet_ok_def encounter_def Let_def entry_with_encounter_def split: option.splits)
  show "get_probability s i \<le> get_probability (encounter rnd now p s) i"
    using ok b(1) c by (auto simp: prophet_ok_def encounter_def Let_def entry_with_encounter_def get_probability_def
        split: option.splits)
qed

lemma transitive_entry_ok:
  assumes r: "rounding rnd" and ok: "prophet_ok rnd s" and q: "0 \<le> q" "0 \<le> snd x"
  shows "prophet_ok rnd (transitive_entry rnd now q m x s)"
    and "get_probability s i \<le> get_probability (transitive_entry rnd now q m x s) i"
proof -
  let ?c = "pr_config s"
  obtain d y where x: "x = (d, y)" by (cases x)
  have c: "rnd (max_probability ?c) = max_probability ?c" "max_probability ?c \<le> 1" "0 \<le> transitivity_constant ?c"
    using ok by (auto simp: prophet_ok_def config_ok_def)
  have t: "0 \<le> rnd (rnd (q * y) * transitivity_constant ?c)"
    using q c by (intro rnd_bounds(1)[OF r] mult_nonneg_nonneg) (simp_all add: x)
  have r0: "rnd 0 = 0" using r by (rule rounding_0)
  note b = raise_bounds[OF r prophet_okD(2)[OF ok r0] prophet_okD(3,4)[OF ok] c(1,2) t, of d]
  show "prophet_ok rnd (transitive_entry rnd now q m x s)"
    using ok b(2-4) by (auto simp: x prophet_ok_def transitive_entry_def Let_def entry_new_def split: option.splits)
  show "get_probability s i \<le> get_probability (transitive_entry rnd now q m x s) i"
    by (auto simp: x transitive_entry_def Let_def get_probability_upd entry_new_def split: option.splits)
qed

lemma transitive_fold_ok:
  assumes r: "rounding rnd" and q: "0 \<le> q"
  shows "prophet_ok rnd s \<Longrightarrow> list_all (\<lambda>x. 0 \<le> snd x) xs \<Longrightarrow>
    prophet_ok rnd (fold (transitive_entry rnd now q m) xs s) \<and>
    get_probability s i \<le> get_probability (fold (transitive_entry rnd now q m) xs s) i"
proof (induction xs arbitrary: s)
  case (Cons x xs)
  from Cons.prems have x: "0 \<le> snd x" and xs: "list_all (\<lambda>x. 0 \<le> snd x) xs" by auto
  note e = transitive_entry_ok[OF r Cons.prems(1) q x, where now = now and m = m]
  from Cons.IH[OF e(1) xs] e(2)[of i] show ?case by (auto intro: order_trans)
qed simp

lemma age_all_ok:
  assumes r: "rounding rnd" and ok: "prophet_ok rnd s"
  shows "prophet_ok rnd (age_all rnd now s)" and "get_probability (age_all rnd now s) i \<le> get_probability s i"
proof -
  let ?c = "pr_config s"
  have c: "0 \<le> aging_constant ?c" "aging_constant ?c \<le> 1" using ok by (auto simp: prophet_ok_def config_ok_def)
  have b: "0 \<le> rnd (pe_probability e * aging_constant ?c) \<and>
      rnd (pe_probability e * aging_constant ?c) \<le> pe_probability e \<and>
      rnd (rnd (pe_probability e * aging_constant ?c)) = rnd (pe_probability e * aging_constant ?c)"
    if "pr_probabilities s i = Some e" for i e
  proof -
    have e: "rnd (pe_probability e) = pe_probability e" "0 \<le> pe_probability e" using ok that by (auto simp: prophet_ok_def)
    then show ?thesis using c rnd_bounds[OF r] by (auto simp: mult_left_le)
  qed
  show "prophet_ok rnd (age_all rnd now s)"
    using ok b by (fastforce simp: prophet_ok_def age_all_def split: option.splits if_splits)
  show "get_probability (age_all rnd now s) i \<le> get_probability s i"
    using ok b[of i] by (auto simp: prophet_ok_def age_all_def get_probability_def split: option.splits)
qed

datatype 'i prophet_call =
  Encounter int 'i | TransitiveUpdate int 'i "('i \<times> f64) list" | AgeAll int | ForceAge int | ClearAll

fun prophet_run :: "(f64 \<Rightarrow> f64) \<Rightarrow> 'i prophet_call \<Rightarrow> 'i prophet_state \<Rightarrow> 'i prophet_state" where
  "prophet_run rnd (Encounter now p) s = encounter rnd now p s"
| "prophet_run rnd (TransitiveUpdate now m probs) s = transitive_update rnd now m probs s"
| "prophet_run rnd (AgeAll now) s = age_all rnd now s"
| "prophet_run rnd (ForceAge now) s = force_age rnd now s"
| "prophet_run rnd ClearAll s = prophet_clear s"

fun reports_ok :: "'i prophet_call \<Rightarrow> bool" where
  "reports_ok (TransitiveUpdate now m probs) = list_all (\<lambda>x. 0 \<le> snd x) probs"
| "reports_ok _ = True"

lemma transitive_update_ok:
  assumes "rounding rnd" and "prophet_ok rnd s" and "list_all (\<lambda>x. 0 \<le> snd x) xs"
  shows "prophet_ok rnd (transitive_update rnd now m xs s)"
    and "get_probability s i \<le> get_probability (transitive_update rnd now m xs s) i"
  using transitive_fold_ok[OF assms(1) prophet_okD(3)[OF assms(2)] assms(2,3)] assms(2)
  by (auto simp: transitive_update_def Let_def)

lemma force_age_ok:
  assumes "rounding rnd" and "prophet_ok rnd s"
  shows "prophet_ok rnd (force_age rnd now s)" and "get_probability (force_age rnd now s) i \<le> get_probability s i"
proof -
  let ?s = "s\<lparr>pr_last_aging := now - int (decay_interval (pr_config s)) * 2\<rparr>"
  have "prophet_ok rnd ?s" and "get_probability ?s i = get_probability s i"
    using assms(2) by (simp_all add: prophet_ok_def get_probability_def)
  then show "prophet_ok rnd (force_age rnd now s)" "get_probability (force_age rnd now s) i \<le> get_probability s i"
    using age_all_ok[OF assms(1), of ?s now] unfolding force_age_def by metis+
qed

lemma prophet_run_ok:
  assumes r: "rounding rnd"
  shows "prophet_ok rnd s \<Longrightarrow> list_all reports_ok calls \<Longrightarrow> prophet_ok rnd (fold (prophet_run rnd) calls s)"
proof (induction calls arbitrary: s)
  case (Cons c calls)
  have "prophet_ok rnd (prophet_run rnd c s)"
  proof (cases c)
    case (TransitiveUpdate now m probs)
    then show ?thesis using Cons.prems by (simp add: transitive_update_ok(1)[OF r])
  qed (use Cons.prems in \<open>simp_all add: encounter_ok(1)[OF r] age_all_ok(1)[OF r] force_age_ok(1)[OF r]\<close>,
    simp add: prophet_clear_def prophet_ok_def)
  with Cons.IH Cons.prems show ?case by simp
qed simp

text \<open>
  With constants between zero and one and an initial probability that is at most the maximum, for non-negative reports and under any rounding,
  delivery probabilities stay
  between zero and the configured maximum and a node keeps none for itself; meeting a peer and
  transitive updates never lower a probability, aging never raises one.
\<close>

lemma prophet_bounds:
  assumes "rounding rnd" and "config_ok rnd c" and "list_all reports_ok calls"
    and "s = fold (prophet_run rnd) calls (new_prophet t0 i c)" and "list_all (\<lambda>x. 0 \<le> snd x) probs"
  shows "0 \<le> get_probability s d \<and> get_probability s d \<le> max_probability (pr_config s) \<and>
    get_probability s (pr_local_id s) = 0 \<and>
    get_probability s d \<le> get_probability (encounter rnd now p s) d \<and>
    get_probability s d \<le> get_probability (transitive_update rnd now p probs s) d \<and>
    get_probability (age_all rnd now s) d \<le> get_probability s d"
proof -
  have "prophet_ok rnd (new_prophet t0 i c)" using assms(2) by (simp add: prophet_ok_def new_prophet_def)
  from prophet_run_ok[OF assms(1) this assms(3)] have ok: "prophet_ok rnd s" by (simp add: assms(4))
  have "get_probability s (pr_local_id s) = 0"
    using ok by (auto simp: prophet_ok_def get_probability_def split: option.splits)
  then show ?thesis
    using prophet_okD(3,4)[OF ok] encounter_ok(2)[OF assms(1) ok] transitive_update_ok(2)[OF assms(1) ok assms(5)]
      age_all_ok(2)[OF assms(1) ok] by blast
qed

lemma prophet_bounds_witness:
  "get_probability (prophet_run id (Encounter 1 (2 :: nat)) (new_prophet 0 1 (default_prophet id))) 2 \<le> 99 / 100 \<and>
   get_probability (age_all id (4000 * 10 ^ 9) (prophet_run id (Encounter 1 (2 :: nat)) (new_prophet 0 1 (default_prophet id)))) 2 \<le>
     get_probability (prophet_run id (Encounter 1 (2 :: nat)) (new_prophet 0 1 (default_prophet id))) 2"
proof -
  let ?s = "prophet_run id (Encounter 1 (2 :: nat)) (new_prophet 0 1 (default_prophet id))"
  have r: "rounding id" by (simp add: rounding_def mono_def)
  have c: "config_ok id (default_prophet id)" by (simp add: config_ok_def default_prophet_def)
  have "max_probability (pr_config ?s) = 99 / 100"
    by (simp add: encounter_def new_prophet_def default_prophet_def Let_def)
  then show ?thesis
    using prophet_bounds[OF r c, of "[Encounter 1 2]" ?s 0 1 "[]" 2 "4000 * 10 ^ 9" 3] by simp
qed

end
