(* ===== verification/Mesh.thy ===== *)
theory Mesh
  imports Prophet
begin

text \<open>
  The network of the simulation: packets, peer states and events (\<open>simulation/src/types.rs\<close>)
  and meshes with their builders (\<open>simulation/src/topology.rs\<close>). A \<open>PeerId\<close> is a character, by
  its code point; ticks, sequence numbers and statistics are \<open>u64\<close> counters that only count
  up, kept as natural numbers. A call that would panic is \<open>None\<close>. A \<open>BTreeSet\<close> is iterated in
  increasing order. The instant and the rounding that a new PRoPHET state reads are arguments.
\<close>

section \<open>Panics\<close>

text \<open>\<open>get_mut(k).unwrap()\<close> followed by an update.\<close>

definition upd_mut :: "'k \<Rightarrow> ('v \<Rightarrow> 'v) \<Rightarrow> ('k \<rightharpoonup> 'v) \<Rightarrow> ('k \<rightharpoonup> 'v) option" where
  "upd_mut k f m = (case m k of None \<Rightarrow> None | Some v \<Rightarrow> Some (m(k \<mapsto> f v)))"

text \<open>A loop whose body may panic.\<close>

fun each :: "('x \<Rightarrow> 's \<Rightarrow> 's option) \<Rightarrow> 'x list \<Rightarrow> 's \<Rightarrow> 's option" where
  "each f [] s = Some s"
| "each f (x # xs) s = (case f x s of None \<Rightarrow> None | Some t \<Rightarrow> each f xs t)"

lemma each_append: "each f (xs @ ys) s = (case each f xs s of None \<Rightarrow> None | Some t \<Rightarrow> each f ys t)"
  by (induction xs arbitrary: s) (auto split: option.splits)

text \<open>A loop invariant over the elements that are left.\<close>

lemma each_inv:
  assumes "\<And>x xs s. I (x # xs) s \<Longrightarrow> \<exists>t. f x s = Some t \<and> I xs t" and "I xs s"
  shows "\<exists>t. each f xs s = Some t \<and> I [] t"
  using assms(2)
proof (induction xs arbitrary: s)
  case (Cons x xs)
  from assms(1)[OF Cons.prems] obtain t where "f x s = Some t" and "I xs t" by blast
  with Cons.IH show ?case by simp
qed simp

section \<open>Packets and events\<close>

type_synonym peer_id = u32

definition peer_id_new :: "u32 \<Rightarrow> peer_id option" where
  "peer_id_new c = (if 65 \<le> c \<and> c \<le> 90 then Some c else None)"

definition peer_range_to :: "nat \<Rightarrow> peer_id list" where
  "peer_range_to end_char = List.map_filter (\<lambda>n. peer_id_new (of_nat n)) [65..<end_char + 1]"

datatype sim_packet_id = PacketId (pid_source: peer_id) (pid_sequence: nat)

record sealed_packet =
  sp_id :: sim_packet_id
  sp_source :: peer_id
  sp_destination :: peer_id
  sp_payload :: bytes
  sp_routing_hints :: "peer_id set"
  sp_created_at :: nat
  sp_ttl :: u8
  sp_visited :: "peer_id set"

definition sp_new ::
  "sim_packet_id \<Rightarrow> peer_id \<Rightarrow> peer_id \<Rightarrow> bytes \<Rightarrow> peer_id set \<Rightarrow> nat \<Rightarrow> sealed_packet" where
  "sp_new i src dst payload hints tck =
    \<lparr>sp_id = i, sp_source = src, sp_destination = dst, sp_payload = payload, sp_routing_hints = hints,
     sp_created_at = tck, sp_ttl = 10, sp_visited = {src}\<rparr>"

definition sp_mark_visited :: "peer_id \<Rightarrow> sealed_packet \<Rightarrow> sealed_packet" where
  "sp_mark_visited p q = q\<lparr>sp_visited := insert p (sp_visited q)\<rparr>"

definition sp_was_visited :: "peer_id \<Rightarrow> sealed_packet \<Rightarrow> bool" where
  "sp_was_visited p q \<longleftrightarrow> p \<in> sp_visited q"

definition sp_decrement_ttl :: "sealed_packet \<Rightarrow> bool \<times> sealed_packet" where
  "sp_decrement_ttl q = (if sp_ttl q = 0 then (False, q) else (True, q\<lparr>sp_ttl := sp_ttl q - 1\<rparr>))"

datatype sim_drop_reason = SimTtlExpired | SimNoRoute | SimDuplicate | SimExpired | SimSenderOffline

datatype network_event =
    Awake peer_id nat
  | Sleep peer_id nat
  | Send peer_id peer_id bytes nat
  | Relay peer_id peer_id peer_id sim_packet_id nat
  | Delivered sim_packet_id peer_id nat
  | BackProp sim_packet_id peer_id peer_id peer_id nat
  | Dropped sim_packet_id sim_drop_reason nat
  | PQSignatureCreated peer_id nat nat nat
  | PQSignatureVerified peer_id peer_id nat bool nat
  | KEMEncapsulation peer_id peer_id nat nat
  | KEMDecapsulation peer_id peer_id nat bool nat
  | InviteCreated peer_id peer_id string nat
  | InviteAccepted peer_id string nat
  | InviteFailed peer_id string string nat

section \<open>Peers\<close>

record backprop_record =
  br_packet_id :: sim_packet_id
  br_received_from :: peer_id
  br_destination :: peer_id

record peer_state =
  pst_id :: peer_id
  pst_online :: bool
  pst_connections :: "peer_id set"
  pst_inbox :: "sealed_packet list"
  pst_relay_queue :: "sealed_packet list"
  pst_delivered :: "sim_packet_id list"
  pst_pending_backprops :: "backprop_record list"
  pst_sequence :: nat
  pst_last_online_tick :: "nat option"
  pst_prophet :: "peer_id prophet_state"

definition peer_state_new :: "(f64 \<Rightarrow> f64) \<Rightarrow> int \<Rightarrow> peer_id \<Rightarrow> peer_state" where
  "peer_state_new rnd now i =
    \<lparr>pst_id = i, pst_online = False, pst_connections = {}, pst_inbox = [], pst_relay_queue = [], pst_delivered = [],
     pst_pending_backprops = [], pst_sequence = 0, pst_last_online_tick = None,
     pst_prophet = new_prophet now i (default_prophet rnd)\<rparr>"

definition next_packet_id :: "peer_state \<Rightarrow> sim_packet_id \<times> peer_state" where
  "next_packet_id st = (PacketId (pst_id st) (pst_sequence st), st\<lparr>pst_sequence := pst_sequence st + 1\<rparr>)"

definition can_reach :: "peer_state \<Rightarrow> peer_id \<Rightarrow> bool" where
  "can_reach st p \<longleftrightarrow> p \<in> pst_connections st"

definition mutual_peers_with :: "peer_state \<Rightarrow> peer_state \<Rightarrow> peer_id set" where
  "mutual_peers_with st other = pst_connections st \<inter> pst_connections other"

record peer_interface =
  if_peer_a :: peer_id
  if_peer_b :: peer_id
  if_event_log :: "network_event list"
  if_pending_packets :: "sealed_packet list"

definition interface_new :: "peer_id \<Rightarrow> peer_id \<Rightarrow> peer_interface" where
  "interface_new a b =
    (let (a, b) = (if a < b then (a, b) else (b, a))
     in \<lparr>if_peer_a = a, if_peer_b = b, if_event_log = [], if_pending_packets = []\<rparr>)"

definition interface_key :: "peer_interface \<Rightarrow> peer_id \<times> peer_id" where
  "interface_key i = (if_peer_a i, if_peer_b i)"

section \<open>Meshes\<close>

record mesh =
  peers :: "peer_id \<rightharpoonup> peer_state"
  interfaces :: "(peer_id \<times> peer_id) \<rightharpoonup> peer_interface"
  adjacency :: "peer_id \<rightharpoonup> peer_id set"

definition mesh_new :: mesh where
  "mesh_new = \<lparr>peers = Map.empty, interfaces = Map.empty, adjacency = Map.empty\<rparr>"

definition mesh_add_peer :: "(f64 \<Rightarrow> f64) \<Rightarrow> int \<Rightarrow> peer_id \<Rightarrow> mesh \<Rightarrow> mesh" where
  "mesh_add_peer rnd now i m =
    (case peers m i of
       None \<Rightarrow> m\<lparr>peers := (peers m)(i \<mapsto> peer_state_new rnd now i), adjacency := (adjacency m)(i \<mapsto> {})\<rparr>
     | Some _ \<Rightarrow> m)"

definition connect :: "(f64 \<Rightarrow> f64) \<Rightarrow> int \<Rightarrow> peer_id \<Rightarrow> peer_id \<Rightarrow> mesh \<Rightarrow> mesh option" where
  "connect rnd now a b m =
    (if a = b then Some m
     else
      let m = mesh_add_peer rnd now b (mesh_add_peer rnd now a m) in
      case upd_mut a (insert b) (adjacency m) of None \<Rightarrow> None | Some adj \<Rightarrow>
      case upd_mut b (insert a) adj of None \<Rightarrow> None | Some adj \<Rightarrow>
      case upd_mut a (\<lambda>st. st\<lparr>pst_connections := insert b (pst_connections st)\<rparr>) (peers m) of None \<Rightarrow> None | Some ps \<Rightarrow>
      case upd_mut b (\<lambda>st. st\<lparr>pst_connections := insert a (pst_connections st)\<rparr>) ps of None \<Rightarrow> None | Some ps \<Rightarrow>
      let i = interface_new a b; k = interface_key i in
      Some (m\<lparr>adjacency := adj, peers := ps,
        interfaces := (case interfaces m k of None \<Rightarrow> (interfaces m)(k \<mapsto> i) | Some _ \<Rightarrow> interfaces m)\<rparr>))"

definition neighbors :: "mesh \<Rightarrow> peer_id \<Rightarrow> peer_id set option" where
  "neighbors m p = adjacency m p"

definition are_connected :: "mesh \<Rightarrow> peer_id \<Rightarrow> peer_id \<Rightarrow> bool" where
  "are_connected m a b \<longleftrightarrow> (case adjacency m a of None \<Rightarrow> False | Some ns \<Rightarrow> b \<in> ns)"

definition get_interface :: "mesh \<Rightarrow> peer_id \<Rightarrow> peer_id \<Rightarrow> peer_interface option" where
  "get_interface m a b = interfaces m (if a < b then (a, b) else (b, a))"

definition peer_ids :: "mesh \<Rightarrow> peer_id list" where
  "peer_ids m = sorted_list_of_set (dom (peers m))"

definition mesh_peer_count :: "mesh \<Rightarrow> nat" where
  "mesh_peer_count m = card (dom (peers m))"

definition edge_count :: "mesh \<Rightarrow> nat" where
  "edge_count m = card (dom (interfaces m))"

definition mesh_mutual_peers :: "mesh \<Rightarrow> peer_id \<Rightarrow> peer_id \<Rightarrow> peer_id set" where
  "mesh_mutual_peers m a b =
    (case (adjacency m a, adjacency m b) of (Some an, Some bn) \<Rightarrow> an \<inter> bn | _ \<Rightarrow> {})"

section \<open>Builders\<close>

definition builder_peers :: "nat \<Rightarrow> peer_id list" where
  "builder_peers n = peer_range_to (65 + n - 1)"

text \<open>The common beginning of the builders; more than 26 peers are refused by an assertion.\<close>

definition mesh_with_peers :: "(f64 \<Rightarrow> f64) \<Rightarrow> int \<Rightarrow> nat \<Rightarrow> mesh option" where
  "mesh_with_peers rnd now n =
    (if n \<le> 26 then Some (fold (mesh_add_peer rnd now) (builder_peers n) mesh_new) else None)"

definition connect_all :: "(f64 \<Rightarrow> f64) \<Rightarrow> int \<Rightarrow> (peer_id \<times> peer_id) list \<Rightarrow> mesh \<Rightarrow> mesh option" where
  "connect_all rnd now es = each (\<lambda>(a, b). connect rnd now a b) es"

definition ring :: "(f64 \<Rightarrow> f64) \<Rightarrow> int \<Rightarrow> nat \<Rightarrow> mesh option" where
  "ring rnd now n =
    (let ps = builder_peers n in
     Option.bind (mesh_with_peers rnd now n)
       (connect_all rnd now (map (\<lambda>i. (ps ! i, ps ! ((i + 1) mod length ps))) [0..<length ps])))"

definition full_mesh :: "(f64 \<Rightarrow> f64) \<Rightarrow> int \<Rightarrow> nat \<Rightarrow> mesh option" where
  "full_mesh rnd now n =
    (let ps = builder_peers n in
     Option.bind (mesh_with_peers rnd now n)
       (connect_all rnd now (concat (map (\<lambda>i. map (\<lambda>j. (ps ! i, ps ! j)) [i + 1..<length ps]) [0..<length ps]))))"

text \<open>Without peers, \<open>line\<close> and \<open>star\<close> panic.\<close>

definition line :: "(f64 \<Rightarrow> f64) \<Rightarrow> int \<Rightarrow> nat \<Rightarrow> mesh option" where
  "line rnd now n =
    (let ps = builder_peers n in
     Option.bind (mesh_with_peers rnd now n)
       (\<lambda>m. if ps = [] then None
            else connect_all rnd now (map (\<lambda>i. (ps ! i, ps ! (i + 1))) [0..<length ps - 1]) m))"

definition star :: "(f64 \<Rightarrow> f64) \<Rightarrow> int \<Rightarrow> nat \<Rightarrow> mesh option" where
  "star rnd now n =
    (let ps = builder_peers n in
     Option.bind (mesh_with_peers rnd now n)
       (\<lambda>m. case ps of [] \<Rightarrow> None | center # others \<Rightarrow> connect_all rnd now (map (\<lambda>p. (center, p)) others) m))"

definition from_edges :: "(f64 \<Rightarrow> f64) \<Rightarrow> int \<Rightarrow> (u32 \<times> u32) list \<Rightarrow> mesh option" where
  "from_edges rnd now es =
    each (\<lambda>(a, b) m. case (peer_id_new a, peer_id_new b) of
        (Some pa, Some pb) \<Rightarrow> connect rnd now pa pb m | _ \<Rightarrow> None) es mesh_new"

section \<open>Well-formed meshes\<close>

text \<open>
  The adjacency lists and the connections of the peer states are the same symmetric relation
  without loops between existing peers, and there is one interface per connection.
\<close>

definition graph_ok :: "(peer_id \<rightharpoonup> peer_id set) \<Rightarrow> bool" where
  "graph_ok A \<longleftrightarrow> finite (dom A) \<and>
     (\<forall>p ns. A p = Some ns \<longrightarrow> p \<notin> ns \<and> (\<forall>q \<in> ns. \<exists>ms. A q = Some ms \<and> p \<in> ms))"

definition mesh_ok :: "mesh \<Rightarrow> bool" where
  "mesh_ok m \<longleftrightarrow> graph_ok (adjacency m) \<and>
     map_option pst_connections \<circ> peers m = adjacency m \<and>
     (\<forall>p st. peers m p = Some st \<longrightarrow> pst_id st = p) \<and>
     (\<forall>a b. interfaces m (a, b) \<noteq> None \<longleftrightarrow> a < b \<and> are_connected m a b)"

lemma mesh_ok_dom: "mesh_ok m \<Longrightarrow> dom (peers m) = dom (adjacency m)"
proof -
  assume "mesh_ok m"
  then have "map_option pst_connections \<circ> peers m = adjacency m" by (simp add: mesh_ok_def)
  then show ?thesis by (metis dom_map_option_comp)
qed

lemma are_connected_sym: "mesh_ok m \<Longrightarrow> are_connected m a b \<longleftrightarrow> are_connected m b a"
  unfolding mesh_ok_def graph_ok_def are_connected_def
  by (auto split: option.splits; metis option.distinct(1) option.inject)

lemma mesh_new_ok: "mesh_ok mesh_new"
  by (simp add: mesh_ok_def graph_ok_def mesh_new_def are_connected_def fun_eq_iff)

lemma mesh_add_peer_ok: "mesh_ok m \<Longrightarrow> mesh_ok (mesh_add_peer rnd now i m)"
  and mesh_add_peer_connected: "mesh_ok m \<Longrightarrow> are_connected (mesh_add_peer rnd now i m) a b = are_connected m a b"
  and mesh_add_peer_dom: "dom (peers (mesh_add_peer rnd now i m)) = insert i (dom (peers m))"
proof -
  show d: "dom (peers (mesh_add_peer rnd now i m)) = insert i (dom (peers m))"
    by (auto simp: mesh_add_peer_def split: option.splits)
  assume ok: "mesh_ok m"
  have no_adj: "adjacency m i = None" if "peers m i = None" using mesh_ok_dom[OF ok] that by (metis domIff)
  then show c: "are_connected (mesh_add_peer rnd now i m) a b = are_connected m a b" for a b
    by (auto simp: mesh_add_peer_def are_connected_def split: option.splits)
  show "mesh_ok (mesh_add_peer rnd now i m)"
  proof (cases "peers m i")
    case None
    let ?m = "mesh_add_peer rnd now i m"
    have adj: "adjacency ?m = (adjacency m)(i \<mapsto> {})" and ps: "peers ?m = (peers m)(i \<mapsto> peer_state_new rnd now i)"
      and ifs: "interfaces ?m = interfaces m" using None by (simp_all add: mesh_add_peer_def)
    have "graph_ok ((adjacency m)(i \<mapsto> {}))"
      using ok no_adj[OF None] unfolding mesh_ok_def graph_ok_def by (auto, (metis option.distinct(1))+)
    moreover have "map_option pst_connections \<circ> (peers m)(i \<mapsto> peer_state_new rnd now i) = (adjacency m)(i \<mapsto> {})"
      using ok by (auto simp: mesh_ok_def peer_state_new_def fun_eq_iff)
    moreover have "\<forall>p st. ((peers m)(i \<mapsto> peer_state_new rnd now i)) p = Some st \<longrightarrow> pst_id st = p"
      using ok by (auto simp: mesh_ok_def peer_state_new_def)
    moreover have "\<forall>a b. interfaces m (a, b) \<noteq> None \<longleftrightarrow> a < b \<and> are_connected ?m a b"
      using ok by (simp add: c mesh_ok_def)
    ultimately show ?thesis by (simp add: mesh_ok_def[of ?m] adj ps ifs)
  qed (use ok in \<open>simp add: mesh_add_peer_def\<close>)
qed

lemma connect_graph:
  assumes ok: "graph_ok A" and ab: "A a = Some na" "A b = Some nb" "a \<noteq> b"
  shows "graph_ok (A(a \<mapsto> insert b na, b \<mapsto> insert a nb))"
proof -
  let ?A = "A(a \<mapsto> insert b na, b \<mapsto> insert a nb)"
  have sym: "q \<in> ns \<Longrightarrow> \<exists>ms. A q = Some ms \<and> p \<in> ms" and irr: "p \<notin> ns" if "A p = Some ns" for p q ns
    using ok that by (auto simp: graph_ok_def)
  have fin: "finite (dom A)" using ok by (simp add: graph_ok_def)
  have "\<exists>ms. ?A q = Some ms \<and> p \<in> ms" if p: "?A p = Some ns" and q: "q \<in> ns" for p q ns
  proof (cases "{p, q} = {a, b}")
    case True
    then show ?thesis using ab(3) by (auto simp: doubleton_eq_iff)
  next
    case False
    then have "\<exists>ms. A p = Some ms \<and> q \<in> ms" using p q ab by (auto split: if_splits)
    then obtain ms where "A q = Some ms" and "p \<in> ms" using sym by blast
    then show ?thesis using ab by auto
  qed
  moreover have "p \<notin> ns" if "?A p = Some ns" for p ns
    using that ab irr[OF ab(1)] irr[OF ab(2)] irr[of p] by (auto split: if_splits)
  ultimately show ?thesis using fin unfolding graph_ok_def by auto
qed

lemma connect_ok:
  assumes ok: "mesh_ok m" and ab: "a \<noteq> b"
  shows "\<exists>m'. connect rnd now a b m = Some m' \<and> mesh_ok m' \<and>
    dom (peers m') = insert a (insert b (dom (peers m))) \<and>
    (\<forall>x y. are_connected m' x y \<longleftrightarrow> are_connected m x y \<or> {x, y} = {a, b})"
proof -
  define m0 where "m0 = mesh_add_peer rnd now b (mesh_add_peer rnd now a m)"
  have ok0: "mesh_ok m0" by (simp add: m0_def mesh_add_peer_ok ok)
  have con0: "are_connected m0 x y = are_connected m x y" for x y
    by (simp add: m0_def mesh_add_peer_connected mesh_add_peer_ok ok)
  have dom0: "dom (peers m0) = insert a (insert b (dom (peers m)))" by (auto simp: m0_def mesh_add_peer_dom)
  then obtain sa sb where ps: "peers m0 a = Some sa" "peers m0 b = Some sb" by blast
  have conns: "adjacency m0 p = map_option pst_connections (peers m0 p)" for p
    using ok0 by (auto simp: mesh_ok_def fun_eq_iff)
  let ?na = "pst_connections sa" and ?nb = "pst_connections sb"
  have adj: "adjacency m0 a = Some ?na" "adjacency m0 b = Some ?nb" by (simp_all add: conns ps)
  define k where "k = interface_key (interface_new a b)"
  have key: "k = (if a < b then (a, b) else (b, a))" by (simp add: k_def interface_key_def interface_new_def)
  define A where "A = (adjacency m0)(a \<mapsto> insert b ?na, b \<mapsto> insert a ?nb)"
  define P where "P = (peers m0)(a \<mapsto> sa\<lparr>pst_connections := insert b ?na\<rparr>, b \<mapsto> sb\<lparr>pst_connections := insert a ?nb\<rparr>)"
  define I where "I = (case interfaces m0 k of None \<Rightarrow> (interfaces m0)(k \<mapsto> interface_new a b) | Some _ \<Rightarrow> interfaces m0)"
  let ?m = "m0\<lparr>adjacency := A, peers := P, interfaces := I\<rparr>"
  have eq: "connect rnd now a b m = Some ?m"
    using ab by (simp add: connect_def Let_def m0_def[symmetric] upd_mut_def adj ps A_def P_def I_def[unfolded k_def])
  have con: "are_connected ?m x y \<longleftrightarrow> are_connected m x y \<or> {x, y} = {a, b}" for x y
    unfolding con0[symmetric] using adj ab by (auto simp: are_connected_def A_def doubleton_eq_iff)
  have "graph_ok A" unfolding A_def
    using ok0 by (intro connect_graph[OF _ adj ab]) (simp add: mesh_ok_def)
  moreover have "map_option pst_connections \<circ> P = A" using conns by (auto simp: A_def P_def fun_eq_iff)
  moreover have "\<forall>p st. P p = Some st \<longrightarrow> pst_id st = p" using ok0 ps by (auto simp: P_def mesh_ok_def)
  moreover have "I (x, y) \<noteq> None \<longleftrightarrow> x < y \<and> are_connected ?m x y" for x y
  proof -
    have "interfaces m0 (x, y) \<noteq> None \<longleftrightarrow> x < y \<and> are_connected m x y" 
      using ok0 con0 by (simp add: mesh_ok_def)
    moreover have "I (x, y) \<noteq> None \<longleftrightarrow> interfaces m0 (x, y) \<noteq> None \<or> (x, y) = k"
      by (auto simp: I_def split: option.splits)
    moreover have "(x, y) = k \<longleftrightarrow> x < y \<and> {x, y} = {a, b}" using ab by (auto simp: key doubleton_eq_iff)
    ultimately show ?thesis using con by blast
  qed
  ultimately have "mesh_ok ?m" by (simp add: mesh_ok_def)
  moreover have "dom (peers ?m) = insert a (insert b (dom (peers m)))" using dom0 by (auto simp: P_def)
  ultimately show ?thesis using eq con by blast
qed

text \<open>Connecting along a list of edges.\<close>

lemma connect_all_ok:
  assumes "mesh_ok m"
  shows "\<exists>m'. connect_all rnd now es m = Some m' \<and> mesh_ok m' \<and>
    dom (peers m') = dom (peers m) \<union> {a. \<exists>b. a \<noteq> b \<and> ((a, b) \<in> set es \<or> (b, a) \<in> set es)} \<and>
    (\<forall>x y. are_connected m' x y \<longleftrightarrow> are_connected m x y \<or> x \<noteq> y \<and> ((x, y) \<in> set es \<or> (y, x) \<in> set es))"
  using assms
proof (induction es arbitrary: m)
  case (Cons e es)
  obtain a b where e: "e = (a, b)" by (cases e)
  obtain m1 where m1: "connect rnd now a b m = Some m1" "mesh_ok m1"
      "dom (peers m1) = dom (peers m) \<union> (if a = b then {} else {a, b})"
      "\<forall>x y. are_connected m1 x y \<longleftrightarrow> are_connected m x y \<or> a \<noteq> b \<and> {x, y} = {a, b}"
  proof (cases "a = b")
    case True
    then show ?thesis using that[of m] Cons.prems by (simp add: connect_def)
  next
    case False
    from connect_ok[OF Cons.prems False, of rnd now] obtain m1 where
      m1: "connect rnd now a b m = Some m1 \<and> mesh_ok m1 \<and> dom (peers m1) = insert a (insert b (dom (peers m))) \<and>
      (\<forall>x y. are_connected m1 x y \<longleftrightarrow> are_connected m x y \<or> {x, y} = {a, b})" ..
    show ?thesis by (rule that[of m1]) (use m1 False in \<open>simp_all only: if_False simp_thms Un_insert_right sup_bot_right\<close>)
  qed
  from Cons.IH[OF m1(2)] obtain m' where "connect_all rnd now es m1 = Some m' \<and> mesh_ok m' \<and>
      dom (peers m') = dom (peers m1) \<union> {a. \<exists>b. a \<noteq> b \<and> ((a, b) \<in> set es \<or> (b, a) \<in> set es)} \<and>
      (\<forall>x y. are_connected m' x y \<longleftrightarrow> are_connected m1 x y \<or> x \<noteq> y \<and> ((x, y) \<in> set es \<or> (y, x) \<in> set es))" ..
  note m' = this[THEN conjunct1] this[THEN conjunct2, THEN conjunct1]
    this[THEN conjunct2, THEN conjunct2, THEN conjunct1] this[THEN conjunct2, THEN conjunct2, THEN conjunct2]
  show ?case
  proof (intro exI conjI allI)
    show "connect_all rnd now (e # es) m = Some m'" using m1(1) m'(1) by (simp add: connect_all_def e)
    show "mesh_ok m'" by (rule m'(2))
    show "dom (peers m') = dom (peers m) \<union> {x. \<exists>y. x \<noteq> y \<and> ((x, y) \<in> set (e # es) \<or> (y, x) \<in> set (e # es))}"
      unfolding m'(3) m1(3) by (auto simp: e)
    show "are_connected m' x y \<longleftrightarrow> are_connected m x y \<or> x \<noteq> y \<and> ((x, y) \<in> set (e # es) \<or> (y, x) \<in> set (e # es))" for x y
      unfolding m'(4)[rule_format] m1(4)[rule_format] by (auto simp: e doubleton_eq_iff)
  qed
qed (simp add: connect_all_def)

lemma add_peers_ok:
  "mesh_ok m \<Longrightarrow> mesh_ok (fold (mesh_add_peer rnd now) ps m) \<and>
     dom (peers (fold (mesh_add_peer rnd now) ps m)) = dom (peers m) \<union> set ps \<and>
     are_connected (fold (mesh_add_peer rnd now) ps m) x y = are_connected m x y"
proof (induction ps arbitrary: m)
  case (Cons p ps)
  from Cons.IH[OF mesh_add_peer_ok[OF Cons.prems]] show ?case
    by (simp add: mesh_add_peer_dom mesh_add_peer_connected[OF Cons.prems])
qed simp

text \<open>What a builder makes of its list of edges.\<close>

definition realizes :: "mesh option \<Rightarrow> peer_id list \<Rightarrow> (peer_id \<times> peer_id) set \<Rightarrow> bool" where
  "realizes r ps E \<longleftrightarrow> (\<exists>m. r = Some m \<and> mesh_ok m \<and> dom (peers m) = set ps \<and>
     (\<forall>x y. are_connected m x y \<longleftrightarrow> x \<noteq> y \<and> ((x, y) \<in> E \<or> (y, x) \<in> E)))"

lemma built_mesh:
  assumes "n \<le> 26" and "set es \<subseteq> set (builder_peers n) \<times> set (builder_peers n)"
  shows "realizes (Option.bind (mesh_with_peers rnd now n) (connect_all rnd now es)) (builder_peers n) (set es)"
proof -
  let ?m = "fold (mesh_add_peer rnd now) (builder_peers n) mesh_new"
  have ok: "mesh_ok ?m" and d: "dom (peers ?m) = set (builder_peers n)" and c: "\<not> are_connected ?m x y" for x y
    using add_peers_ok[OF mesh_new_ok, of rnd now "builder_peers n"] by (auto simp: mesh_new_def are_connected_def)
  from connect_all_ok[OF ok, of rnd now es] obtain m' where m': "connect_all rnd now es ?m = Some m' \<and> mesh_ok m' \<and>
      dom (peers m') = dom (peers ?m) \<union> {a. \<exists>b. a \<noteq> b \<and> ((a, b) \<in> set es \<or> (b, a) \<in> set es)} \<and>
      (\<forall>x y. are_connected m' x y \<longleftrightarrow> are_connected ?m x y \<or> x \<noteq> y \<and> ((x, y) \<in> set es \<or> (y, x) \<in> set es))" ..
  moreover from this have "dom (peers m') = set (builder_peers n)" using assms(2) d by auto
  ultimately show ?thesis using assms(1) c unfolding realizes_def mesh_with_peers_def by auto
qed

lemma builder_peers_eq:
  assumes "n \<le> 26"
  shows "builder_peers n = map (\<lambda>i. of_nat (65 + i)) [0..<n]"
proof -
  have "peer_id_new (of_nat k) = Some (of_nat k)" if "65 \<le> k" "k < 65 + n" for k
    using that assms by (simp add: peer_id_new_def word_le_nat_alt unsigned_of_nat take_bit_nat_eq_self)
  then have "List.map_filter (\<lambda>k. peer_id_new (of_nat k)) [65..<65 + n] = map of_nat [65..<65 + n]"
    by (simp add: List.map_filter_def filter_True)
  then show ?thesis
    by (simp add: builder_peers_def peer_range_to_def map_add_upt[symmetric] comp_def add.commute)
qed

lemma length_builder_peers: "n \<le> 26 \<Longrightarrow> length (builder_peers n) = n"
  by (simp add: builder_peers_eq)

lemma upper_pairs:
  "set (concat (map (\<lambda>i. map (\<lambda>j. (ps ! i, ps ! j)) [i + 1..<length ps]) [0..<length ps])) =
     {(ps ! i, ps ! j) | i j. i < j \<and> j < length ps}"
proof (intro equalityI subsetI)
  fix z assume "z \<in> {(ps ! i, ps ! j) | i j. i < j \<and> j < length ps}"
  then obtain i j where z: "z = (ps ! i, ps ! j)" "i < j" "j < length ps" by blast
  then have "i \<in> {0..<length ps}" and "j \<in> {i + 1..<length ps}" by auto
  then have "z \<in> (\<Union>i \<in> {0..<length ps}. (\<lambda>j. (ps ! i, ps ! j)) ` {i + 1..<length ps})"
    unfolding z(1) by (intro UN_I[of i] imageI)
  then show "z \<in> set (concat (map (\<lambda>i. map (\<lambda>j. (ps ! i, ps ! j)) [i + 1..<length ps]) [0..<length ps]))" by simp
qed (auto, metis Suc_le_eq)

lemma realizes_cong:
  assumes "\<And>x y. x \<noteq> y \<Longrightarrow> (x, y) \<in> E \<or> (y, x) \<in> E \<longleftrightarrow> (x, y) \<in> F \<or> (y, x) \<in> F"
  shows "realizes r ps E = realizes r ps F"
proof -
  have "x \<noteq> y \<and> ((x, y) \<in> E \<or> (y, x) \<in> E) \<longleftrightarrow> x \<noteq> y \<and> ((x, y) \<in> F \<or> (y, x) \<in> F)" for x y
    using assms by blast
  then show ?thesis by (simp only: realizes_def)
qed

lemma upper_pairs_cover:
  assumes "x \<noteq> y" and "x \<in> set ps" and "y \<in> set ps"
  shows "(x, y) \<in> {(ps ! i, ps ! j) | i j. i < j \<and> j < length ps} \<or> (y, x) \<in> {(ps ! i, ps ! j) | i j. i < j \<and> j < length ps}"
proof -
  from assms obtain i j where ij: "x = ps ! i" "y = ps ! j" "i < length ps" "j < length ps" by (auto simp: in_set_conv_nth)
  with assms(1) have "i < j \<or> j < i" by (cases "i = j") auto
  with ij show ?thesis by blast
qed

text \<open>
  C36: The builders make the networks their names say, with \<open>n\<close> peers and without loops: in the
  full mesh all peers are connected, in the star each with the first one, in the line
  each with the next one, in the ring also the last one with the first.
\<close>

theorem mesh_topologies:
  assumes "0 < n" and "n \<le> 26"
  defines "ps \<equiv> builder_peers n"
  shows "length ps = n \<and>
    realizes (full_mesh rnd now n) ps {(x, y). x \<in> set ps \<and> y \<in> set ps} \<and>
    realizes (star rnd now n) ps {(hd ps, y) | y. y \<in> set ps} \<and>
    realizes (line rnd now n) ps {(ps ! i, ps ! (i + 1)) | i. i + 1 < n} \<and>
    realizes (ring rnd now n) ps {(ps ! i, ps ! ((i + 1) mod n)) | i. i < n}"
proof (intro conjI)
  show len: "length ps = n" by (simp add: ps_def length_builder_peers assms(2))
  then have ne: "ps \<noteq> []" using assms(1) by auto
  have sub: "{(ps ! i, ps ! j) | i j. i < j \<and> j < length ps} \<subseteq> set ps \<times> set ps" by auto
  note built = built_mesh[OF assms(2), of _ rnd now, folded ps_def]
  have full: "realizes (full_mesh rnd now n) ps {(ps ! i, ps ! j) | i j. i < j \<and> j < length ps}"
    using built[of "concat (map (\<lambda>i. map (\<lambda>j. (ps ! i, ps ! j)) [i + 1..<length ps]) [0..<length ps])",
        unfolded upper_pairs, OF sub] by (auto simp: full_mesh_def Let_def ps_def[symmetric])
  have pairs: "(x, y) \<in> {(ps ! i, ps ! j) | i j. i < j \<and> j < length ps} \<or> (y, x) \<in> {(ps ! i, ps ! j) | i j. i < j \<and> j < length ps} \<longleftrightarrow>
      (x, y) \<in> {(x, y). x \<in> set ps \<and> y \<in> set ps} \<or> (y, x) \<in> {(x, y). x \<in> set ps \<and> y \<in> set ps}" if "x \<noteq> y" for x y
  proof
    assume "(x, y) \<in> {(x, y). x \<in> set ps \<and> y \<in> set ps} \<or> (y, x) \<in> {(x, y). x \<in> set ps \<and> y \<in> set ps}"
    then show "(x, y) \<in> {(ps ! i, ps ! j) | i j. i < j \<and> j < length ps} \<or> (y, x) \<in> {(ps ! i, ps ! j) | i j. i < j \<and> j < length ps}"
      by (intro upper_pairs_cover that) auto
  qed (use sub in auto)
  show "realizes (full_mesh rnd now n) ps {(x, y). x \<in> set ps \<and> y \<in> set ps}"
    by (rule realizes_cong[OF pairs, THEN iffD1, OF _ full])
  have tl: "set (tl ps) \<subseteq> set ps" and hd: "hd ps \<in> set ps" using ne by (auto dest: list.set_sel(2))
  have st: "star rnd now n = Option.bind (mesh_with_peers rnd now n) (connect_all rnd now (map (\<lambda>p. (hd ps, p)) (tl ps)))"
    using ne by (cases ps) (simp_all add: star_def Let_def ps_def[symmetric])
  have es: "set (map (\<lambda>p. (hd ps, p)) (tl ps)) = {(hd ps, y) | y. y \<in> set (tl ps)}" by auto
  have star: "realizes (star rnd now n) ps {(hd ps, y) | y. y \<in> set (tl ps)}"
    using built[of "map (\<lambda>p. (hd ps, p)) (tl ps)", unfolded es] tl hd unfolding st by blast
  have "set ps = insert (hd ps) (set (tl ps))" using ne by (cases ps) auto
  then show "realizes (star rnd now n) ps {(hd ps, y) | y. y \<in> set ps}"
    by (intro realizes_cong[THEN iffD1, OF _ star]) auto
  have es: "set (map (\<lambda>i. (ps ! i, ps ! (i + 1))) [0..<length ps - 1]) = {(ps ! i, ps ! (i + 1)) | i. i + 1 < n}"
    using len by (auto simp: less_diff_conv)
  have "{(ps ! i, ps ! (i + 1)) | i. i + 1 < n} \<subseteq> set ps \<times> set ps" using len by auto
  from built[of "map (\<lambda>i. (ps ! i, ps ! (i + 1))) [0..<length ps - 1]", unfolded es, OF this]
  show "realizes (line rnd now n) ps {(ps ! i, ps ! (i + 1)) | i. i + 1 < n}"
    using ne by (simp add: line_def Let_def ps_def[symmetric])
  have es: "set (map (\<lambda>i. (ps ! i, ps ! ((i + 1) mod length ps))) [0..<length ps]) = {(ps ! i, ps ! ((i + 1) mod n)) | i. i < n}"
    using len by auto
  have "{(ps ! i, ps ! ((i + 1) mod n)) | i. i < n} \<subseteq> set ps \<times> set ps" using len assms(1) by auto
  from built[of "map (\<lambda>i. (ps ! i, ps ! ((i + 1) mod length ps))) [0..<length ps]", unfolded es, OF this]
  show "realizes (ring rnd now n) ps {(ps ! i, ps ! ((i + 1) mod n)) | i. i < n}"
    by (simp add: ring_def Let_def ps_def[symmetric])
qed

theorem mesh_topologies_witness:
  "realizes (ring id 0 3) [65, 66, 67] {(65, 66), (66, 67), (67, 65)}"
proof -
  have ps: "builder_peers 3 = [65, 66, 67]" by (simp add: builder_peers_eq upt_rec)
  have three: "{i. i < (3 :: nat)} = {0, 1, 2}" by auto
  have edges: "{([65, 66, 67] ! i, [65, 66, 67] ! ((i + 1) mod 3)) | i. i < (3 :: nat)} = {(65, 66), (66, 67), (67, 65 :: u32)}"
    unfolding setcompr_eq_image three by simp
  show ?thesis using mesh_topologies[of 3 id 0] unfolding ps edges by simp
qed

end
