(* ===== verification/Simulation.thy ===== *)
theory Simulation
  imports Mesh "HOL-Library.Multiset"
begin

text \<open>
  The discrete-time simulation of the network, \<open>simulation/src/simulation.rs\<close>: messages wait for
  their sender, travel over relays, are delivered and confirmed back along their path, while
  peers go online and offline. The random numbers that a step draws for each peer are the
  argument \<open>draw\<close>, the instant and the rounding that the PRoPHET tables read are \<open>now\<close> and
  \<open>rnd\<close>. \<open>None\<close> is a panic: a failed \<open>unwrap\<close>, an index out of range or a division by zero.
\<close>

section \<open>State\<close>

record sim_config =
  wake_probability :: f64
  sleep_probability :: f64
  max_ticks :: nat
  initial_online_probability :: f64
  trace_routing :: bool
  message_timeout :: "nat option"
  backprop_timeout :: "nat option"
  max_sender_retries :: "nat option"
  prophet_aging_interval :: nat

definition default_sim_config :: "(f64 \<Rightarrow> f64) \<Rightarrow> sim_config" where
  "default_sim_config rnd =
    \<lparr>wake_probability = rnd (3 / 10), sleep_probability = rnd (2 / 10), max_ticks = 100,
     initial_online_probability = rnd (1 / 2), trace_routing = True, message_timeout = Some 50,
     backprop_timeout = Some 100, max_sender_retries = Some 10, prophet_aging_interval = 100\<rparr>"

record pending_send =
  se_from :: peer_id
  se_to :: peer_id
  se_payload :: bytes
  se_created_tick :: nat
  se_retry_count :: nat

record sim_backprop =
  sb_packet_id :: sim_packet_id
  sb_path :: "peer_id list"
  sb_index :: nat
  sb_delivered_tick :: nat

record sim_stats =
  messages_sent :: nat
  messages_delivered :: nat
  messages_dropped :: nat
  messages_expired :: nat
  total_hops :: nat
  direct_deliveries :: nat
  relayed_deliveries :: nat
  backprops_completed :: nat
  backprops_timed_out :: nat
  wake_events :: nat
  sleep_events :: nat
  total_delivery_latency :: nat
  total_backprop_latency :: nat
  prophet_relay_selections :: nat
  prophet_aging_cycles :: nat
  pq_signatures_created :: nat
  pq_signatures_verified :: nat
  pq_signature_failures :: nat
  pq_signature_create_time_us :: nat
  pq_signature_verify_time_us :: nat
  pq_kem_encapsulations :: nat
  pq_kem_decapsulations :: nat
  pq_kem_failures :: nat
  pq_kem_encap_time_us :: nat
  pq_kem_decap_time_us :: nat
  invites_created :: nat
  invites_accepted :: nat
  invites_failed :: nat

definition default_stats :: sim_stats where
  "default_stats =
    \<lparr>messages_sent = 0, messages_delivered = 0, messages_dropped = 0, messages_expired = 0, total_hops = 0,
     direct_deliveries = 0, relayed_deliveries = 0, backprops_completed = 0, backprops_timed_out = 0,
     wake_events = 0, sleep_events = 0, total_delivery_latency = 0, total_backprop_latency = 0,
     prophet_relay_selections = 0, prophet_aging_cycles = 0,
     pq_signatures_created = 0, pq_signatures_verified = 0, pq_signature_failures = 0,
     pq_signature_create_time_us = 0, pq_signature_verify_time_us = 0, pq_kem_encapsulations = 0,
     pq_kem_decapsulations = 0, pq_kem_failures = 0, pq_kem_encap_time_us = 0,
     pq_kem_decap_time_us = 0, invites_created = 0, invites_accepted = 0,
     invites_failed = 0\<rparr>"

record simulation =
  sim_mesh :: mesh
  sim_tick :: nat
  sim_config :: sim_config
  event_log :: "network_event list"
  pending_sends :: "pending_send list"
  backprops :: "sim_backprop list"
  stats :: sim_stats

definition new_simulation :: "mesh \<Rightarrow> sim_config \<Rightarrow> simulation" where
  "new_simulation m cfg =
    \<lparr>sim_mesh = m, sim_tick = 0, sim_config = cfg, event_log = [], pending_sends = [], backprops = [],
     stats = default_stats\<rparr>"

text \<open>Access to a peer with \<open>unwrap\<close>, and bookkeeping.\<close>

definition sim_peer :: "simulation \<Rightarrow> peer_id \<Rightarrow> peer_state option" where
  "sim_peer s p = peers (sim_mesh s) p"

definition set_peers :: "simulation \<Rightarrow> (peer_id \<rightharpoonup> peer_state) \<Rightarrow> simulation" where
  "set_peers s ps = s\<lparr>sim_mesh := (sim_mesh s)\<lparr>peers := ps\<rparr>\<rparr>"

definition upd_peer :: "peer_id \<Rightarrow> (peer_state \<Rightarrow> peer_state) \<Rightarrow> simulation \<Rightarrow> simulation option" where
  "upd_peer p f s = map_option (set_peers s) (upd_mut p f (peers (sim_mesh s)))"

definition emit_event :: "network_event \<Rightarrow> simulation \<Rightarrow> simulation" where
  "emit_event e s = s\<lparr>event_log := event_log s @ [e]\<rparr>"

definition count_stat :: "(sim_stats \<Rightarrow> sim_stats) \<Rightarrow> simulation \<Rightarrow> simulation" where
  "count_stat f s = s\<lparr>stats := f (stats s)\<rparr>"

definition is_online :: "simulation \<Rightarrow> peer_id \<Rightarrow> bool" where
  "is_online s p \<longleftrightarrow> (case sim_peer s p of None \<Rightarrow> False | Some st \<Rightarrow> pst_online st)"

definition retain :: "sim_packet_id \<Rightarrow> peer_state \<Rightarrow> peer_state" where
  "retain i st = st\<lparr>pst_relay_queue := filter (\<lambda>q. sp_id q \<noteq> i) (pst_relay_queue st)\<rparr>"

definition push_relay :: "sealed_packet \<Rightarrow> peer_state \<Rightarrow> peer_state" where
  "push_relay q st = st\<lparr>pst_relay_queue := pst_relay_queue st @ [q]\<rparr>"

section \<open>Online and offline\<close>

definition initialize_peer :: "(peer_id \<Rightarrow> f64) \<Rightarrow> peer_id \<Rightarrow> simulation \<Rightarrow> simulation option" where
  "initialize_peer draw p s =
    (let online = draw p < initial_online_probability (sim_config s) in
     case sim_peer s p of
       None \<Rightarrow> Some s
     | Some st \<Rightarrow>
        if online
        then Some (emit_event (Awake p 0) (set_peers s ((peers (sim_mesh s))(p \<mapsto>
               st\<lparr>pst_online := True, pst_last_online_tick := Some 0\<rparr>))))
        else Some (set_peers s ((peers (sim_mesh s))(p \<mapsto> st\<lparr>pst_online := False\<rparr>))))"

definition initialize :: "(peer_id \<Rightarrow> f64) \<Rightarrow> simulation \<Rightarrow> simulation option" where
  "initialize draw s = each (initialize_peer draw) (peer_ids (sim_mesh s)) s"

definition sim_send_message :: "peer_id \<Rightarrow> peer_id \<Rightarrow> bytes \<Rightarrow> simulation \<Rightarrow> simulation" where
  "sim_send_message src dst payload s =
    s\<lparr>pending_sends := pending_sends s @
        [\<lparr>se_from = src, se_to = dst, se_payload = payload, se_created_tick = sim_tick s, se_retry_count = 0\<rparr>],
      stats := (stats s)\<lparr>messages_sent := messages_sent (stats s) + 1\<rparr>\<rparr>"

definition transition_peer :: "(peer_id \<Rightarrow> f64) \<Rightarrow> peer_id \<Rightarrow> simulation \<Rightarrow> simulation option" where
  "transition_peer draw p s =
    Option.bind (sim_peer s p) (\<lambda>st.
      let prob = (if pst_online st then sleep_probability (sim_config s) else wake_probability (sim_config s)) in
      if draw p < prob then
        Option.bind (upd_peer p (\<lambda>st'. st'\<lparr>pst_online := \<not> pst_online st\<rparr>) s) (\<lambda>s.
          if \<not> pst_online st then
            map_option (\<lambda>s. count_stat (\<lambda>x. x\<lparr>wake_events := wake_events x + 1\<rparr>) (emit_event (Awake p (sim_tick s)) s))
              (upd_peer p (\<lambda>st. st\<lparr>pst_last_online_tick := Some (sim_tick s)\<rparr>) s)
          else Some (count_stat (\<lambda>x. x\<lparr>sleep_events := sleep_events x + 1\<rparr>) (emit_event (Sleep p (sim_tick s)) s)))
      else Some s)"

definition process_state_transitions :: "(peer_id \<Rightarrow> f64) \<Rightarrow> simulation \<Rightarrow> simulation option" where
  "process_state_transitions draw s = each (transition_peer draw) (peer_ids (sim_mesh s)) s"

definition force_online :: "peer_id \<Rightarrow> simulation \<Rightarrow> simulation" where
  "force_online p s =
    (case sim_peer s p of
       None \<Rightarrow> s
     | Some st \<Rightarrow> if pst_online st then s
        else emit_event (Awake p (sim_tick s)) (set_peers s ((peers (sim_mesh s))(p \<mapsto>
               st\<lparr>pst_online := True, pst_last_online_tick := Some (sim_tick s)\<rparr>))))"

definition force_offline :: "peer_id \<Rightarrow> simulation \<Rightarrow> simulation" where
  "force_offline p s =
    (case sim_peer s p of
       None \<Rightarrow> s
     | Some st \<Rightarrow> if pst_online st
        then emit_event (Sleep p (sim_tick s)) (set_peers s ((peers (sim_mesh s))(p \<mapsto> st\<lparr>pst_online := False\<rparr>)))
        else s)"

section \<open>Delivery\<close>

definition deliver_packet ::
  "(f64 \<Rightarrow> f64) \<Rightarrow> int \<Rightarrow> sealed_packet \<Rightarrow> peer_id \<Rightarrow> simulation \<Rightarrow> simulation option" where
  "deliver_packet rnd now q via s =
    (let dest = sp_destination q; i = sp_id q in
     Option.bind (upd_peer via (\<lambda>st. st\<lparr>pst_prophet := encounter rnd now dest (pst_prophet st)\<rparr>) s) (\<lambda>s.
     Option.bind (upd_peer dest (\<lambda>st. st\<lparr>pst_inbox := pst_inbox st @ [q], pst_delivered := pst_delivered st @ [i]\<rparr>) s) (\<lambda>s.
       let s = emit_event (Delivered i dest (sim_tick s)) s;
           s = count_stat (\<lambda>x. x\<lparr>total_delivery_latency := total_delivery_latency x + (sim_tick s - sp_created_at q),
                 messages_delivered := messages_delivered x + 1, total_hops := total_hops x + card (sp_visited q)\<rparr>) s;
           s = count_stat (\<lambda>x. if card (sp_visited q) = 1
                 then x\<lparr>direct_deliveries := direct_deliveries x + 1\<rparr>
                 else x\<lparr>relayed_deliveries := relayed_deliveries x + 1\<rparr>) s;
           path = sorted_list_of_set (sp_visited q)
       in Some (if length path > 1
           then s\<lparr>backprops := backprops s @ [\<lparr>sb_packet_id = i, sb_path = path, sb_index = 0, sb_delivered_tick = sim_tick s\<rparr>]\<rparr>
           else s))))"

definition deliver_pending_packets ::
  "(f64 \<Rightarrow> f64) \<Rightarrow> int \<Rightarrow> peer_id \<Rightarrow> peer_id \<Rightarrow> simulation \<Rightarrow> simulation option" where
  "deliver_pending_packets rnd now src dst s =
    Option.bind (sim_peer s src) (\<lambda>st.
      each (\<lambda>q s. Option.bind (upd_peer src (retain (sp_id q)) s) (deliver_packet rnd now q src))
        (filter (\<lambda>q. sp_destination q = dst) (pst_relay_queue st)) s)"

definition awake_signal :: "(f64 \<Rightarrow> f64) \<Rightarrow> int \<Rightarrow> peer_id \<Rightarrow> simulation \<Rightarrow> simulation option" where
  "awake_signal rnd now p s =
    Option.bind (sim_peer s p) (\<lambda>st.
      if pst_online st \<and> pst_last_online_tick st = Some (sim_tick s)
      then each (\<lambda>n. deliver_pending_packets rnd now n p) (sorted_list_of_set (pst_connections st)) s
      else Some s)"

definition process_awake_signals :: "(f64 \<Rightarrow> f64) \<Rightarrow> int \<Rightarrow> simulation \<Rightarrow> simulation option" where
  "process_awake_signals rnd now s = each (awake_signal rnd now) (peer_ids (sim_mesh s)) s"

section \<open>Routing\<close>

definition or_else :: "'a option \<Rightarrow> 'a option \<Rightarrow> 'a option" where
  "or_else a b = (case a of Some x \<Rightarrow> Some x | None \<Rightarrow> b)"

definition find_relay_path ::
  "(f64 \<Rightarrow> f64) \<Rightarrow> int \<Rightarrow> sealed_packet \<Rightarrow> peer_id \<Rightarrow> simulation \<Rightarrow> simulation option" where
  "find_relay_path rnd now q current s =
    (let dest = sp_destination q;
         ns = (case neighbors (sim_mesh s) current of None \<Rightarrow> {} | Some ns \<Rightarrow> ns);
         candidates = filter (is_online s) (filter (\<lambda>n. \<not> sp_was_visited n q) (sorted_list_of_set ns))
     in Option.bind (sim_peer s current) (\<lambda>st.
     let prophet_relay = best_candidate (pst_prophet st) dest candidates;
         hint_relay = List.find (\<lambda>c. c \<in> sp_routing_hints q) candidates;
         dest_neighbors = (case neighbors (sim_mesh s) dest of None \<Rightarrow> {} | Some ns \<Rightarrow> ns);
         best_relay = or_else (or_else (or_else prophet_relay hint_relay)
           (List.find (\<lambda>c. c \<in> dest_neighbors) candidates)) (List.find (\<lambda>_. True) candidates);
         s = (if prophet_relay \<noteq> None \<and> best_relay \<noteq> None
              then count_stat (\<lambda>x. x\<lparr>prophet_relay_selections := prophet_relay_selections x + 1\<rparr>) s else s)
     in case best_relay of
          Some relay \<Rightarrow>
            let (alive, q) = sp_decrement_ttl q in
            if \<not> alive
            then Some (count_stat (\<lambda>x. x\<lparr>messages_dropped := messages_dropped x + 1\<rparr>)
                   (emit_event (Dropped (sp_id q) SimTtlExpired (sim_tick s)) s))
            else
              let q = sp_mark_visited relay q in
              Option.bind (upd_peer current (\<lambda>st. st\<lparr>pst_prophet := encounter rnd now relay (pst_prophet st)\<rparr>) s) (\<lambda>s.
                upd_peer relay (push_relay q) (emit_event (Relay current relay dest (sp_id q) (sim_tick s)) s))
        | None \<Rightarrow>
            if candidates = [] then upd_peer current (push_relay q) s
            else Some (count_stat (\<lambda>x. x\<lparr>messages_dropped := messages_dropped x + 1\<rparr>)
                   (emit_event (Dropped (sp_id q) SimNoRoute (sim_tick s)) s))))"

definition route_message_with_retry ::
  "(f64 \<Rightarrow> f64) \<Rightarrow> int \<Rightarrow> pending_send \<Rightarrow> simulation \<Rightarrow> simulation option" where
  "route_message_with_retry rnd now se s =
    (if \<not> is_online s (se_from se) then
       if (case max_sender_retries (sim_config s) of None \<Rightarrow> False | Some n \<Rightarrow> se_retry_count se \<ge> n)
       then Some (emit_event (Dropped (PacketId (se_from se) 0) SimSenderOffline (sim_tick s))
              (count_stat (\<lambda>x. x\<lparr>messages_dropped := messages_dropped x + 1\<rparr>) s))
       else Some (s\<lparr>pending_sends := pending_sends s @ [se\<lparr>se_retry_count := se_retry_count se + 1\<rparr>]\<rparr>)
     else
       Option.bind (sim_peer s (se_from se)) (\<lambda>st.
         let (i, st) = next_packet_id st;
             s = set_peers s ((peers (sim_mesh s))(se_from se \<mapsto> st));
             hints = mesh_mutual_peers (sim_mesh s) (se_from se) (se_to se);
             q = sp_new i (se_from se) (se_to se) (se_payload se) hints (sim_tick s);
             dest_online = is_online s (se_to se);
             direct = are_connected (sim_mesh s) (se_from se) (se_to se)
         in if direct \<and> dest_online then deliver_packet rnd now q (se_from se) s
            else if direct then upd_peer (se_from se) (push_relay q) s
            else find_relay_path rnd now q (se_from se) s))"

definition process_send :: "(f64 \<Rightarrow> f64) \<Rightarrow> int \<Rightarrow> pending_send \<Rightarrow> simulation \<Rightarrow> simulation option" where
  "process_send rnd now se s =
    (if (case message_timeout (sim_config s) of None \<Rightarrow> False | Some t \<Rightarrow> sim_tick s - se_created_tick se > t)
     then Some (emit_event (Dropped (PacketId (se_from se) 0) SimExpired (sim_tick s))
            (count_stat (\<lambda>x. x\<lparr>messages_expired := messages_expired x + 1, messages_dropped := messages_dropped x + 1\<rparr>) s))
     else route_message_with_retry rnd now se
            (emit_event (Send (se_from se) (se_to se) (se_payload se) (sim_tick s)) s))"

definition process_pending_sends :: "(f64 \<Rightarrow> f64) \<Rightarrow> int \<Rightarrow> simulation \<Rightarrow> simulation option" where
  "process_pending_sends rnd now s = each (process_send rnd now) (pending_sends s) (s\<lparr>pending_sends := []\<rparr>)"

definition forward_packet ::
  "(f64 \<Rightarrow> f64) \<Rightarrow> int \<Rightarrow> peer_id \<Rightarrow> sealed_packet \<Rightarrow> simulation \<Rightarrow> simulation option" where
  "forward_packet rnd now p q s =
    (let dest = sp_destination q; dest_online = is_online s dest; direct = are_connected (sim_mesh s) p dest in
     if direct \<and> dest_online
     then Option.bind (upd_peer p (retain (sp_id q)) s) (deliver_packet rnd now q p)
     else if \<not> direct
     then Option.bind (upd_peer p (retain (sp_id q)) s) (find_relay_path rnd now q p)
     else Some s)"

definition process_relay_queue :: "(f64 \<Rightarrow> f64) \<Rightarrow> int \<Rightarrow> peer_id \<Rightarrow> simulation \<Rightarrow> simulation option" where
  "process_relay_queue rnd now p s =
    Option.bind (sim_peer s p) (\<lambda>st.
      if \<not> pst_online st then Some s else each (forward_packet rnd now p) (pst_relay_queue st) s)"

definition process_relay_queues :: "(f64 \<Rightarrow> f64) \<Rightarrow> int \<Rightarrow> simulation \<Rightarrow> simulation option" where
  "process_relay_queues rnd now s = each (process_relay_queue rnd now) (peer_ids (sim_mesh s)) s"

section \<open>Back-propagation\<close>

text \<open>\<open>Vec::remove\<close>, which panics beyond the end.\<close>

definition vec_remove :: "nat \<Rightarrow> 'a list \<Rightarrow> ('a \<times> 'a list) option" where
  "vec_remove i xs = (if i < length xs then Some (xs ! i, take i xs @ drop (Suc i) xs) else None)"

datatype fate = FateTimedOut | FateCompleted | FateMoves peer_id peer_id | FateWaits

definition backprop_fate :: "simulation \<Rightarrow> sim_backprop \<Rightarrow> fate" where
  "backprop_fate s b =
    (if (case backprop_timeout (sim_config s) of None \<Rightarrow> False | Some t \<Rightarrow> sim_tick s - sb_delivered_tick b > t)
     then FateTimedOut
     else if sb_index b \<ge> length (sb_path b) - 1 then FateCompleted
     else
      let current_idx = length (sb_path b) - 1 - sb_index b;
          current = sb_path b ! current_idx; nxt = sb_path b ! (current_idx - 1)
      in if is_online s current \<and> is_online s nxt then FateMoves current nxt else FateWaits)"

definition scan_backprop :: "simulation \<Rightarrow> sim_backprop \<Rightarrow> sim_backprop" where
  "scan_backprop s b =
    (case backprop_fate s b of FateMoves _ _ \<Rightarrow> b\<lparr>sb_index := sb_index b + 1\<rparr> | _ \<Rightarrow> b)"

definition indices_where :: "('a \<Rightarrow> bool) \<Rightarrow> 'a list \<Rightarrow> nat list" where
  "indices_where P xs = filter (\<lambda>i. P (xs ! i)) [0..<length xs]"

definition backprop_events :: "simulation \<Rightarrow> sim_backprop \<Rightarrow> network_event list" where
  "backprop_events s b =
    (case backprop_fate s b of
       FateMoves current nxt \<Rightarrow> [BackProp (sb_packet_id b) current current nxt (sim_tick s)] | _ \<Rightarrow> [])"

definition remove_timed_out :: "nat \<Rightarrow> simulation \<Rightarrow> simulation option" where
  "remove_timed_out idx s =
    Option.bind (vec_remove idx (backprops s)) (\<lambda>(b, bs).
      Some (count_stat (\<lambda>x. x\<lparr>backprops_timed_out := backprops_timed_out x + 1\<rparr>) (s\<lparr>backprops := bs\<rparr>)))"

definition clean_relay :: "sim_packet_id \<Rightarrow> peer_id \<Rightarrow> simulation \<Rightarrow> simulation" where
  "clean_relay i p s =
    (case sim_peer s p of None \<Rightarrow> s | Some st \<Rightarrow> set_peers s ((peers (sim_mesh s))(p \<mapsto> retain i st)))"

definition remove_completed :: "nat \<Rightarrow> simulation \<Rightarrow> simulation option" where
  "remove_completed idx s =
    Option.bind (vec_remove idx (backprops s)) (\<lambda>(b, bs).
      let s = count_stat (\<lambda>x. x\<lparr>total_backprop_latency := total_backprop_latency x + (sim_tick s - sb_delivered_tick b)\<rparr>)
            (s\<lparr>backprops := bs\<rparr>);
          s = (if length (sb_path b) > 2
               then fold (clean_relay (sb_packet_id b)) (take (length (sb_path b) - 2) (drop 1 (sb_path b))) s else s)
      in Some (count_stat (\<lambda>x. x\<lparr>backprops_completed := backprops_completed x + 1\<rparr>) s))"

definition process_backprops :: "simulation \<Rightarrow> simulation option" where
  "process_backprops s =
    (let completed = indices_where (\<lambda>b. backprop_fate s b = FateCompleted) (backprops s);
         timed_out = indices_where (\<lambda>b. backprop_fate s b = FateTimedOut) (backprops s);
         events = concat (map (backprop_events s) (backprops s));
         s = fold emit_event events (s\<lparr>backprops := map (scan_backprop s) (backprops s)\<rparr>)
     in Option.bind (each remove_timed_out (rev timed_out) s) (each remove_completed (rev completed)))"

section \<open>Steps\<close>

definition process_prophet_aging :: "(f64 \<Rightarrow> f64) \<Rightarrow> int \<Rightarrow> simulation \<Rightarrow> simulation" where
  "process_prophet_aging rnd now s =
    count_stat (\<lambda>x. x\<lparr>prophet_aging_cycles := prophet_aging_cycles x + 1\<rparr>)
      (set_peers s (\<lambda>p. map_option (\<lambda>st. st\<lparr>pst_prophet := force_age rnd now (pst_prophet st)\<rparr>) (peers (sim_mesh s) p)))"

definition step :: "(f64 \<Rightarrow> f64) \<Rightarrow> int \<Rightarrow> (peer_id \<Rightarrow> f64) \<Rightarrow> simulation \<Rightarrow> simulation option" where
  "step rnd now draw s =
    Option.bind (process_state_transitions draw (s\<lparr>sim_tick := sim_tick s + 1\<rparr>)) (\<lambda>s.
    Option.bind (process_awake_signals rnd now s) (\<lambda>s.
    Option.bind (process_pending_sends rnd now s) (\<lambda>s.
    Option.bind (process_relay_queues rnd now s) (\<lambda>s.
    Option.bind (process_backprops s) (\<lambda>s.
      if prophet_aging_interval (sim_config s) = 0 then None
      else if sim_tick s mod prophet_aging_interval (sim_config s) = 0 then Some (process_prophet_aging rnd now s)
      else Some s)))))"

text \<open>\<open>run_ticks\<close> with the instants and random numbers of its steps.\<close>

definition run_ticks ::
  "(f64 \<Rightarrow> f64) \<Rightarrow> (int \<times> (peer_id \<Rightarrow> f64)) list \<Rightarrow> simulation \<Rightarrow> simulation option" where
  "run_ticks rnd inputs = each (\<lambda>(now, draw). step rnd now draw) inputs"

text \<open>The loop of \<open>run\<close>, after \<open>initialize\<close>, with the instants and random numbers of its steps by tick.\<close>

partial_function (option) run_loop ::
  "(f64 \<Rightarrow> f64) \<Rightarrow> (nat \<Rightarrow> int) \<Rightarrow> (nat \<Rightarrow> peer_id \<Rightarrow> f64) \<Rightarrow> simulation \<Rightarrow> simulation option" where
  "run_loop rnd now draw s =
    (if sim_tick s < max_ticks (sim_config s)
     then Option.bind (step rnd (now (sim_tick s)) (draw (sim_tick s)) s) (\<lambda>s. run_loop rnd now draw s)
     else Some s)"

definition sim_run ::
  "(f64 \<Rightarrow> f64) \<Rightarrow> (nat \<Rightarrow> int) \<Rightarrow> (nat \<Rightarrow> peer_id \<Rightarrow> f64) \<Rightarrow> (peer_id \<Rightarrow> f64) \<Rightarrow> simulation \<Rightarrow> simulation option" where
  "sim_run rnd now draw draw0 s =
    Option.bind (initialize draw0 s) (\<lambda>s. run_loop rnd now draw s)"

section \<open>Recorded events of the cryptography and of invitations\<close>

definition record_pq_signature_created :: "peer_id \<Rightarrow> nat \<Rightarrow> nat \<Rightarrow> simulation \<Rightarrow> simulation" where
  "record_pq_signature_created p latency message_size s =
    emit_event (PQSignatureCreated p latency message_size (sim_tick s))
      (count_stat (\<lambda>x. x\<lparr>pq_signatures_created := pq_signatures_created x + 1,
         pq_signature_create_time_us := pq_signature_create_time_us x + latency\<rparr>) s)"

definition record_pq_signature_verified :: "peer_id \<Rightarrow> peer_id \<Rightarrow> nat \<Rightarrow> bool \<Rightarrow> simulation \<Rightarrow> simulation" where
  "record_pq_signature_verified p sender latency success s =
    emit_event (PQSignatureVerified p sender latency success (sim_tick s))
      (count_stat (\<lambda>x. x\<lparr>pq_signature_verify_time_us := pq_signature_verify_time_us x + latency\<rparr>)
        (count_stat (\<lambda>x. if success then x\<lparr>pq_signatures_verified := pq_signatures_verified x + 1\<rparr>
           else x\<lparr>pq_signature_failures := pq_signature_failures x + 1\<rparr>) s))"

definition record_kem_encapsulation :: "peer_id \<Rightarrow> peer_id \<Rightarrow> nat \<Rightarrow> simulation \<Rightarrow> simulation" where
  "record_kem_encapsulation p target latency s =
    emit_event (KEMEncapsulation p target latency (sim_tick s))
      (count_stat (\<lambda>x. x\<lparr>pq_kem_encapsulations := pq_kem_encapsulations x + 1,
         pq_kem_encap_time_us := pq_kem_encap_time_us x + latency\<rparr>) s)"

definition record_kem_decapsulation :: "peer_id \<Rightarrow> peer_id \<Rightarrow> nat \<Rightarrow> bool \<Rightarrow> simulation \<Rightarrow> simulation" where
  "record_kem_decapsulation p sender latency success s =
    emit_event (KEMDecapsulation p sender latency success (sim_tick s))
      (count_stat (\<lambda>x. x\<lparr>pq_kem_decap_time_us := pq_kem_decap_time_us x + latency\<rparr>)
        (count_stat (\<lambda>x. if success then x\<lparr>pq_kem_decapsulations := pq_kem_decapsulations x + 1\<rparr>
           else x\<lparr>pq_kem_failures := pq_kem_failures x + 1\<rparr>) s))"

definition record_invite_created :: "peer_id \<Rightarrow> peer_id \<Rightarrow> string \<Rightarrow> simulation \<Rightarrow> simulation" where
  "record_invite_created src dst i s =
    emit_event (InviteCreated src dst i (sim_tick s)) (count_stat (\<lambda>x. x\<lparr>invites_created := invites_created x + 1\<rparr>) s)"

definition record_invite_accepted :: "peer_id \<Rightarrow> string \<Rightarrow> simulation \<Rightarrow> simulation" where
  "record_invite_accepted p i s =
    emit_event (InviteAccepted p i (sim_tick s)) (count_stat (\<lambda>x. x\<lparr>invites_accepted := invites_accepted x + 1\<rparr>) s)"

definition record_invite_failed :: "peer_id \<Rightarrow> string \<Rightarrow> string \<Rightarrow> simulation \<Rightarrow> simulation" where
  "record_invite_failed p i reason s =
    emit_event (InviteFailed p i reason (sim_tick s)) (count_stat (\<lambda>x. x\<lparr>invites_failed := invites_failed x + 1\<rparr>) s)"

section \<open>What the peers hold\<close>

definition tally :: "('v \<Rightarrow> 'a :: comm_monoid_add) \<Rightarrow> ('k \<rightharpoonup> 'v) \<Rightarrow> 'a" where
  "tally g m = (\<Sum>j \<in> dom m. g (the (m j)))"

lemma tally_upd:
  assumes "finite (dom m)" and "m k = Some v"
  shows "tally g (m(k \<mapsto> v')) + g v = tally g m + g v'"
proof -
  have k: "k \<in> dom m" and d: "dom (m(k \<mapsto> v')) = dom m" using assms(2) by auto
  have "sum (\<lambda>j. g (the ((m(k \<mapsto> v')) j))) (dom m - {k}) = sum (\<lambda>j. g (the (m j))) (dom m - {k})"
    by (intro sum.cong) auto
  then show ?thesis
    unfolding tally_def d using sum.remove[OF assms(1) k, of "\<lambda>j. g (the ((m(k \<mapsto> v')) j))"]
      sum.remove[OF assms(1) k, of "\<lambda>j. g (the (m j))"] assms(2) by (simp add: ac_simps)
qed

lemma tally_le:
  fixes g :: "'v \<Rightarrow> 'a multiset"
  assumes "finite (dom m)" and "m k = Some v"
  shows "g v \<subseteq># tally g m"
proof -
  have "k \<in> dom m" using assms(2) by auto
  from sum.remove[OF assms(1) this, of "\<lambda>j. g (the (m j))"] show ?thesis using assms(2) by (simp add: tally_def)
qed

definition queued :: "peer_state \<Rightarrow> sim_packet_id multiset" where
  "queued st = mset (map sp_id (pst_relay_queue st))"

definition received :: "peer_state \<Rightarrow> sim_packet_id multiset" where
  "received st = mset (map sp_id (pst_inbox st))"

definition held :: "peer_state \<Rightarrow> sim_packet_id multiset" where
  "held st = queued st + received st"

text \<open>A packet has visited one peer at the start and one more per hop, of which ten are allowed.\<close>

definition travelling :: "peer_id set \<Rightarrow> sealed_packet \<Rightarrow> bool" where
  "travelling D q \<longleftrightarrow> sp_visited q \<subseteq> D \<and> finite (sp_visited q) \<and> card (sp_visited q) + unat (sp_ttl q) = 11"

definition peer_ok :: "peer_id set \<Rightarrow> peer_id \<Rightarrow> peer_state \<Rightarrow> bool" where
  "peer_ok D p st \<longleftrightarrow> pst_id st = p \<and>
     (\<forall>q \<in> set (pst_relay_queue st). travelling D q \<and> p \<in> sp_visited q) \<and>
     (\<forall>q \<in> set (pst_inbox st). travelling D q \<and> sp_destination q = p) \<and>
     pst_delivered st = map sp_id (pst_inbox st)"

text \<open>
  The invariant of the peers, with the packets \<open>hs\<close> that are in the hands of the code: taken out of a
  queue or newly made, and not yet put anywhere.
\<close>

definition peers_inv :: "(peer_id \<rightharpoonup> peer_id set) \<Rightarrow> sealed_packet list \<Rightarrow> (peer_id \<rightharpoonup> peer_state) \<Rightarrow> bool" where
  "peers_inv A hs ps \<longleftrightarrow> graph_ok A \<and> map_option pst_connections \<circ> ps = A \<and>
     (\<forall>p st. ps p = Some st \<longrightarrow> peer_ok (dom A) p st) \<and>
     (\<forall>i. count (tally held ps + mset (map sp_id hs)) i \<le> 1) \<and>
     (\<forall>i \<in># tally held ps + mset (map sp_id hs). \<exists>st. ps (pid_source i) = Some st \<and> pid_sequence i < pst_sequence st) \<and>
     (\<forall>q \<in> set hs. travelling (dom A) q)"

lemma peers_invD:
  assumes "peers_inv A hs ps"
  shows "dom ps = dom A" and "finite (dom ps)" and "ps p = Some st \<Longrightarrow> peer_ok (dom A) p st"
    and "ps p = Some st \<Longrightarrow> A p = Some (pst_connections st)"
    and "q \<in> set hs \<Longrightarrow> travelling (dom A) q"
proof -
  have c: "map_option pst_connections \<circ> ps = A" and g: "graph_ok A" using assms by (auto simp: peers_inv_def)
  then show d: "dom ps = dom A" by (metis dom_map_option_comp)
  with g show "finite (dom ps)" by (simp add: graph_ok_def)
  show "ps p = Some st \<Longrightarrow> A p = Some (pst_connections st)" using c by auto
qed (use assms in \<open>auto simp: peers_inv_def\<close>)

text \<open>Replacing the state of one peer.\<close>

lemma peers_inv_upd:
  assumes inv: "peers_inv A hs ps" and p: "ps p = Some st"
    and c: "pst_connections st' = pst_connections st" and ok: "peer_ok (dom A) p st'"
    and ids: "held st' + mset (map sp_id hs') = held st + mset (map sp_id hs)"
    and sq: "pst_sequence st \<le> pst_sequence st'" and tr: "\<forall>q \<in> set hs'. travelling (dom A) q"
  shows "peers_inv A hs' (ps(p \<mapsto> st'))"
proof -
  let ?ps = "ps(p \<mapsto> st')"
  have "tally held ?ps + held st + mset (map sp_id hs') = tally held ps + held st' + mset (map sp_id hs')"
    using tally_upd[OF peers_invD(2)[OF inv] p, of held st'] by simp
  also have "\<dots> = tally held ps + held st + mset (map sp_id hs)" using ids by (simp add: add.assoc)
  finally have all: "tally held ?ps + mset (map sp_id hs') = tally held ps + mset (map sp_id hs)"
    by (simp add: ac_simps)
  have "map_option pst_connections (ps j) = A j" for j using inv by (auto simp: peers_inv_def)
  then have "map_option pst_connections \<circ> ?ps = A"
    using c peers_invD(4)[OF inv p] by (simp add: fun_eq_iff)
  moreover have "\<exists>t. ?ps j = Some t \<and> n < pst_sequence t" if "\<exists>t. ps j = Some t \<and> n < pst_sequence t" for j n
    using that p sq by (auto intro: less_le_trans)
  ultimately show ?thesis
    using inv ok tr unfolding peers_inv_def all by auto
qed

text \<open>The updates the code makes.\<close>

lemma peers_inv_neutral:
  assumes "peers_inv A hs ps" and "ps p = Some st"
    and "pst_connections st' = pst_connections st" "pst_id st' = pst_id st" "pst_relay_queue st' = pst_relay_queue st"
      "pst_inbox st' = pst_inbox st" "pst_delivered st' = pst_delivered st" "pst_sequence st' = pst_sequence st"
  shows "peers_inv A hs (ps(p \<mapsto> st'))"
  using peers_invD(3)[OF assms(1,2)] peers_invD(5)[OF assms(1)] assms
  by (intro peers_inv_upd[OF assms(1,2)]) (auto simp: peer_ok_def held_def queued_def received_def)

lemma mset_filter_id:
  "q \<in> set xs \<Longrightarrow> count (mset (map sp_id xs)) (sp_id q) \<le> 1 \<Longrightarrow>
     mset (map sp_id (filter (\<lambda>r. sp_id r \<noteq> sp_id q) xs)) + {#sp_id q#} = mset (map sp_id xs)"
proof (induction xs)
  case (Cons x xs)
  show ?case
  proof (cases "sp_id x = sp_id q")
    case True
    with Cons.prems(2) have "count (mset (map sp_id xs)) (sp_id q) = 0" by simp
    then have "sp_id q \<notin># mset (map sp_id xs)" by (simp only: count_eq_zero_iff not_False_eq_True)
    then have "\<forall>r \<in> set xs. sp_id r \<noteq> sp_id q" by (force simp: image_iff)
    then have "filter (\<lambda>r. sp_id r \<noteq> sp_id q) xs = xs" by simp
    with True show ?thesis by simp
  next
    case False
    with Cons show ?thesis by auto
  qed
qed simp

lemma peers_inv_take:
  assumes inv: "peers_inv A hs ps" and p: "ps p = Some st" and q: "q \<in> set (pst_relay_queue st)"
  shows "peers_inv A (q # hs) (ps(p \<mapsto> retain (sp_id q) st))" and "queued (retain (sp_id q) st) + {#sp_id q#} = queued st"
proof -
  have ok: "peer_ok (dom A) p st" by (rule peers_invD(3)[OF inv p])
  have "count (queued st) (sp_id q) \<le> count (held st) (sp_id q)" by (simp add: held_def)
  also have "\<dots> \<le> count (tally held ps) (sp_id q)"
    using tally_le[OF peers_invD(2)[OF inv] p, of held] by (rule mset_subset_eq_count)
  also have "\<dots> \<le> count (tally held ps + mset (map sp_id hs)) (sp_id q)" by simp
  also have "\<dots> \<le> 1" using inv by (auto simp: peers_inv_def)
  finally show eq: "queued (retain (sp_id q) st) + {#sp_id q#} = queued st"
    using mset_filter_id[OF q] by (simp add: queued_def retain_def)
  show "peers_inv A (q # hs) (ps(p \<mapsto> retain (sp_id q) st))"
  proof (rule peers_inv_upd[OF inv p])
    show "held (retain (sp_id q) st) + mset (map sp_id (q # hs)) = held st + mset (map sp_id hs)"
      by (simp add: held_def eq[symmetric]) (simp add: received_def retain_def)
    show "\<forall>q' \<in> set (q # hs). travelling (dom A) q'" using ok q peers_invD(5)[OF inv] by (auto simp: peer_ok_def)
  qed (use ok in \<open>auto simp: retain_def peer_ok_def\<close>)
qed

lemma peers_inv_push:
  assumes inv: "peers_inv A (q # hs) ps" and p: "ps p = Some st" and v: "p \<in> sp_visited q"
  shows "peers_inv A hs (ps(p \<mapsto> push_relay q st))"
proof (rule peers_inv_upd[OF inv p])
  show "peer_ok (dom A) p (push_relay q st)"
    using peers_invD(3)[OF inv p] peers_invD(5)[OF inv, of q] v by (auto simp: peer_ok_def push_relay_def)
qed (use peers_invD(5)[OF inv] in \<open>auto simp: push_relay_def held_def queued_def received_def\<close>)

definition receive :: "sealed_packet \<Rightarrow> peer_state \<Rightarrow> peer_state" where
  "receive q st = st\<lparr>pst_inbox := pst_inbox st @ [q], pst_delivered := pst_delivered st @ [sp_id q]\<rparr>"

lemma peers_inv_receive:
  assumes inv: "peers_inv A (q # hs) ps" and p: "ps (sp_destination q) = Some st"
  shows "peers_inv A hs (ps(sp_destination q \<mapsto> receive q st))"
proof (rule peers_inv_upd[OF inv p])
  show "peer_ok (dom A) (sp_destination q) (receive q st)"
    using peers_invD(3)[OF inv p] peers_invD(5)[OF inv, of q] by (auto simp: peer_ok_def receive_def)
qed (use peers_invD(5)[OF inv] in \<open>auto simp: receive_def held_def queued_def received_def\<close>)

lemma peers_inv_drop: "peers_inv A (q # hs) ps \<Longrightarrow> peers_inv A hs ps"
proof -
  assume inv: "peers_inv A (q # hs) ps"
  have "count (tally held ps + mset (map sp_id hs)) i \<le> count (tally held ps + mset (map sp_id (q # hs))) i" for i by simp
  moreover have "count (tally held ps + mset (map sp_id (q # hs))) i \<le> 1" for i using inv by (auto simp: peers_inv_def)
  ultimately have "count (tally held ps + mset (map sp_id hs)) i \<le> 1" for i by (rule order_trans)
  with inv show ?thesis unfolding peers_inv_def by simp
qed

lemma peers_inv_hand:
  "peers_inv A (q # hs) ps \<Longrightarrow> sp_id q' = sp_id q \<Longrightarrow> travelling (dom A) q' \<Longrightarrow> peers_inv A (q' # hs) ps"
  unfolding peers_inv_def by simp

lemma peers_inv_create:
  assumes inv: "peers_inv A hs ps" and p: "ps p = Some st" and i: "next_packet_id st = (i, st')" 
  shows "peers_inv A (sp_new i p d pl hints t # hs) (ps(p \<mapsto> st'))"
proof -
  let ?q = "sp_new i p d pl hints t" and ?ps = "ps(p \<mapsto> st')"
  have i': "i = PacketId p (pst_sequence st)" and st': "st' = st\<lparr>pst_sequence := pst_sequence st + 1\<rparr>"
    using i peers_invD(3)[OF inv p] by (auto simp: next_packet_id_def peer_ok_def)
  have inv': "peers_inv A hs ?ps"
    using peers_invD(3)[OF inv p] peers_invD(5)[OF inv]
    by (intro peers_inv_upd[OF inv p]) (auto simp: st' peer_ok_def held_def queued_def received_def)
  have "i \<notin># tally held ps + mset (map sp_id hs)"
  proof
    assume "i \<in># tally held ps + mset (map sp_id hs)"
    then obtain t where "ps (pid_source i) = Some t" "pid_sequence i < pst_sequence t"
      using inv unfolding peers_inv_def by blast
    with p i' show False by simp
  qed
  moreover have "tally held ?ps = tally held ps"
    using tally_upd[OF peers_invD(2)[OF inv] p, of held st'] by (simp add: st' held_def queued_def received_def)
  ultimately have fresh: "count (tally held ?ps + mset (map sp_id hs)) i = 0" by (simp only: not_in_iff)
  have c: "count (tally held ?ps + mset (map sp_id hs)) j \<le> 1" for j using inv' by (auto simp: peers_inv_def)
  have "sp_id ?q = i" and "travelling (dom A) ?q"
    using peers_invD(1)[OF inv] p by (auto simp: sp_new_def travelling_def)
  moreover have "count (tally held ?ps + mset (map sp_id (?q # hs))) j \<le> 1" for j
    using c[of j] fresh \<open>sp_id ?q = i\<close> by (cases "j = i") auto
  moreover have "\<exists>t. ?ps (pid_source i) = Some t \<and> pid_sequence i < pst_sequence t" by (simp add: i' st')
  ultimately show ?thesis using inv' unfolding peers_inv_def by auto
qed

section \<open>The invariant of the simulation\<close>

text \<open>
  \<open>n\<close> counts the messages taken from the waiting list and not yet handled. Every message sent is
  waiting, in a queue, in an inbox, dropped, or in hand.
\<close>

definition sim_inv :: "(peer_id \<rightharpoonup> peer_id set) \<Rightarrow> nat \<Rightarrow> sealed_packet list \<Rightarrow> simulation \<Rightarrow> bool" where
  "sim_inv A n hs s \<longleftrightarrow> adjacency (sim_mesh s) = A \<and> peers_inv A hs (peers (sim_mesh s)) \<and>
     (\<forall>b \<in> set (backprops s). 2 \<le> length (sb_path b) \<and> sb_packet_id b \<in># tally received (peers (sim_mesh s))) \<and>
     messages_sent (stats s) = n + length (pending_sends s) + length hs + size (tally queued (peers (sim_mesh s))) +
       size (tally received (peers (sim_mesh s))) + messages_dropped (stats s) \<and>
     messages_delivered (stats s) = size (tally received (peers (sim_mesh s)))"

definition queue_of :: "simulation \<Rightarrow> peer_id \<Rightarrow> sealed_packet list" where
  "queue_of s p = (case sim_peer s p of None \<Rightarrow> [] | Some st \<Rightarrow> pst_relay_queue st)"

lemma upd_peer_Some:
  "sim_peer s p = Some st \<Longrightarrow> upd_peer p f s = Some (set_peers s ((peers (sim_mesh s))(p \<mapsto> f st)))"
  by (simp add: upd_peer_def upd_mut_def sim_peer_def)

named_theorems sim_simps \<open>bookkeeping on the state of the simulation\<close>

lemma set_peers_simps [sim_simps]:
  "peers (sim_mesh (set_peers s ps)) = ps" "adjacency (sim_mesh (set_peers s ps)) = adjacency (sim_mesh s)"
  "pending_sends (set_peers s ps) = pending_sends s" "backprops (set_peers s ps) = backprops s"
  "stats (set_peers s ps) = stats s" "sim_tick (set_peers s ps) = sim_tick s" "sim_config (set_peers s ps) = sim_config s"
  "sim_peer (set_peers s ps) p = ps p"
  by (simp_all add: set_peers_def sim_peer_def)

lemma emit_event_simps [sim_simps]:
  "sim_mesh (emit_event e s) = sim_mesh s" "pending_sends (emit_event e s) = pending_sends s"
  "backprops (emit_event e s) = backprops s" "stats (emit_event e s) = stats s"
  "sim_tick (emit_event e s) = sim_tick s" "sim_config (emit_event e s) = sim_config s"
  "sim_peer (emit_event e s) = sim_peer s"
  by (simp_all add: emit_event_def sim_peer_def fun_eq_iff)

lemma count_stat_simps [sim_simps]:
  "sim_mesh (count_stat f s) = sim_mesh s" "pending_sends (count_stat f s) = pending_sends s"
  "backprops (count_stat f s) = backprops s" "stats (count_stat f s) = f (stats s)"
  "sim_tick (count_stat f s) = sim_tick s" "sim_config (count_stat f s) = sim_config s"
  "sim_peer (count_stat f s) = sim_peer s"
  by (simp_all add: count_stat_def sim_peer_def fun_eq_iff)

lemma queue_of_simps [sim_simps]:
  "queue_of (emit_event e s) = queue_of s" "queue_of (count_stat f s) = queue_of s"
  by (simp_all add: queue_of_def sim_simps fun_eq_iff)

lemma sim_invD:
  assumes "sim_inv A n hs s"
  shows "adjacency (sim_mesh s) = A" and "peers_inv A hs (peers (sim_mesh s))" and "finite (dom (peers (sim_mesh s)))"
    and "p \<in> dom A \<Longrightarrow> \<exists>st. sim_peer s p = Some st" and "sim_peer s p = Some st \<Longrightarrow> p \<in> dom A"
  using assms peers_invD(1,2)[of A hs "peers (sim_mesh s)"] by (auto simp: sim_inv_def sim_peer_def)

lemma size_tally_upd:
  fixes g :: "'v \<Rightarrow> 'a multiset"
  assumes "finite (dom m)" and "m k = Some v"
  shows "size (tally g (m(k \<mapsto> v'))) + size (g v) = size (tally g m) + size (g v')"
  using arg_cong[OF tally_upd[OF assms, of g v'], of size] by simp

text \<open>An update of a peer that leaves its packets alone.\<close>

lemma sim_inv_neutral:
  assumes inv: "sim_inv A n hs s" and p: "sim_peer s p = Some st"
    and eq: "pst_connections st' = pst_connections st" "pst_id st' = pst_id st" "pst_relay_queue st' = pst_relay_queue st"
      "pst_inbox st' = pst_inbox st" "pst_delivered st' = pst_delivered st" "pst_sequence st' = pst_sequence st"
  shows "sim_inv A n hs (set_peers s ((peers (sim_mesh s))(p \<mapsto> st')))"
    and "queue_of (set_peers s ((peers (sim_mesh s))(p \<mapsto> st'))) = queue_of s"
proof -
  let ?ps = "peers (sim_mesh s)"
  have p': "?ps p = Some st" using p by (simp add: sim_peer_def)
  note fin = sim_invD(3)[OF inv]
  have "tally queued (?ps(p \<mapsto> st')) = tally queued ?ps" "tally received (?ps(p \<mapsto> st')) = tally received ?ps"
    using tally_upd[OF fin p', of queued st'] tally_upd[OF fin p', of received st'] eq by (simp_all add: queued_def received_def)
  then show "sim_inv A n hs (set_peers s (?ps(p \<mapsto> st')))"
    using inv peers_inv_neutral[OF sim_invD(2)[OF inv] p' eq] by (simp add: sim_inv_def sim_simps)
  show "queue_of (set_peers s (?ps(p \<mapsto> st'))) = queue_of s"
    using p' eq by (auto simp: queue_of_def sim_simps fun_eq_iff sim_peer_def)
qed

text \<open>A call returns, without a panic, in a state with a property.\<close>

definition returns :: "'s option \<Rightarrow> ('s \<Rightarrow> bool) \<Rightarrow> bool" where
  "returns r P \<longleftrightarrow> (\<exists>t. r = Some t \<and> P t)"

lemma returns_Some [simp]: "returns (Some s) P \<longleftrightarrow> P s"
  by (simp add: returns_def)

lemma returns_bind: "returns r Q \<Longrightarrow> (\<And>t. Q t \<Longrightarrow> returns (f t) P) \<Longrightarrow> returns (Option.bind r f) P"
  by (auto simp: returns_def)

lemma returns_mono: "returns r Q \<Longrightarrow> (\<And>t. Q t \<Longrightarrow> P t) \<Longrightarrow> returns r P"
  by (auto simp: returns_def)

lemma returns_each:
  assumes "\<And>x xs s. I (x # xs) s \<Longrightarrow> returns (f x s) (I xs)" and "I xs s"
  shows "returns (each f xs s) (I [])"
  using each_inv[of I f xs s] assms by (simp add: returns_def)

lemma queue_of_upd:
  "sim_peer s p = Some st \<Longrightarrow>
   queue_of (set_peers s ((peers (sim_mesh s))(p \<mapsto> st'))) = (queue_of s)(p := pst_relay_queue st')"
  by (auto simp: queue_of_def sim_simps fun_eq_iff sim_peer_def)

lemma sim_take:
  assumes inv: "sim_inv A n hs s" and q: "q \<in> set (queue_of s p)"
  shows "returns (upd_peer p (retain (sp_id q)) s) (\<lambda>t. sim_inv A n (q # hs) t \<and>
    queue_of t = (queue_of s)(p := filter (\<lambda>r. sp_id r \<noteq> sp_id q) (queue_of s p)))"
proof -
  let ?ps = "peers (sim_mesh s)"
  from q obtain st where p: "sim_peer s p = Some st" and q': "q \<in> set (pst_relay_queue st)"
    by (cases "sim_peer s p") (auto simp: queue_of_def)
  then have p': "?ps p = Some st" by (simp add: sim_peer_def)
  note t = peers_inv_take[OF sim_invD(2)[OF inv] p' q'] and fin = sim_invD(3)[OF inv]
  have "received (retain (sp_id q) st) = received st" by (simp add: received_def retain_def)
  then have r: "tally received (?ps(p \<mapsto> retain (sp_id q) st)) = tally received ?ps"
    using tally_upd[OF fin p', of received "retain (sp_id q) st"] by simp
  have "size (queued (retain (sp_id q) st)) + 1 = size (queued st)" unfolding t(2)[symmetric] by simp
  then have "size (tally queued (?ps(p \<mapsto> retain (sp_id q) st))) + 1 = size (tally queued ?ps)"
    using size_tally_upd[OF fin p', of queued "retain (sp_id q) st"] by linarith
  then have "sim_inv A n (q # hs) (set_peers s (?ps(p \<mapsto> retain (sp_id q) st)))"
    using inv t(1) by (simp add: sim_inv_def sim_simps r)
  moreover have "queue_of s p = pst_relay_queue st" by (simp add: queue_of_def p)
  ultimately show ?thesis by (simp add: upd_peer_Some[OF p] queue_of_upd[OF p] retain_def)
qed

lemma sim_push:
  assumes inv: "sim_inv A n (q # hs) s" and p: "p \<in> dom A" and v: "p \<in> sp_visited q"
  shows "returns (upd_peer p (push_relay q) s) (\<lambda>t. sim_inv A n hs t \<and> queue_of t = (queue_of s)(p := queue_of s p @ [q]))"
proof -
  let ?ps = "peers (sim_mesh s)"
  from sim_invD(4)[OF inv p] obtain st where st: "sim_peer s p = Some st" by blast
  then have p': "?ps p = Some st" by (simp add: sim_peer_def)
  note fin = sim_invD(3)[OF inv]
  have r: "tally received (?ps(p \<mapsto> push_relay q st)) = tally received ?ps"
    using tally_upd[OF fin p', of received "push_relay q st"] by (simp add: received_def push_relay_def)
  have "size (tally queued (?ps(p \<mapsto> push_relay q st))) = size (tally queued ?ps) + 1"
    using size_tally_upd[OF fin p', of queued "push_relay q st"] by (simp add: queued_def push_relay_def)
  then have "sim_inv A n hs (set_peers s (?ps(p \<mapsto> push_relay q st)))"
    using inv peers_inv_push[OF sim_invD(2)[OF inv] p' v] by (simp add: sim_inv_def sim_simps r)
  then show ?thesis by (simp add: upd_peer_Some[OF st] queue_of_upd[OF st] push_relay_def) (simp add: queue_of_def st)
qed

lemma sim_receive:
  assumes inv: "sim_inv A n (q # hs) s" and d: "sim_peer s (sp_destination q) = Some st"
  defines "t \<equiv> count_stat (\<lambda>x. x\<lparr>messages_delivered := messages_delivered x + 1\<rparr>)
      (set_peers s ((peers (sim_mesh s))(sp_destination q \<mapsto> receive q st)))"
  shows "sim_inv A n hs t" and "queue_of t = queue_of s" and "sp_id q \<in># tally received (peers (sim_mesh t))"
proof -
  let ?ps = "peers (sim_mesh s)" and ?d = "sp_destination q"
  have p': "?ps ?d = Some st" using d by (simp add: sim_peer_def)
  note fin = sim_invD(3)[OF inv]
  have qd: "tally queued (?ps(?d \<mapsto> receive q st)) = tally queued ?ps"
    using tally_upd[OF fin p', of queued "receive q st"] by (simp add: queued_def receive_def)
  have "tally received (?ps(?d \<mapsto> receive q st)) + received st = tally received ?ps + (received st + {#sp_id q#})"
    using tally_upd[OF fin p', of received "receive q st"] by (simp add: received_def receive_def)
  then have r: "tally received (?ps(?d \<mapsto> receive q st)) = add_mset (sp_id q) (tally received ?ps)" by simp
  show "sim_inv A n hs t"
    using inv peers_inv_receive[OF sim_invD(2)[OF inv] p'] by (auto simp: sim_inv_def sim_simps t_def qd r)
  show "queue_of t = queue_of s"
    using queue_of_upd[OF d, of "receive q st"] p' by (auto simp: t_def queue_of_def sim_simps fun_eq_iff receive_def sim_peer_def)
  show "sp_id q \<in># tally received (peers (sim_mesh t))" by (simp add: t_def sim_simps r)
qed

lemma sim_drop:
  "sim_inv A n (q # hs) s \<Longrightarrow>
   sim_inv A n hs (count_stat (\<lambda>x. x\<lparr>messages_dropped := messages_dropped x + 1\<rparr>) (emit_event e s))"
  using peers_inv_drop by (auto simp: sim_inv_def sim_simps)

text \<open>Only the network, the waiting and confirmed messages and three of the statistics matter.\<close>

lemma sim_inv_cong:
  assumes "sim_mesh t = sim_mesh s" "pending_sends t = pending_sends s" "backprops t = backprops s"
    "messages_sent (stats t) = messages_sent (stats s)" "messages_dropped (stats t) = messages_dropped (stats s)"
    "messages_delivered (stats t) = messages_delivered (stats s)"
  shows "sim_inv A n hs t = sim_inv A n hs s" and "queue_of t = queue_of s"
  using assms by (simp_all add: sim_inv_def queue_of_def sim_peer_def fun_eq_iff)

lemma deliver_packet_inv:
  assumes inv: "sim_inv A n (q # hs) s" and v: "via \<in> dom A" and d: "sp_destination q \<in> dom A"
  shows "returns (deliver_packet rnd now q via s) (\<lambda>t. sim_inv A n hs t \<and> queue_of t = queue_of s)"
proof -
  from sim_invD(4)[OF inv v] obtain st where st: "sim_peer s via = Some st" by blast
  define s1 where "s1 = set_peers s ((peers (sim_mesh s))(via \<mapsto>
      st\<lparr>pst_prophet := encounter rnd now (sp_destination q) (pst_prophet st)\<rparr>))"
  have inv1: "sim_inv A n (q # hs) s1" and q1: "queue_of s1 = queue_of s"
    unfolding s1_def by (rule sim_inv_neutral[OF inv st]; simp)+
  from sim_invD(4)[OF inv1 d] obtain sd where sd: "sim_peer s1 (sp_destination q) = Some sd" by blast
  note r = sim_receive[OF inv1 sd]
  have len: "length (sorted_list_of_set (sp_visited q)) = card (sp_visited q)" by simp
  have *: "upd_peer via (\<lambda>st. st\<lparr>pst_prophet := encounter rnd now (sp_destination q) (pst_prophet st)\<rparr>) s = Some s1"
    by (simp add: upd_peer_Some[OF st] s1_def)
  have rec: "(\<lambda>st. st\<lparr>pst_inbox := pst_inbox st @ [q], pst_delivered := pst_delivered st @ [sp_id q]\<rparr>) = receive q"
    by (simp add: receive_def fun_eq_iff)
  from r(1,3) r(2)[unfolded q1] show ?thesis
    unfolding deliver_packet_def Let_def * Option.bind.simps rec upd_peer_Some[OF sd]
    by (auto simp: sim_inv_def sim_simps queue_of_def fun_eq_iff sim_peer_def)
qed

lemma unat_dec: "(w :: u8) \<noteq> 0 \<Longrightarrow> unat (w - 1) = unat w - 1"
proof -
  assume "w \<noteq> 0"
  then have "1 \<le> w" by (simp add: word_le_nat_alt Suc_le_eq unat_gt_0)
  then show ?thesis by (simp add: unat_sub)
qed

lemma travelling_hop:
  assumes "travelling D q" and "sp_decrement_ttl q = (True, q')" and "p \<in> D" and "p \<notin> sp_visited q"
  shows "travelling D (sp_mark_visited p q')"
proof -
  have "sp_ttl q \<noteq> 0" and q': "q' = q\<lparr>sp_ttl := sp_ttl q - 1\<rparr>"
    using assms(2) by (auto simp: sp_decrement_ttl_def split: if_splits)
  then have "unat (sp_ttl q) > 0" and "unat (sp_ttl q - 1) = unat (sp_ttl q) - 1" by (simp_all add: unat_dec unat_gt_0)
  with assms(1,3,4) show ?thesis by (auto simp: travelling_def sp_mark_visited_def q')
qed

lemma find_in: "List.find P xs = Some x \<Longrightarrow> x \<in> set xs"
  by (induction xs) (auto split: if_splits)

lemma find_True: "List.find (\<lambda>_. True) xs = None \<longleftrightarrow> xs = []"
  by (cases xs) auto

lemma or_else_Some: "or_else a b = Some x \<longleftrightarrow> a = Some x \<or> a = None \<and> b = Some x"
  by (auto simp: or_else_def split: option.splits)

lemma or_else_None: "or_else a b = None \<longleftrightarrow> a = None \<and> b = None"
  by (auto simp: or_else_def split: option.splits)

lemma find_relay_path_inv:
  assumes inv: "sim_inv A n (q # hs) s" and c: "current \<in> dom A" and v: "current \<in> sp_visited q"
  shows "returns (find_relay_path rnd now q current s)
    (\<lambda>t. sim_inv A n hs t \<and> set (queue_of s current) \<subseteq> set (queue_of t current))"
proof -
  from sim_invD(4)[OF inv c] obtain st where st: "sim_peer s current = Some st" by blast
  define cs where "cs = filter (is_online s) (filter (\<lambda>n. \<not> sp_was_visited n q) (sorted_list_of_set
      (case neighbors (sim_mesh s) current of None \<Rightarrow> {} | Some ns \<Rightarrow> ns)))"
  define pr where "pr = best_candidate (pst_prophet st) (sp_destination q) cs"
  define dn where "dn = (case neighbors (sim_mesh s) (sp_destination q) of None \<Rightarrow> {} | Some ns \<Rightarrow> ns)"
  define best where "best = or_else (or_else (or_else pr (List.find (\<lambda>c. c \<in> sp_routing_hints q) cs))
      (List.find (\<lambda>c. c \<in> dn) cs)) (List.find (\<lambda>_. True) cs)"
  define s1 where "s1 = (if pr \<noteq> None \<and> best \<noteq> None
      then count_stat (\<lambda>x. x\<lparr>prophet_relay_selections := prophet_relay_selections x + 1\<rparr>) s else s)"
  have s1: "sim_mesh s1 = sim_mesh s" "pending_sends s1 = pending_sends s" "backprops s1 = backprops s"
    "messages_sent (stats s1) = messages_sent (stats s)" "messages_dropped (stats s1) = messages_dropped (stats s)"
    "messages_delivered (stats s1) = messages_delivered (stats s)" "sim_tick s1 = sim_tick s"
    by (simp_all add: s1_def sim_simps)
  have inv1: "sim_inv A n (q # hs) s1" and q1: "queue_of s1 = queue_of s"
    using inv sim_inv_cong[OF s1(1-6)] by simp_all
  have st1: "sim_peer s1 current = Some st" using st by (simp add: sim_peer_def s1)
  have unf: "find_relay_path rnd now q current s =
      (case best of
         Some relay \<Rightarrow>
           (case sp_decrement_ttl q of (alive, q') \<Rightarrow>
            if \<not> alive
            then Some (count_stat (\<lambda>x. x\<lparr>messages_dropped := messages_dropped x + 1\<rparr>)
                   (emit_event (Dropped (sp_id q') SimTtlExpired (sim_tick s1)) s1))
            else Option.bind (upd_peer current (\<lambda>st. st\<lparr>pst_prophet := encounter rnd now relay (pst_prophet st)\<rparr>) s1) (\<lambda>s.
                upd_peer relay (push_relay (sp_mark_visited relay q'))
                  (emit_event (Relay current relay (sp_destination q) (sp_id (sp_mark_visited relay q')) (sim_tick s)) s)))
       | None \<Rightarrow>
           if cs = [] then upd_peer current (push_relay q) s1
           else Some (count_stat (\<lambda>x. x\<lparr>messages_dropped := messages_dropped x + 1\<rparr>)
                  (emit_event (Dropped (sp_id q) SimNoRoute (sim_tick s1)) s1)))"
    unfolding find_relay_path_def Let_def st Option.bind.simps cs_def[symmetric] pr_def[symmetric] dn_def[symmetric]
      best_def[symmetric] s1_def[symmetric] by (rule refl)
  show ?thesis
  proof (cases best)
    case None
    then have "cs = []" by (simp add: best_def or_else_None find_True)
    then have "find_relay_path rnd now q current s = upd_peer current (push_relay q) s1" by (simp add: unf None)
    then show ?thesis using sim_push[OF inv1 c v, unfolded q1] by (auto elim: returns_mono)
  next
    case (Some relay)
    then have "relay \<in> set cs" using best_candidate_Some(1)[of "pst_prophet st" "sp_destination q" cs relay]
      by (auto simp: best_def or_else_Some pr_def dest: find_in)
    then have nv: "relay \<notin> sp_visited q" and rd: "relay \<in> dom A" 
      using sim_invD(5)[OF inv, of relay]
      by (auto simp: cs_def sp_was_visited_def is_online_def split: option.splits)
    obtain alive q' where dec: "sp_decrement_ttl q = (alive, q')" by (cases "sp_decrement_ttl q")
    show ?thesis
    proof (cases alive)
      case False
      with dec have "q' = q" by (auto simp: sp_decrement_ttl_def split: if_splits)
      with False Some dec show ?thesis
        using sim_drop[OF inv1] q1 by (simp add: unf sim_simps)
    next
      case True
      define s2 where "s2 = set_peers s1 ((peers (sim_mesh s1))(current \<mapsto>
          st\<lparr>pst_prophet := encounter rnd now relay (pst_prophet st)\<rparr>))"
      have inv2: "sim_inv A n (q # hs) s2" and q2: "queue_of s2 = queue_of s1"
        unfolding s2_def by (rule sim_inv_neutral[OF inv1 st1]; simp)+
      let ?q = "sp_mark_visited relay q'"
      have tr: "travelling (dom A) ?q"
        using travelling_hop[OF peers_invD(5)[OF sim_invD(2)[OF inv], of q]] dec True rd nv by simp
      have id: "sp_id ?q = sp_id q" using dec by (auto simp: sp_mark_visited_def sp_decrement_ttl_def split: if_splits)
      let ?s3 = "emit_event (Relay current relay (sp_destination q) (sp_id ?q) (sim_tick s2)) s2"
      have "sim_inv A n (?q # hs) ?s3"
        using inv2 peers_inv_hand[OF sim_invD(2)[OF inv2] id tr] by (simp add: sim_inv_def sim_simps)
      from sim_push[OF this rd] have "returns (upd_peer relay (push_relay ?q) ?s3)
          (\<lambda>t. sim_inv A n hs t \<and> queue_of t = (queue_of ?s3)(relay := queue_of ?s3 relay @ [?q]))"
        by (simp add: sp_mark_visited_def)
      moreover have "queue_of ?s3 = queue_of s" using q1 q2 by (simp add: sim_simps)
      moreover have "upd_peer current (\<lambda>st. st\<lparr>pst_prophet := encounter rnd now relay (pst_prophet st)\<rparr>) s1 = Some s2"
        by (simp add: upd_peer_Some[OF st1] s2_def)
      moreover from this have "find_relay_path rnd now q current s = upd_peer relay (push_relay ?q) ?s3"
        using True by (simp add: unf Some dec)
      ultimately show ?thesis by (auto elim: returns_mono)
    qed
  qed
qed

section \<open>The phases of a step keep the invariant\<close>

lemma queue_distinct:
  assumes inv: "sim_inv A n hs s"
  shows "distinct (map sp_id (queue_of s p))"
proof (cases "sim_peer s p")
  case (Some st)
  then have p: "peers (sim_mesh s) p = Some st" by (simp add: sim_peer_def)
  have "count (mset (map sp_id (pst_relay_queue st))) i \<le> 1" for i
  proof -
    have "count (mset (map sp_id (pst_relay_queue st))) i \<le> count (held st) i" by (simp add: held_def queued_def)
    also have "\<dots> \<le> count (tally held (peers (sim_mesh s)) + mset (map sp_id hs)) i"
      using mset_subset_eq_count[OF tally_le[OF sim_invD(3)[OF inv] p, of held], of i] by simp
    also have "\<dots> \<le> 1" using sim_invD(2)[OF inv] by (auto simp: peers_inv_def)
    finally show ?thesis .
  qed
  then have "distinct (map sp_id (pst_relay_queue st))"
    by (simp only: distinct_count_atmost_1[of "map sp_id (pst_relay_queue st)"])
      (metis One_nat_def count_mset_0_iff le_Suc_eq le_zero_eq)
  then show ?thesis by (simp add: queue_of_def Some)
qed (simp add: queue_of_def)

text \<open>Handling one packet of a snapshot of a queue leaves the rest of the snapshot in the queue.\<close>

definition snapshot :: "(peer_id \<rightharpoonup> peer_id set) \<Rightarrow> nat \<Rightarrow> peer_id \<Rightarrow> sealed_packet list \<Rightarrow> simulation \<Rightarrow> bool" where
  "snapshot A n p xs s \<longleftrightarrow> sim_inv A n [] s \<and> set xs \<subseteq> set (queue_of s p) \<and> distinct (map sp_id xs)"

lemma snapshot_take:
  assumes "snapshot A n p (x # xs) s"
  shows "returns (upd_peer p (retain (sp_id x)) s) (\<lambda>t. sim_inv A n [x] t \<and> set xs \<subseteq> set (queue_of t p))"
proof -
  have inv: "sim_inv A n [] s" and x: "x \<in> set (queue_of s p)" and xs: "set xs \<subseteq> set (queue_of s p)"
    and "sp_id x \<notin> sp_id ` set xs"
    using assms by (auto simp: snapshot_def)
  from this(4) have d: "\<forall>y \<in> set xs. sp_id y \<noteq> sp_id x" by (force simp: image_iff)
  show ?thesis by (rule returns_mono[OF sim_take[OF inv x]]) (use xs d in auto)
qed

lemma snapshotI: "sim_inv A n [] t \<Longrightarrow> set xs \<subseteq> set (queue_of t p) \<Longrightarrow> snapshot A n p (x # xs) s \<Longrightarrow> snapshot A n p xs t"
  by (auto simp: snapshot_def)

lemma snapshot_filter: "sim_inv A n [] s \<Longrightarrow> snapshot A n p (filter P (queue_of s p)) s"
  using queue_distinct[of A n "[]" s p] by (auto simp: snapshot_def distinct_map_filter)

lemma deliver_pending_packets_inv:
  assumes inv: "sim_inv A n [] s" and src: "src \<in> dom A" and dst: "dst \<in> dom A"
  shows "returns (deliver_pending_packets rnd now src dst s) (sim_inv A n [])"
proof -
  from sim_invD(4)[OF inv src] obtain st where st: "sim_peer s src = Some st" by blast
  let ?I = "\<lambda>xs t. snapshot A n src xs t \<and> (\<forall>x \<in> set xs. sp_destination x = dst)"
  have "returns (each (\<lambda>q s. Option.bind (upd_peer src (retain (sp_id q)) s) (deliver_packet rnd now q src))
      (filter (\<lambda>q. sp_destination q = dst) (pst_relay_queue st)) s) (?I [])"
  proof (rule returns_each[where I = ?I])
    fix x xs t assume I: "?I (x # xs) t"
    then have snap: "snapshot A n src (x # xs) t" and d: "sp_destination x \<in> dom A" using dst by auto
    show "returns (Option.bind (upd_peer src (retain (sp_id x)) t) (deliver_packet rnd now x src)) (?I xs)"
    proof (rule returns_bind[OF snapshot_take[OF snap]])
      fix u assume u: "sim_inv A n [x] u \<and> set xs \<subseteq> set (queue_of u src)"
      show "returns (deliver_packet rnd now x src u) (?I xs)"
        by (rule returns_mono[OF deliver_packet_inv[OF conjunct1[OF u] src d]])
          (use u I snapshotI[OF _ _ snap] in auto)
    qed
  next
    show "?I (filter (\<lambda>q. sp_destination q = dst) (pst_relay_queue st)) s"
      using snapshot_filter[OF inv, of src "\<lambda>q. sp_destination q = dst"] by (simp add: queue_of_def st)
  qed
  then show ?thesis
    unfolding deliver_pending_packets_def st Option.bind.simps by (rule returns_mono) (simp add: snapshot_def)
qed

text \<open>A loop over peers whose body keeps the invariant.\<close>

lemma each_peer_inv:
  assumes "\<And>p s. p \<in> dom A \<Longrightarrow> sim_inv A n [] s \<Longrightarrow> returns (f p s) (sim_inv A n [])"
    and "sim_inv A n [] s" and "set ps \<subseteq> dom A"
  shows "returns (each f ps s) (sim_inv A n [])"
proof -
  have "returns (each f ps s) ((\<lambda>ps s. sim_inv A n [] s \<and> set ps \<subseteq> dom A) [])"
    by (rule returns_each) (use assms in \<open>auto elim: returns_mono\<close>)
  then show ?thesis by (rule returns_mono) simp
qed

lemma set_peer_ids: "sim_inv A n hs s \<Longrightarrow> set (peer_ids (sim_mesh s)) = dom A"
  using peers_invD(1,2)[OF sim_invD(2)] by (simp add: peer_ids_def)

lemma connections_dom:
  assumes "sim_inv A n hs s" and "sim_peer s p = Some st"
  shows "finite (pst_connections st)" and "pst_connections st \<subseteq> dom A"
proof -
  have "A p = Some (pst_connections st)" and g: "graph_ok A"
    using peers_invD(4)[OF sim_invD(2)[OF assms(1)]] sim_invD(2)[OF assms(1)] assms(2) by (auto simp: sim_peer_def peers_inv_def)
  then show "pst_connections st \<subseteq> dom A" unfolding graph_ok_def by blast
  then show "finite (pst_connections st)" using g by (auto simp: graph_ok_def intro: finite_subset)
qed

lemma process_awake_signals_inv:
  assumes "sim_inv A n [] s"
  shows "returns (process_awake_signals rnd now s) (sim_inv A n [])"
  unfolding process_awake_signals_def
proof (rule each_peer_inv[OF _ assms])
  fix p t assume p: "p \<in> dom A" and inv: "sim_inv A n [] t"
  from sim_invD(4)[OF inv p] obtain st where st: "sim_peer t p = Some st" by blast
  have "returns (each (\<lambda>m. deliver_pending_packets rnd now m p) (sorted_list_of_set (pst_connections st)) t) (sim_inv A n [])"
    using connections_dom[OF inv st] by (intro each_peer_inv[OF _ inv] deliver_pending_packets_inv p) auto
  with inv show "returns (awake_signal rnd now p t) (sim_inv A n [])" by (simp add: awake_signal_def st)
qed (simp add: set_peer_ids[OF assms])

lemma are_connected_dom:
  assumes "sim_inv A n hs s" and "are_connected (sim_mesh s) a b"
  shows "a \<in> dom A" and "b \<in> dom A"
proof -
  have "adjacency (sim_mesh s) = A" and "graph_ok A"
    using assms(1) by (auto simp: sim_inv_def peers_inv_def)
  with assms(2) show "a \<in> dom A" "b \<in> dom A"
    by (auto simp: are_connected_def graph_ok_def split: option.splits) blast
qed

lemma process_relay_queues_inv:
  assumes "sim_inv A n [] s"
  shows "returns (process_relay_queues rnd now s) (sim_inv A n [])"
  unfolding process_relay_queues_def
proof (rule each_peer_inv[OF _ assms])
  fix p t assume p: "p \<in> dom A" and inv: "sim_inv A n [] t"
  from sim_invD(4)[OF inv p] obtain st where st: "sim_peer t p = Some st" by blast
  have "returns (each (forward_packet rnd now p) (pst_relay_queue st) t) (snapshot A n p [])"
  proof (rule returns_each)
    fix x xs u assume snap: "snapshot A n p (x # xs) u"
    then have xq: "x \<in> set (queue_of u p)" and invu: "sim_inv A n [] u" by (auto simp: snapshot_def)
    have v: "p \<in> sp_visited x"
      using xq peers_invD(3)[OF sim_invD(2)[OF invu], of p]
      by (cases "sim_peer u p") (auto simp: queue_of_def peer_ok_def sim_peer_def)
    have route: "returns (Option.bind (upd_peer p (retain (sp_id x)) u) (find_relay_path rnd now x p)) (snapshot A n p xs)"
    proof (rule returns_bind[OF snapshot_take[OF snap]])
      fix w assume w: "sim_inv A n [x] w \<and> set xs \<subseteq> set (queue_of w p)"
      show "returns (find_relay_path rnd now x p w) (snapshot A n p xs)"
        by (rule returns_mono[OF find_relay_path_inv[OF conjunct1[OF w] p v]]) (use w snapshotI[OF _ _ snap] in auto)
    qed
    have deliver: "returns (Option.bind (upd_peer p (retain (sp_id x)) u) (deliver_packet rnd now x p)) (snapshot A n p xs)"
      if "sp_destination x \<in> dom A"
    proof (rule returns_bind[OF snapshot_take[OF snap]])
      fix w assume w: "sim_inv A n [x] w \<and> set xs \<subseteq> set (queue_of w p)"
      show "returns (deliver_packet rnd now x p w) (snapshot A n p xs)"
        by (rule returns_mono[OF deliver_packet_inv[OF conjunct1[OF w] p that]]) (use w snapshotI[OF _ _ snap] in auto)
    qed
    have "snapshot A n p xs u" using snap by (auto simp: snapshot_def)
    then show "returns (forward_packet rnd now p x u) (snapshot A n p xs)"
      using route deliver are_connected_dom[OF invu, of p "sp_destination x"] by (simp add: forward_packet_def Let_def)
  next
    show "snapshot A n p (pst_relay_queue st) t"
      using snapshot_filter[OF inv, of p "\<lambda>_. True"] by (simp add: queue_of_def st)
  qed
  then have "returns (each (forward_packet rnd now p) (pst_relay_queue st) t) (sim_inv A n [])"
    by (rule returns_mono) (simp add: snapshot_def)
  with inv show "returns (process_relay_queue rnd now p t) (sim_inv A n [])" by (simp add: process_relay_queue_def st)
qed (simp add: set_peer_ids[OF assms])

lemma transition_peer_inv:
  assumes inv: "sim_inv A n [] s" and p: "p \<in> dom A"
  shows "returns (transition_peer draw p s) (sim_inv A n [])"
proof -
  from sim_invD(4)[OF inv p] obtain st where st: "sim_peer s p = Some st" by blast
  define s1 where "s1 = set_peers s ((peers (sim_mesh s))(p \<mapsto> st\<lparr>pst_online := \<not> pst_online st\<rparr>))"
  have inv1: "sim_inv A n [] s1" unfolding s1_def by (rule sim_inv_neutral[OF inv st]; simp)
  have st1: "sim_peer s1 p = Some (st\<lparr>pst_online := \<not> pst_online st\<rparr>)" by (simp add: s1_def sim_simps)
  define s2 where "s2 = set_peers s1 ((peers (sim_mesh s1))(p \<mapsto>
      st\<lparr>pst_online := \<not> pst_online st, pst_last_online_tick := Some (sim_tick s1)\<rparr>))"
  have inv2: "sim_inv A n [] s2" unfolding s2_def by (rule sim_inv_neutral[OF inv1 st1]; simp)
  have stats: "sim_inv A n [] (count_stat f (emit_event e t)) = sim_inv A n [] t"
    if "\<And>x. messages_sent (f x) = messages_sent x \<and> messages_dropped (f x) = messages_dropped x \<and>
      messages_delivered (f x) = messages_delivered x" for f e t
    by (rule sim_inv_cong) (simp_all add: sim_simps that)
  show ?thesis
    using inv inv1 inv2[unfolded s2_def]
    by (auto simp: transition_peer_def st upd_peer_Some[OF st] s1_def[symmetric] upd_peer_Some[OF st1] Let_def stats)
qed

lemma process_state_transitions_inv:
  "sim_inv A n [] s \<Longrightarrow> returns (process_state_transitions draw s) (sim_inv A n [])"
  unfolding process_state_transitions_def
  by (rule each_peer_inv) (auto simp: set_peer_ids intro: transition_peer_inv)

lemma sim_create:
  assumes inv: "sim_inv A (Suc n) hs s" and st: "sim_peer s p = Some st" and i: "next_packet_id st = (i, st')"
  shows "sim_inv A n (sp_new i p d pl hints t # hs) (set_peers s ((peers (sim_mesh s))(p \<mapsto> st')))"
proof -
  let ?ps = "peers (sim_mesh s)"
  have p': "?ps p = Some st" using st by (simp add: sim_peer_def)
  have st': "pst_relay_queue st' = pst_relay_queue st" "pst_inbox st' = pst_inbox st"
    using i by (auto simp: next_packet_id_def)
  note fin = sim_invD(3)[OF inv]
  have "tally queued (?ps(p \<mapsto> st')) = tally queued ?ps" "tally received (?ps(p \<mapsto> st')) = tally received ?ps"
    using tally_upd[OF fin p', of queued st'] tally_upd[OF fin p', of received st'] st' by (simp_all add: queued_def received_def)
  then show ?thesis
    using inv peers_inv_create[OF sim_invD(2)[OF inv] p' i] by (simp add: sim_inv_def sim_simps)
qed

lemma route_message_inv:
  assumes inv: "sim_inv A (Suc n) [] s"
  shows "returns (route_message_with_retry rnd now se s) (sim_inv A n [])"
proof (cases "is_online s (se_from se)")
  case False
  have "sim_inv A n [] (emit_event e (count_stat (\<lambda>x. x\<lparr>messages_dropped := messages_dropped x + 1\<rparr>) s))" for e
    using inv by (simp add: sim_inv_def sim_simps)
  moreover have "sim_inv A n [] (s\<lparr>pending_sends := pending_sends s @ [x]\<rparr>)" for x
    using inv by (simp add: sim_inv_def)
  ultimately show ?thesis using False by (simp add: route_message_with_retry_def)
next
  case True
  then obtain st where st: "sim_peer s (se_from se) = Some st" by (auto simp: is_online_def split: option.splits)
  obtain i st' where i: "next_packet_id st = (i, st')" by (cases "next_packet_id st")
  define s1 where "s1 = set_peers s ((peers (sim_mesh s))(se_from se \<mapsto> st'))"
  define q where "q = sp_new i (se_from se) (se_to se) (se_payload se)
      (mesh_mutual_peers (sim_mesh s1) (se_from se) (se_to se)) (sim_tick s1)"
  have inv1: "sim_inv A n [q] s1" unfolding q_def s1_def by (rule sim_create[OF inv st i])
  have from_dom: "se_from se \<in> dom A" by (rule sim_invD(5)[OF inv st])
  have v: "se_from se \<in> sp_visited q" and d: "sp_destination q = se_to se" by (simp_all add: q_def sp_new_def)
  have "returns (deliver_packet rnd now q (se_from se) s1) (sim_inv A n [])"
    if "are_connected (sim_mesh s1) (se_from se) (se_to se)"
    by (rule returns_mono[OF deliver_packet_inv[OF inv1 from_dom]]) (use are_connected_dom(2)[OF inv1 that] d in auto)
  moreover have "returns (upd_peer (se_from se) (push_relay q) s1) (sim_inv A n [])"
    by (rule returns_mono[OF sim_push[OF inv1 from_dom v]]) simp
  moreover have "returns (find_relay_path rnd now q (se_from se) s1) (sim_inv A n [])"
    by (rule returns_mono[OF find_relay_path_inv[OF inv1 from_dom v]]) simp
  ultimately show ?thesis
    using True by (simp add: route_message_with_retry_def st i Let_def s1_def[symmetric] q_def[symmetric])
qed

lemma process_pending_sends_inv:
  assumes inv: "sim_inv A 0 [] s"
  shows "returns (process_pending_sends rnd now s) (sim_inv A 0 [])"
proof -
  have "returns (each (process_send rnd now) (pending_sends s) (s\<lparr>pending_sends := []\<rparr>))
      ((\<lambda>(xs :: pending_send list) t. sim_inv A (length xs) [] t) [])"
  proof (rule returns_each[where I = "\<lambda>(xs :: pending_send list) t. sim_inv A (length xs) [] t"])
    fix x :: pending_send and xs t assume "sim_inv A (length (x # xs)) [] t"
    then have t: "sim_inv A (Suc (length xs)) [] t" by simp
    then have "sim_inv A (length xs) [] (emit_event e (count_stat (\<lambda>x. x\<lparr>messages_expired := messages_expired x + 1,
        messages_dropped := messages_dropped x + 1\<rparr>) t))" for e by (simp add: sim_inv_def sim_simps)
    moreover have "sim_inv A (Suc (length xs)) [] (emit_event e t)" for e using t by (simp add: sim_inv_def sim_simps)
    ultimately show "returns (process_send rnd now x t) (sim_inv A (length xs) [])"
      by (simp add: process_send_def route_message_inv)
  next
    show "sim_inv A (length (pending_sends s)) [] (s\<lparr>pending_sends := []\<rparr>)" using inv by (simp add: sim_inv_def)
  qed
  then show ?thesis by (simp add: process_pending_sends_def)
qed

lemma process_prophet_aging_inv:
  assumes inv: "sim_inv A n [] s"
  shows "sim_inv A n [] (process_prophet_aging rnd now s)"
proof -
  let ?f = "\<lambda>st. st\<lparr>pst_prophet := force_age rnd now (pst_prophet st)\<rparr>" and ?ps = "peers (sim_mesh s)"
  let ?qs = "\<lambda>p. map_option ?f (?ps p)"
  have d: "dom ?qs = dom ?ps" by (auto simp: dom_def)
  have eq: "tally g ?qs = tally g ?ps" if "\<And>st. g (?f st) = g st" for g :: "peer_state \<Rightarrow> sim_packet_id multiset"
    unfolding tally_def d by (intro sum.cong) (auto simp: that)
  have t: "tally held ?qs = tally held ?ps" "tally queued ?qs = tally queued ?ps" "tally received ?qs = tally received ?ps"
    by (rule eq; simp add: held_def queued_def received_def)+
  have "peers_inv A [] ?qs"
    using sim_invD(2)[OF inv] unfolding peers_inv_def t
    by (auto simp: peer_ok_def fun_eq_iff option.map_comp comp_def)
  then show ?thesis using inv by (simp add: sim_inv_def process_prophet_aging_def sim_simps t)
qed

section \<open>Back-propagation keeps the invariant\<close>

lemma tally_held:
  "tally held m = tally queued m + tally received m"
  by (simp add: tally_def held_def sum.distrib)

text \<open>A packet that was received is in no queue, so cleaning up the queues finds nothing.\<close>

lemma clean_relay_id:
  assumes inv: "sim_inv A n hs s" and i: "i \<in># tally received (peers (sim_mesh s))"
  shows "clean_relay i p s = s"
proof (cases "sim_peer s p")
  case (Some st)
  let ?ps = "peers (sim_mesh s)"
  have p: "?ps p = Some st" using Some by (simp add: sim_peer_def)
  have "count (queued st) i \<le> count (tally queued ?ps) i"
    using mset_subset_eq_count[OF tally_le[OF sim_invD(3)[OF inv] p, of queued]] .
  moreover have "count (tally queued ?ps) i + count (tally received ?ps) i \<le> 1"
  proof -
    have "count (tally held ?ps + mset (map sp_id hs)) i \<le> 1" using sim_invD(2)[OF inv] by (auto simp: peers_inv_def)
    then show ?thesis by (simp add: tally_held)
  qed
  moreover have "count (tally received ?ps) i \<ge> 1" using i by (simp add: Suc_le_eq)
  ultimately have "count (queued st) i = 0" by linarith
  then have "i \<notin># queued st" by (simp only: not_in_iff)
  then have "\<forall>q \<in> set (pst_relay_queue st). sp_id q \<noteq> i" by (force simp: queued_def image_iff)
  then have "retain i st = st" by (simp add: retain_def)
  then have "(?ps)(p \<mapsto> retain i st) = ?ps" using p by (simp add: fun_upd_idem)
  then show ?thesis by (simp add: clean_relay_def Some set_peers_def)
qed (simp add: clean_relay_def)

lemma set_vec_remove: "vec_remove i xs = Some (x, ys) \<Longrightarrow> x \<in> set xs \<and> set ys \<subseteq> set xs \<and> length xs = Suc (length ys)"
  by (auto simp: vec_remove_def split: if_splits dest: in_set_takeD in_set_dropD)

lemma remove_backprop_inv:
  assumes inv: "sim_inv A n [] s" and r: "vec_remove idx (backprops s) = Some (b, bs)"
  shows "remove_timed_out idx s = Some (count_stat (\<lambda>x. x\<lparr>backprops_timed_out := backprops_timed_out x + 1\<rparr>) (s\<lparr>backprops := bs\<rparr>))"
    and "\<exists>f. remove_completed idx s = Some (count_stat f (s\<lparr>backprops := bs\<rparr>)) \<and>
      (\<forall>x. messages_sent (f x) = messages_sent x \<and> messages_dropped (f x) = messages_dropped x \<and>
        messages_delivered (f x) = messages_delivered x)"
    and "sim_inv A n [] (s\<lparr>backprops := bs\<rparr>)"
proof -
  show "remove_timed_out idx s = Some (count_stat (\<lambda>x. x\<lparr>backprops_timed_out := backprops_timed_out x + 1\<rparr>) (s\<lparr>backprops := bs\<rparr>))"
    by (simp add: remove_timed_out_def r)
  note b = set_vec_remove[OF r]
  show inv': "sim_inv A n [] (s\<lparr>backprops := bs\<rparr>)" using inv b by (auto simp: sim_inv_def)
  define s1 where "s1 = count_stat (\<lambda>x. x\<lparr>total_backprop_latency := total_backprop_latency x + (sim_tick s - sb_delivered_tick b)\<rparr>)
            (s\<lparr>backprops := bs\<rparr>)"
  have inv1: "sim_inv A n [] s1"
    using inv' by (subst sim_inv_cong[of s1 "s\<lparr>backprops := bs\<rparr>"]) (simp_all add: s1_def sim_simps)
  have "sb_packet_id b \<in># tally received (peers (sim_mesh s1))"
    using inv b by (auto simp: sim_inv_def s1_def sim_simps)
  then have c: "fold (clean_relay (sb_packet_id b)) ps s1 = s1" for ps
    by (induction ps) (simp_all add: clean_relay_id[OF inv1])
  have "remove_completed idx s = Some (count_stat (\<lambda>x. x\<lparr>backprops_completed := backprops_completed x + 1\<rparr>) s1)"
    by (simp add: remove_completed_def r s1_def[symmetric] c)
  then show "\<exists>f. remove_completed idx s = Some (count_stat f (s\<lparr>backprops := bs\<rparr>)) \<and>
      (\<forall>x. messages_sent (f x) = messages_sent x \<and> messages_dropped (f x) = messages_dropped x \<and>
        messages_delivered (f x) = messages_delivered x)"
    by (intro exI[of _ "\<lambda>x. x\<lparr>total_backprop_latency := total_backprop_latency x + (sim_tick s - sb_delivered_tick b),
        backprops_completed := backprops_completed x + 1\<rparr>"]) (simp add: s1_def count_stat_def)
qed

lemma remove_inv:
  assumes "sim_inv A n [] s" and "remove_timed_out idx s = Some t \<or> remove_completed idx s = Some t"
  shows "sim_inv A n [] t"
proof -
  from assms(2) obtain b bs where r: "vec_remove idx (backprops s) = Some (b, bs)"
    by (cases "vec_remove idx (backprops s)") (auto simp: remove_timed_out_def remove_completed_def)
  note R = remove_backprop_inv[OF assms(1) r]
  from R(2) obtain f where f: "remove_completed idx s = Some (count_stat f (s\<lparr>backprops := bs\<rparr>))"
    "\<And>x. messages_sent (f x) = messages_sent x \<and> messages_dropped (f x) = messages_dropped x \<and>
        messages_delivered (f x) = messages_delivered x" by blast
  from assms(2) R(1) f(1) consider "t = count_stat (\<lambda>x. x\<lparr>backprops_timed_out := backprops_timed_out x + 1\<rparr>) (s\<lparr>backprops := bs\<rparr>)"
    | "t = count_stat f (s\<lparr>backprops := bs\<rparr>)" by auto
  then show ?thesis
    by cases (use R(3) f(2) in \<open>subst sim_inv_cong[of t "s\<lparr>backprops := bs\<rparr>"]; simp add: sim_simps\<close>)+
qed

lemma each_remove_inv:
  assumes f: "\<And>idx s t. f idx s = Some t \<Longrightarrow> remove_timed_out idx s = Some t \<or> remove_completed idx s = Some t"
  shows "sim_inv A n [] s \<Longrightarrow> each f idxs s = Some t \<Longrightarrow> sim_inv A n [] t"
proof (induction idxs arbitrary: s)
  case (Cons i idxs)
  from Cons.prems(2) obtain u where u: "f i s = Some u" "each f idxs u = Some t" by (auto split: option.splits)
  show ?case by (rule Cons.IH[OF remove_inv[OF Cons.prems(1) f[OF u(1)]] u(2)])
qed simp

lemma scan_inv:
  assumes inv: "sim_inv A n [] s"
  shows "sim_inv A n [] (fold emit_event es (s\<lparr>backprops := map (scan_backprop s) (backprops s)\<rparr>))"
    and "backprops (fold emit_event es t) = backprops t"
    and "sim_tick (fold emit_event es t) = sim_tick t" and "sim_config (fold emit_event es t) = sim_config t"
proof -
  have e: "sim_inv A n [] (fold emit_event es t) = sim_inv A n [] t" for es t
    by (induction es arbitrary: t) (simp_all add: sim_inv_def sim_simps)
  have b: "sb_path (scan_backprop s b) = sb_path b" "sb_packet_id (scan_backprop s b) = sb_packet_id b" for b
    by (auto simp: scan_backprop_def split: fate.splits)
  show "sim_inv A n [] (fold emit_event es (s\<lparr>backprops := map (scan_backprop s) (backprops s)\<rparr>))"
    using inv unfolding e by (simp add: sim_inv_def b)
  show "backprops (fold emit_event es t) = backprops t" "sim_tick (fold emit_event es t) = sim_tick t"
    "sim_config (fold emit_event es t) = sim_config t"
    by (induction es arbitrary: t) (simp_all add: sim_simps)
qed

lemma process_backprops_inv:
  assumes "sim_inv A n [] s" and "process_backprops s = Some t"
  shows "sim_inv A n [] t"
  using assms(2) scan_inv(1)[OF assms(1)]
  by (auto simp: process_backprops_def Let_def bind_eq_Some_conv intro: each_remove_inv)

text \<open>Without a timeout the completed entries are removed from the last to the first, in range.\<close>

lemma each_completed_returns:
  "sim_inv A n [] s \<Longrightarrow> sorted_wrt (>) idxs \<Longrightarrow> \<forall>i \<in> set idxs. i < length (backprops s) \<Longrightarrow>
   returns (each remove_completed idxs s) (sim_inv A n [])"
proof (induction idxs arbitrary: s)
  case (Cons i idxs)
  from Cons.prems(3) have i: "i < length (backprops s)" by simp
  then obtain b bs where r: "vec_remove i (backprops s) = Some (b, bs)" and bs: "bs = take i (backprops s) @ drop (Suc i) (backprops s)"
    by (simp add: vec_remove_def)
  from remove_backprop_inv(2)[OF Cons.prems(1) r] obtain f where
    f: "remove_completed i s = Some (count_stat f (s\<lparr>backprops := bs\<rparr>))" by blast
  let ?t = "count_stat f (s\<lparr>backprops := bs\<rparr>)"
  have "sim_inv A n [] ?t" by (rule remove_inv[OF Cons.prems(1), of i]) (use f in simp)
  moreover have "\<forall>j \<in> set idxs. j < length (backprops ?t)" using Cons.prems(2) i by (auto simp: sim_simps bs)
  ultimately have "returns (each remove_completed idxs ?t) (sim_inv A n [])" using Cons.IH Cons.prems(2) by simp
  then show ?case by (simp add: f)
qed simp

lemma process_backprops_returns:
  assumes inv: "sim_inv A n [] s" and no: "backprop_timeout (sim_config s) = None"
  shows "returns (process_backprops s) (sim_inv A n [])"
proof -
  let ?c = "indices_where (\<lambda>b. backprop_fate s b = FateCompleted) (backprops s)"
  have "backprop_fate s b \<noteq> FateTimedOut" for b by (simp add: backprop_fate_def no Let_def)
  then have t: "indices_where (\<lambda>b. backprop_fate s b = FateTimedOut) (backprops s) = []" by (simp add: indices_where_def)
  have "sorted_wrt (>) (rev ?c)"
    by (auto simp: sorted_wrt_rev indices_where_def intro!: sorted_wrt_filter)
  then show ?thesis
    unfolding process_backprops_def Let_def t
    using scan_inv(2)
    by (simp only: rev.simps each.simps Option.bind.simps)
      (intro each_completed_returns scan_inv(1)[OF inv]; simp add: scan_inv(2)[OF inv]; simp add: indices_where_def)
qed

section \<open>Ticks\<close>

text \<open>Calls that advance no clock, change no configuration and send no message.\<close>

definition unmoved :: "simulation \<Rightarrow> simulation \<Rightarrow> bool" where
  "unmoved s t \<longleftrightarrow> sim_tick t = sim_tick s \<and> sim_config t = sim_config s \<and> messages_sent (stats t) = messages_sent (stats s)"

definition still :: "(simulation \<Rightarrow> simulation option) \<Rightarrow> bool" where
  "still f \<longleftrightarrow> (\<forall>s t. f s = Some t \<longrightarrow> unmoved s t)"

lemma unmoved_refl [simp]: "unmoved s s"
  by (simp add: unmoved_def)

lemma unmoved_trans: "unmoved s t \<Longrightarrow> unmoved t u \<Longrightarrow> unmoved s u"
  by (simp add: unmoved_def)

lemma still_each: "(\<And>x. still (f x)) \<Longrightarrow> still (each f xs)"
proof (induction xs)
  case (Cons x xs)
  then have "still (f x)" "still (each f xs)" by auto
  then show ?case unfolding still_def by (auto split: option.splits) (meson unmoved_trans)
qed (simp add: still_def)

lemma still_each_of: "(\<And>x. still (f x)) \<Longrightarrow> still (\<lambda>s. each f (g s) s)"
  using still_each[of f] by (auto simp: still_def)

lemma still_bind: "still f \<Longrightarrow> still g \<Longrightarrow> still (\<lambda>s. Option.bind (f s) g)"
  by (auto simp: still_def bind_eq_Some_conv) (meson unmoved_trans)

lemma still_upd_peer: "still (upd_peer p f)"
  by (auto simp: still_def unmoved_def upd_peer_def upd_mut_def sim_simps split: option.splits)

lemma still_deliver_packet: "still (deliver_packet rnd now q via)"
  by (auto simp: still_def unmoved_def deliver_packet_def upd_peer_def upd_mut_def Let_def sim_simps bind_eq_Some_conv split: option.splits)

lemma relay_choice_still:
  assumes "(case best of
         Some relay \<Rightarrow>
           (case sp_decrement_ttl q of (alive, q') \<Rightarrow>
            if \<not> alive then Some (count_stat (\<lambda>x. x\<lparr>messages_dropped := messages_dropped x + 1\<rparr>) (emit_event (e1 q') s))
            else Option.bind (upd_peer current (g relay) s) (\<lambda>s. upd_peer relay (h relay q') (emit_event (e2 relay q' s) s)))
       | None \<Rightarrow> if cs = [] then upd_peer current k s
           else Some (count_stat (\<lambda>x. x\<lparr>messages_dropped := messages_dropped x + 1\<rparr>) (emit_event e3 s))) = Some t"
  shows "unmoved s t"
proof -
  note u = still_upd_peer[unfolded still_def, rule_format]
  show ?thesis
    using assms
    by (auto simp: unmoved_def sim_simps bind_eq_Some_conv split: option.splits prod.splits if_splits dest!: u)
qed

lemma still_find_relay_path: "still (find_relay_path rnd now q p)"
  unfolding still_def find_relay_path_def Let_def bind_eq_Some_conv
  by (intro allI impI, elim exE conjE, drule relay_choice_still) (auto simp: unmoved_def sim_simps split: if_splits)

lemma still_transition_peer: "still (transition_peer draw p)"
  by (auto simp: still_def unmoved_def transition_peer_def upd_peer_def upd_mut_def Let_def sim_simps bind_eq_Some_conv
      split: option.splits if_splits)

lemma still_deliver_pending: "still (deliver_pending_packets rnd now src dst)"
proof -
  have "still (each (\<lambda>q s. Option.bind (upd_peer src (retain (sp_id q)) s) (deliver_packet rnd now q src)) xs)" for xs
    by (intro still_each still_bind still_upd_peer still_deliver_packet)
  then show ?thesis by (auto simp: still_def deliver_pending_packets_def bind_eq_Some_conv)
qed

lemma still_awake_signal: "still (awake_signal rnd now p)"
proof -
  have "still (each (\<lambda>n. deliver_pending_packets rnd now n p) xs)" for xs by (intro still_each still_deliver_pending)
  then show ?thesis by (auto simp: still_def awake_signal_def bind_eq_Some_conv split: if_splits)
qed

lemma still_route_message: "still (route_message_with_retry rnd now se)"
proof -
  note d = still_deliver_packet[unfolded still_def, rule_format] and f = still_find_relay_path[unfolded still_def, rule_format]
    and u = still_upd_peer[unfolded still_def, rule_format]
  show ?thesis
    unfolding still_def route_message_with_retry_def Let_def next_packet_id_def
    by (auto simp: unmoved_def sim_simps bind_eq_Some_conv split: if_splits dest!: d f u)
qed

lemma still_process_send: "still (process_send rnd now se)"
  unfolding still_def process_send_def by (auto simp: unmoved_def sim_simps split: if_splits dest!: still_route_message[unfolded still_def, rule_format])

lemma still_process_relay_queue: "still (process_relay_queue rnd now p)"
proof -
  have "still (forward_packet rnd now p q)" for q
    using still_bind[OF still_upd_peer[of p "retain (sp_id q)"] still_deliver_packet[of rnd now q p]]
      still_bind[OF still_upd_peer[of p "retain (sp_id q)"] still_find_relay_path[of rnd now q p]]
    by (auto simp: still_def forward_packet_def Let_def)
  then have "still (each (forward_packet rnd now p) xs)" for xs by (intro still_each)
  then show ?thesis by (auto simp: still_def process_relay_queue_def bind_eq_Some_conv split: if_splits)
qed

lemma still_remove: "still (remove_timed_out i)" "still (remove_completed i)"
proof -
  have "unmoved s (fold (clean_relay k) ps s)" for k ps s
    by (induction ps arbitrary: s) (auto simp: unmoved_def clean_relay_def sim_simps split: option.splits)
  then show "still (remove_timed_out i)" "still (remove_completed i)"
    by (auto simp: still_def unmoved_def remove_timed_out_def remove_completed_def Let_def sim_simps bind_eq_Some_conv split: if_splits)
qed

lemma still_process_backprops: "still process_backprops"
proof -
  have e: "unmoved t (fold emit_event es t)" for es t
    by (induction es arbitrary: t) (simp_all add: unmoved_def sim_simps)
  have "still (\<lambda>s. Option.bind (each remove_timed_out xs s) (each remove_completed ys))" for xs ys
    by (intro still_bind still_each still_remove)
  then have r: "unmoved u t"
    if "Option.bind (each remove_timed_out xs u) (each remove_completed ys) = Some t" for xs ys u t
    using that unfolding still_def by blast
  show ?thesis unfolding still_def process_backprops_def Let_def
    by (intro allI impI, drule r, erule unmoved_trans[rotated]) (rule unmoved_trans[OF _ e], simp add: unmoved_def)
qed

lemma still_phases:
  "still (process_state_transitions draw)" "still (process_awake_signals rnd now)" "still (process_relay_queues rnd now)"
  using still_each_of[OF still_transition_peer, where g = "\<lambda>s. peer_ids (sim_mesh s)"]
    still_each_of[OF still_awake_signal, where g = "\<lambda>s. peer_ids (sim_mesh s)"]
    still_each_of[OF still_process_relay_queue, where g = "\<lambda>s. peer_ids (sim_mesh s)"]
  by (simp_all add: still_def process_state_transitions_def process_awake_signals_def process_relay_queues_def)

lemma still_process_pending_sends: "still (process_pending_sends rnd now)"
proof -
  have "still (each (process_send rnd now) xs)" for xs by (intro still_each still_process_send)
  then have r: "unmoved u t" if "each (process_send rnd now) xs u = Some t" for xs u t
    using that unfolding still_def by blast
  show ?thesis unfolding still_def process_pending_sends_def
    by (intro allI impI, drule r, erule unmoved_trans[rotated]) (simp add: unmoved_def)
qed

section \<open>Runs\<close>

datatype sim_call =
    CallInitialize "peer_id \<Rightarrow> f64" | CallSend peer_id peer_id bytes | CallStep int "peer_id \<Rightarrow> f64"
  | CallOnline peer_id | CallOffline peer_id
  | RecordSignature peer_id nat nat | RecordVerification peer_id peer_id nat bool
  | RecordEncapsulation peer_id peer_id nat | RecordDecapsulation peer_id peer_id nat bool
  | RecordInvite peer_id peer_id string | RecordInviteAccepted peer_id string | RecordInviteFailed peer_id string string

fun sim_exec :: "(f64 \<Rightarrow> f64) \<Rightarrow> sim_call \<Rightarrow> simulation \<Rightarrow> simulation option" where
  "sim_exec rnd (CallInitialize draw) s = initialize draw s"
| "sim_exec rnd (CallSend src dst payload) s = Some (sim_send_message src dst payload s)"
| "sim_exec rnd (CallStep now draw) s = step rnd now draw s"
| "sim_exec rnd (CallOnline p) s = Some (force_online p s)"
| "sim_exec rnd (CallOffline p) s = Some (force_offline p s)"
| "sim_exec rnd (RecordSignature p l n) s = Some (record_pq_signature_created p l n s)"
| "sim_exec rnd (RecordVerification p q l b) s = Some (record_pq_signature_verified p q l b s)"
| "sim_exec rnd (RecordEncapsulation p q l) s = Some (record_kem_encapsulation p q l s)"
| "sim_exec rnd (RecordDecapsulation p q l b) s = Some (record_kem_decapsulation p q l b s)"
| "sim_exec rnd (RecordInvite p q i) s = Some (record_invite_created p q i s)"
| "sim_exec rnd (RecordInviteAccepted p i) s = Some (record_invite_accepted p i s)"
| "sim_exec rnd (RecordInviteFailed p i r) s = Some (record_invite_failed p i r s)"

text \<open>The network before the first message.\<close>

definition idle_mesh :: "mesh \<Rightarrow> bool" where
  "idle_mesh m \<longleftrightarrow> mesh_ok m \<and>
     (\<forall>p st. peers m p = Some st \<longrightarrow> pst_inbox st = [] \<and> pst_relay_queue st = [] \<and> pst_delivered st = [])"

lemma new_simulation_inv:
  assumes "idle_mesh m"
  shows "sim_inv (adjacency m) 0 [] (new_simulation m cfg)"
proof -
  have e: "tally g (peers m) = {#}" if "\<And>p st. peers m p = Some st \<Longrightarrow> g st = {#}" for g :: "peer_state \<Rightarrow> sim_packet_id multiset"
    unfolding tally_def using that by (intro sum.neutral) auto
  have t: "tally held (peers m) = {#}" "tally queued (peers m) = {#}" "tally received (peers m) = {#}"
    using assms by (intro e; simp add: idle_mesh_def held_def queued_def received_def)+
  show ?thesis
    using assms unfolding sim_inv_def peers_inv_def
    by (auto simp: new_simulation_def default_stats_def idle_mesh_def mesh_ok_def peer_ok_def t)
qed

lemma initialize_inv:
  assumes "sim_inv A n [] s"
  shows "returns (initialize draw s) (sim_inv A n [])"
  unfolding initialize_def
proof (rule each_peer_inv[OF _ assms])
  fix p t assume p: "p \<in> dom A" and inv: "sim_inv A n [] t"
  from sim_invD(4)[OF inv p] obtain st where st: "sim_peer t p = Some st" by blast
  have "sim_inv A n [] (emit_event e u) = sim_inv A n [] u" for e u by (simp add: sim_inv_def sim_simps)
  then show "returns (initialize_peer draw p t) (sim_inv A n [])"
    using sim_inv_neutral(1)[OF inv st] by (simp add: initialize_peer_def st Let_def)
qed (simp add: set_peer_ids[OF assms])

lemma force_inv:
  assumes inv: "sim_inv A n [] s"
  shows "sim_inv A n [] (force_online p s)" and "sim_inv A n [] (force_offline p s)"
proof -
  have "sim_inv A n [] (emit_event e u) = sim_inv A n [] u" for e u by (simp add: sim_inv_def sim_simps)
  then show "sim_inv A n [] (force_online p s)" "sim_inv A n [] (force_offline p s)"
    using inv sim_inv_neutral(1)[OF inv] by (auto simp: force_online_def force_offline_def split: option.splits)
qed

lemma sim_send_message_inv: "sim_inv A n [] s \<Longrightarrow> sim_inv A n [] (sim_send_message src dst payload s)"
  by (simp add: sim_inv_def sim_send_message_def)

lemma record_inv:
  assumes "sim_inv A n [] s"
  shows "sim_inv A n [] (record_pq_signature_created p l k s)" "sim_inv A n [] (record_pq_signature_verified p q l b s)"
    "sim_inv A n [] (record_kem_encapsulation p q l s)" "sim_inv A n [] (record_kem_decapsulation p q l b s)"
    "sim_inv A n [] (record_invite_created p q i s)" "sim_inv A n [] (record_invite_accepted p i s)"
    "sim_inv A n [] (record_invite_failed p i r s)"
  using assms by (simp_all add: sim_inv_def sim_simps record_pq_signature_created_def record_pq_signature_verified_def
      record_kem_encapsulation_def record_kem_decapsulation_def record_invite_created_def record_invite_accepted_def
      record_invite_failed_def)

text \<open>The phases before back-propagation return.\<close>

lemma step_phases:
  assumes "sim_inv A 0 [] s"
  shows "returns (Option.bind (process_state_transitions draw (s\<lparr>sim_tick := sim_tick s + 1\<rparr>)) (\<lambda>s.
    Option.bind (process_awake_signals rnd now s) (\<lambda>s.
    Option.bind (process_pending_sends rnd now s) (process_relay_queues rnd now))))
    (\<lambda>t. sim_inv A 0 [] t \<and> unmoved (s\<lparr>sim_tick := sim_tick s + 1\<rparr>) t)"
proof -
  let ?f = "\<lambda>s. Option.bind (process_state_transitions draw s) (\<lambda>s. Option.bind (process_awake_signals rnd now s) (\<lambda>s.
    Option.bind (process_pending_sends rnd now s) (process_relay_queues rnd now)))"
  have "sim_inv A 0 [] (s\<lparr>sim_tick := sim_tick s + 1\<rparr>)" using assms by (simp add: sim_inv_def)
  then have "returns (?f (s\<lparr>sim_tick := sim_tick s + 1\<rparr>)) (sim_inv A 0 [])"
    by (intro returns_bind[OF process_state_transitions_inv] returns_bind[OF process_awake_signals_inv]
        returns_bind[OF process_pending_sends_inv] process_relay_queues_inv)
  moreover have "still ?f" by (intro still_bind still_phases still_process_pending_sends)
  ultimately show ?thesis by (auto simp: returns_def still_def)
qed

lemma step_inv:
  assumes inv: "sim_inv A 0 [] s" and "step rnd now draw s = Some t"
  shows "sim_inv A 0 [] t"
proof -
  from step_phases[OF inv, of draw rnd now] obtain u where
    u: "Option.bind (process_state_transitions draw (s\<lparr>sim_tick := sim_tick s + 1\<rparr>)) (\<lambda>s.
    Option.bind (process_awake_signals rnd now s) (\<lambda>s.
    Option.bind (process_pending_sends rnd now s) (process_relay_queues rnd now))) = Some u"
    and invu: "sim_inv A 0 [] u" by (auto simp: returns_def)
  from assms(2) u obtain w where w: "process_backprops u = Some w" and
    t: "t = w \<or> t = process_prophet_aging rnd now w"
    by (auto simp: step_def bind_eq_Some_conv split: if_splits)
  have "sim_inv A 0 [] w" by (rule process_backprops_inv[OF invu w])
  with t process_prophet_aging_inv show ?thesis by blast
qed

lemma step_returns:
  assumes inv: "sim_inv A 0 [] s" and no: "backprop_timeout (sim_config s) = None" and ag: "prophet_aging_interval (sim_config s) > 0"
  shows "returns (step rnd now draw s) (\<lambda>t. sim_inv A 0 [] t \<and> sim_tick t = sim_tick s + 1 \<and> sim_config t = sim_config s \<and>
    messages_sent (stats t) = messages_sent (stats s))"
proof -
  from step_phases[OF inv, of draw rnd now] obtain u where
    u: "Option.bind (process_state_transitions draw (s\<lparr>sim_tick := sim_tick s + 1\<rparr>)) (\<lambda>s.
    Option.bind (process_awake_signals rnd now s) (\<lambda>s.
    Option.bind (process_pending_sends rnd now s) (process_relay_queues rnd now))) = Some u"
    and invu: "sim_inv A 0 [] u" and k: "sim_tick u = sim_tick s + 1" "sim_config u = sim_config s" "messages_sent (stats u) = messages_sent (stats s)"
    by (auto simp: returns_def unmoved_def)
  from process_backprops_returns[OF invu] k(2) no obtain w where w: "process_backprops u = Some w" and invw: "sim_inv A 0 [] w"
    by (auto simp: returns_def)
  have kw: "sim_tick w = sim_tick u" "sim_config w = sim_config u" "messages_sent (stats w) = messages_sent (stats u)"
    using still_process_backprops w by (auto simp: still_def unmoved_def)
  have "step rnd now draw s = Option.bind (Some u) (\<lambda>s. Option.bind (process_backprops s) (\<lambda>s.
      if prophet_aging_interval (sim_config s) = 0 then None
      else if sim_tick s mod prophet_aging_interval (sim_config s) = 0 then Some (process_prophet_aging rnd now s)
      else Some s))" unfolding u[symmetric] by (simp add: step_def bind_assoc)
  then have "step rnd now draw s = (if sim_tick w mod prophet_aging_interval (sim_config w) = 0
      then Some (process_prophet_aging rnd now w) else Some w)"
    using ag k kw by (simp add: w)
  then show ?thesis using invw process_prophet_aging_inv[OF invw] k kw by (simp add: process_prophet_aging_def sim_simps)
qed

lemma sim_exec_inv: "sim_inv A 0 [] s \<Longrightarrow> sim_exec rnd c s = Some t \<Longrightarrow> sim_inv A 0 [] t"
proof (cases c)
  case (CallInitialize draw)
  then show "sim_inv A 0 [] s \<Longrightarrow> sim_exec rnd c s = Some t \<Longrightarrow> ?thesis" using initialize_inv[of A 0 s draw] by (auto simp: returns_def)
qed (auto simp: force_inv sim_send_message_inv record_inv intro: step_inv)

lemma sim_exec_all_inv: "sim_inv A 0 [] s \<Longrightarrow> each (sim_exec rnd) calls s = Some t \<Longrightarrow> sim_inv A 0 [] t"
proof (induction calls arbitrary: s)
  case (Cons c calls)
  from Cons.prems(2) obtain u where u: "sim_exec rnd c s = Some u" "each (sim_exec rnd) calls u = Some t"
    by (auto split: option.splits)
  show ?case by (rule Cons.IH[OF sim_exec_inv[OF Cons.prems(1) u(1)] u(2)])
qed simp

lemma size_tally:
  fixes g :: "'v \<Rightarrow> 'a multiset"
  shows "size (tally g (m :: 'k \<rightharpoonup> 'v)) = (\<Sum>p \<in> dom m. size (g (the (m p))))"
proof -
  have "size (\<Sum>j \<in> A. f j) = (\<Sum>j \<in> A. size (f j))" for A :: "'k set" and f :: "'k \<Rightarrow> 'a multiset"
    by (induction A rule: infinite_finite_induct) simp_all
  then show ?thesis by (simp add: tally_def)
qed

text \<open>Two connected peers, both online; a message is delivered in the first step.\<close>

definition ex_peer :: "peer_id \<Rightarrow> peer_id \<Rightarrow> peer_state" where
  "ex_peer p n = (peer_state_new id 0 p)\<lparr>pst_online := True, pst_last_online_tick := Some 0, pst_connections := {n}\<rparr>"

definition ex_mesh :: mesh where
  "ex_mesh = \<lparr>peers = [65 \<mapsto> ex_peer 65 66, 66 \<mapsto> ex_peer 66 65],
     interfaces = [(65, 66) \<mapsto> interface_new 65 66], adjacency = [65 \<mapsto> {66}, 66 \<mapsto> {65}]\<rparr>"

definition ex_config :: sim_config where
  "ex_config = (default_sim_config id)\<lparr>backprop_timeout := None\<rparr>"

lemma ex_mesh_idle: "idle_mesh ex_mesh"
  by (auto simp: idle_mesh_def mesh_ok_def graph_ok_def ex_mesh_def ex_peer_def peer_state_new_def are_connected_def
      fun_eq_iff split: if_splits)

lemma ex_step:
  "\<exists>s st. each (sim_exec id) [CallSend 65 66 [7], CallStep 0 (\<lambda>_. 1)] (new_simulation ex_mesh ex_config) = Some s \<and>
     sim_peer s 66 = Some st \<and> map sp_id (pst_inbox st) = [PacketId 65 0]"
proof -
  have ids: "sorted_list_of_set (insert 66 {65}) = [65, 66 :: u32]" by simp
  show ?thesis
    by (simp add: new_simulation_def ex_mesh_def ex_config_def default_sim_config_def sim_send_message_def step_def
      process_state_transitions_def peer_ids_def ids transition_peer_def sim_peer_def ex_peer_def peer_state_new_def Let_def
      process_awake_signals_def awake_signal_def process_pending_sends_def process_send_def route_message_with_retry_def
      is_online_def emit_event_def next_packet_id_def set_peers_def are_connected_def deliver_packet_def upd_peer_def upd_mut_def
      count_stat_def sp_new_def process_relay_queues_def process_relay_queue_def process_backprops_def indices_where_def mesh_mutual_peers_def)
qed

text \<open>
  C8: No message is lost or made up. After any sequence of calls that returns, every message
  sent is exactly one of: waiting for its sender, in the queue of a peer, delivered, or dropped;
  and the delivered ones are those in the inboxes.
\<close>

theorem message_conservation:
  assumes "idle_mesh m" and "each (sim_exec rnd) calls (new_simulation m cfg) = Some s"
  shows "messages_sent (stats s) = length (pending_sends s) +
      (\<Sum>p \<in> dom (peers (sim_mesh s)). length (pst_relay_queue (the (peers (sim_mesh s) p)))) +
      messages_delivered (stats s) + messages_dropped (stats s) \<and>
    messages_delivered (stats s) = (\<Sum>p \<in> dom (peers (sim_mesh s)). length (pst_inbox (the (peers (sim_mesh s) p))))"
proof -
  have "sim_inv (adjacency m) 0 [] s" by (rule sim_exec_all_inv[OF new_simulation_inv[OF assms(1)] assms(2)])
  then show ?thesis by (simp add: sim_inv_def size_tally queued_def received_def)
qed

theorem message_conservation_witness:
  "\<exists>s. each (sim_exec id) [CallSend 65 66 [7], CallStep 0 (\<lambda>_. 1)] (new_simulation ex_mesh ex_config) = Some s \<and>
     messages_sent (stats s) = length (pending_sends s) +
      (\<Sum>p \<in> dom (peers (sim_mesh s)). length (pst_relay_queue (the (peers (sim_mesh s) p)))) +
      messages_delivered (stats s) + messages_dropped (stats s)"
proof -
  from ex_step obtain s where
    s: "each (sim_exec id) [CallSend 65 66 [7], CallStep 0 (\<lambda>_. 1)] (new_simulation ex_mesh ex_config) = Some s" by (elim exE conjE)
  show ?thesis by (intro exI conjI, rule s, rule conjunct1[OF message_conservation[OF ex_mesh_idle s]])
qed

text \<open>
  C9: Packets arrive where they should, once: in every state that a sequence of calls returns, a
  packet in an inbox is addressed to its owner and travelled over at most ten relays, none
  of them twice; no other copy of it is in that inbox, in another inbox or in a queue.
\<close>

theorem delivered_once:
  assumes "idle_mesh m" and "each (sim_exec rnd) calls (new_simulation m cfg) = Some s"
    and "sim_peer s p = Some st" and "q \<in> set (pst_inbox st)"
  shows "sp_destination q = p \<and> card (sp_visited q) + unat (sp_ttl q) = 11 \<and>
    count (mset (map sp_id (pst_inbox st))) (sp_id q) = 1 \<and>
    (\<Sum>p \<in> dom (peers (sim_mesh s)). count (mset (map sp_id (pst_relay_queue (the (peers (sim_mesh s) p)) @
       pst_inbox (the (peers (sim_mesh s) p))))) (sp_id q)) = 1"
proof -
  let ?ps = "peers (sim_mesh s)" and ?i = "sp_id q"
  have inv: "sim_inv (adjacency m) 0 [] s" by (rule sim_exec_all_inv[OF new_simulation_inv[OF assms(1)] assms(2)])
  have p: "?ps p = Some st" using assms(3) by (simp add: sim_peer_def)
  have ok: "peer_ok (dom (adjacency m)) p st" by (rule peers_invD(3)[OF sim_invD(2)[OF inv] p])
  have "count (tally held ?ps + mset (map sp_id ([] :: sealed_packet list))) ?i \<le> 1"
    using sim_invD(2)[OF inv] unfolding peers_inv_def by blast
  then have le: "count (tally held ?ps) ?i \<le> 1" by simp
  have "count (received st) ?i \<le> count (held st) ?i" by (simp add: held_def)
  also have "\<dots> \<le> count (tally held ?ps) ?i"
    using tally_le[OF sim_invD(3)[OF inv] p, of held] by (rule mset_subset_eq_count)
  finally have "count (received st) ?i \<le> count (tally held ?ps) ?i" .
  moreover have "count (received st) ?i \<ge> 1"
    using assms(4) by (simp add: received_def Suc_le_eq)
  ultimately have "count (received st) ?i = 1" and "count (tally held ?ps) ?i = 1" using le by linarith+
  moreover have "count (tally held ?ps) ?i = (\<Sum>p \<in> dom ?ps. count (held (the (?ps p))) ?i)"
    by (simp add: tally_def count_sum)
  ultimately show ?thesis
    using ok assms(4) by (simp add: peer_ok_def travelling_def held_def queued_def received_def)
qed

theorem delivered_once_witness:
  "\<exists>s st q. each (sim_exec id) [CallSend 65 66 [7], CallStep 0 (\<lambda>_. 1)] (new_simulation ex_mesh ex_config) = Some s \<and>
     sim_peer s 66 = Some st \<and> q \<in> set (pst_inbox st) \<and> sp_destination q = 66 \<and>
     card (sp_visited q) + unat (sp_ttl q) = 11"
proof -
  from ex_step obtain s st where
    s: "each (sim_exec id) [CallSend 65 66 [7], CallStep 0 (\<lambda>_. 1)] (new_simulation ex_mesh ex_config) = Some s"
      "sim_peer s 66 = Some st" "map sp_id (pst_inbox st) = [PacketId 65 0]" by (elim exE conjE)
  from s(3) obtain q where q: "q \<in> set (pst_inbox st)" by (cases "pst_inbox st") auto
  from delivered_once[OF ex_mesh_idle s(1,2) q] s(1,2) q show ?thesis by (intro exI conjI) auto
qed

lemma run_loop_returns:
  "sim_inv A 0 [] s \<Longrightarrow> backprop_timeout (sim_config s) = None \<Longrightarrow> prophet_aging_interval (sim_config s) > 0 \<Longrightarrow>
   max_ticks (sim_config s) \<le> sim_tick s + n \<Longrightarrow>
   returns (run_loop rnd now draw s) (\<lambda>t. sim_inv A 0 [] t \<and> sim_tick t = max (sim_tick s) (max_ticks (sim_config s)) \<and>
     messages_sent (stats t) = messages_sent (stats s))"
proof (induction n arbitrary: s)
  case 0
  then show ?case by (subst run_loop.simps) (simp add: max_def)
next
  case (Suc n)
  show ?case
  proof (cases "sim_tick s < max_ticks (sim_config s)")
    case True
    have "returns (Option.bind (step rnd (now (sim_tick s)) (draw (sim_tick s)) s) (\<lambda>s. run_loop rnd now draw s))
        (\<lambda>t. sim_inv A 0 [] t \<and> sim_tick t = max (sim_tick s) (max_ticks (sim_config s)) \<and>
     messages_sent (stats t) = messages_sent (stats s))"
    proof (rule returns_bind[OF step_returns[OF Suc.prems(1-3)]])
      fix u assume u: "sim_inv A 0 [] u \<and> sim_tick u = sim_tick s + 1 \<and> sim_config u = sim_config s \<and>
        messages_sent (stats u) = messages_sent (stats s)"
      from Suc.IH[of u] u Suc.prems True
      show "returns (run_loop rnd now draw u) (\<lambda>t. sim_inv A 0 [] t \<and> sim_tick t = max (sim_tick s) (max_ticks (sim_config s)) \<and>
     messages_sent (stats t) = messages_sent (stats s))"
        by (simp add: max_def)
    qed
    with True show ?thesis by (subst run_loop.simps) simp
  next
    case False
    with Suc.prems show ?thesis by (subst run_loop.simps) (simp add: max_def)
  qed
qed

lemma step_no_aging:
  assumes inv: "sim_inv A 0 [] s" and "prophet_aging_interval (sim_config s) = 0"
  shows "step rnd now draw s = None"
proof -
  from step_phases[OF inv, of draw rnd now] obtain u where
    u: "Option.bind (process_state_transitions draw (s\<lparr>sim_tick := sim_tick s + 1\<rparr>)) (\<lambda>s.
    Option.bind (process_awake_signals rnd now s) (\<lambda>s.
    Option.bind (process_pending_sends rnd now s) (process_relay_queues rnd now))) = Some u"
    and k: "sim_config u = sim_config s" by (auto simp: returns_def unmoved_def)
  have "step rnd now draw s = Option.bind (Some u) (\<lambda>s. Option.bind (process_backprops s) (\<lambda>s.
      if prophet_aging_interval (sim_config s) = 0 then None
      else if sim_tick s mod prophet_aging_interval (sim_config s) = 0 then Some (process_prophet_aging rnd now s)
      else Some s))" unfolding u[symmetric] by (simp add: step_def bind_assoc)
  moreover have "sim_config w = sim_config u" if "process_backprops u = Some w" for w
    using still_process_backprops that by (auto simp: still_def unmoved_def)
  ultimately show ?thesis using k assms(2) by (cases "process_backprops u") auto
qed



text \<open>
  With a timeout the indices of the completed entries are used after the entries that timed
  out were removed, when they no longer fit.
\<close>

lemma remove_timed_out_length:
  "each remove_timed_out idxs s = Some t \<Longrightarrow> length (backprops t) + length idxs = length (backprops s)"
proof (induction idxs arbitrary: s)
  case (Cons i idxs)
  then obtain u where u: "remove_timed_out i s = Some u" "each remove_timed_out idxs u = Some t" by (auto split: option.splits)
  then have "length (backprops s) = Suc (length (backprops u))"
    using set_vec_remove[of i "backprops s"] by (auto simp: remove_timed_out_def bind_eq_Some_conv sim_simps)
  with Cons.IH[OF u(2)] show ?case by simp
qed simp

text \<open>
  C35: A simulation with a timeout for confirmations panics as soon as one confirmation times out
  in the same step in which the last one in the list completes: the removal of the former
  shifts the list and the index of the latter is out of range.
\<close>

theorem backprop_removal_panics:
  assumes "backprops s = bs @ [b]" and "backprop_fate s b = FateCompleted"
    and "a \<in> set bs" and "backprop_fate s a = FateTimedOut"
  shows "process_backprops s = None"
proof -
  let ?c = "indices_where (\<lambda>b. backprop_fate s b = FateCompleted)" and ?t = "indices_where (\<lambda>b. backprop_fate s b = FateTimedOut)"
  let ?s = "fold emit_event (concat (map (backprop_events s) (backprops s))) (s\<lparr>backprops := map (scan_backprop s) (backprops s)\<rparr>)"
  have len: "length (backprops ?s) = Suc (length bs)"
  proof -
    have "backprops (fold emit_event es u) = backprops u" for es u by (induction es arbitrary: u) (simp_all add: sim_simps)
    then show ?thesis by (simp add: assms(1))
  qed
  have c: "rev (?c (backprops s)) = length bs # rev (filter (\<lambda>i. backprop_fate s ((bs @ [b]) ! i) = FateCompleted) [0..<length bs])"
    by (simp add: indices_where_def assms(1,2))
  have "?t (backprops s) \<noteq> []"
    using assms(1,3,4) by (auto simp: indices_where_def in_set_conv_nth filter_empty_conv nth_append)
  then have t: "length (rev (?t (backprops s))) \<ge> 1" by (simp add: Suc_le_eq)
  show ?thesis
  proof (cases "each remove_timed_out (rev (?t (backprops s))) ?s")
    case (Some u)
    then have "length (backprops u) \<le> length bs" using remove_timed_out_length[OF Some] len t by linarith
    then have "vec_remove (length bs) (backprops u) = None" by (simp add: vec_remove_def)
    then have "each remove_completed (rev (?c (backprops s))) u = None" by (simp add: c remove_completed_def)
    with Some show ?thesis unfolding process_backprops_def Let_def by simp
  qed (simp add: process_backprops_def Let_def)
qed

definition stalled :: sim_backprop where
  "stalled = \<lparr>sb_packet_id = PacketId 65 0, sb_path = [65, 66], sb_index = 0, sb_delivered_tick = 10\<rparr>"

definition confirmed :: sim_backprop where
  "confirmed = \<lparr>sb_packet_id = PacketId 65 1, sb_path = [65, 66], sb_index = 1, sb_delivered_tick = 190\<rparr>"

theorem backprop_removal_panics_witness:
  "process_backprops ((new_simulation ex_mesh (default_sim_config id))\<lparr>sim_tick := 200, backprops := [stalled, confirmed]\<rparr>) = None"
  by (rule backprop_removal_panics[of _ "[stalled]" confirmed stalled])
    (simp_all add: backprop_fate_def new_simulation_def default_sim_config_def stalled_def confirmed_def)

end
