(* ===== verification/Bundle.thy ===== *)
theory Bundle
  imports Routing "HOL-Library.Multiset"
begin

text \<open>
  Bundles of the delay-tolerant network and the custody of them: \<open>indras-dtn/src/bundle.rs\<close> and
  \<open>indras-dtn/src/custody.rs\<close>. Dates and durations of chrono are integers in nanoseconds, durations
  of the standard library are natural numbers of nanoseconds, and instants are natural
  numbers; the clock's readings are arguments. The operations of \<open>CustodyManager\<close> are fallible
  operations on its two maps, taken one after the other. Where the source iterates over a \<open>DashMap\<close>, the order is given by \<open>ord\<close>.
\<close>

section \<open>Durations\<close>

text \<open>\<open>TimeDelta::num_milliseconds\<close>, and \<open>Duration::from_millis\<close> of an \<open>i64\<close> cast to \<open>u64\<close>.\<close>

definition num_milliseconds :: "int \<Rightarrow> int" where
  "num_milliseconds d = trunc_div d (10 ^ 6)"

definition from_millis :: "int \<Rightarrow> nat" where
  "from_millis ms = nat (ms mod 2 ^ 64) * 10 ^ 6"

lemma from_millis_nonneg: "0 \<le> ms \<Longrightarrow> ms < 2 ^ 64 \<Longrightarrow> from_millis ms = nat ms * 10 ^ 6"
  by (simp add: from_millis_def)

section \<open>Bundles\<close>

record bundle_id =
  bi_source_hash :: u64
  bi_timestamp :: int
  bi_sequence :: u32

definition new_bundle_id :: "int \<Rightarrow> u64 \<Rightarrow> u32 \<Rightarrow> bundle_id" where
  "new_bundle_id now source_hash sq = \<lparr>bi_source_hash = source_hash, bi_timestamp = now div 10 ^ 6, bi_sequence = sq\<rparr>"

definition bundle_id_from_packet :: "'i packet \<Rightarrow> bundle_id" where
  "bundle_id_from_packet p =
    \<lparr>bi_source_hash = sender_hash (pk_id p), bi_timestamp = pk_created_at p div 10 ^ 6, bi_sequence = ucast (sequence_no (pk_id p))\<rparr>"

datatype class_of_service = BulkTransfer | NormalService | Expedited | CriticalService

definition to_priority :: "class_of_service \<Rightarrow> priority" where
  "to_priority c = (case c of BulkTransfer \<Rightarrow> Low | NormalService \<Rightarrow> Normal | Expedited \<Rightarrow> High | CriticalService \<Rightarrow> Critical)"

definition from_priority :: "priority \<Rightarrow> class_of_service" where
  "from_priority p = (case p of Low \<Rightarrow> BulkTransfer | Normal \<Rightarrow> NormalService | High \<Rightarrow> Expedited | Critical \<Rightarrow> CriticalService)"

record 'i custody_transfer =
  ct_from :: 'i
  ct_to :: 'i
  ct_timestamp :: int
  ct_accepted :: bool

record 'i bundle_summary =
  bsu_bundle_id :: bundle_id
  bsu_destination :: 'i
  bsu_payload_size :: nat
  bsu_class :: class_of_service
  bsu_time_remaining :: int
  bsu_custody_hops :: nat

record 'i dtn_bundle =
  bd_packet :: "'i packet"
  bd_id :: bundle_id
  bd_lifetime :: int
  bd_custody_requested :: bool
  bd_custodian :: "'i option"
  bd_history :: "'i custody_transfer list"
  bd_class :: class_of_service
  bd_report_delivery :: bool
  bd_report_custody :: bool
  bd_copies :: u8

definition bundle_from_packet :: "'i packet \<Rightarrow> int \<Rightarrow> 'i dtn_bundle" where
  "bundle_from_packet p lifetime =
    \<lparr>bd_packet = p, bd_id = bundle_id_from_packet p, bd_lifetime = lifetime, bd_custody_requested = False,
     bd_custodian = None, bd_history = [], bd_class = from_priority (pk_priority p), bd_report_delivery = False,
     bd_report_custody = False, bd_copies = 1\<rparr>"

definition with_custody :: "'i \<Rightarrow> 'i dtn_bundle \<Rightarrow> 'i dtn_bundle" where
  "with_custody custodian b = b\<lparr>bd_custody_requested := True, bd_custodian := Some custodian\<rparr>"

definition with_class_of_service :: "class_of_service \<Rightarrow> 'i dtn_bundle \<Rightarrow> 'i dtn_bundle" where
  "with_class_of_service cos b = b\<lparr>bd_class := cos, bd_packet := (bd_packet b)\<lparr>pk_priority := to_priority cos\<rparr>\<rparr>"

definition with_delivery_report :: "'i dtn_bundle \<Rightarrow> 'i dtn_bundle" where
  "with_delivery_report b = b\<lparr>bd_report_delivery := True\<rparr>"

definition with_custody_report :: "'i dtn_bundle \<Rightarrow> 'i dtn_bundle" where
  "with_custody_report b = b\<lparr>bd_report_custody := True\<rparr>"

definition with_copies :: "u8 \<Rightarrow> 'i dtn_bundle \<Rightarrow> 'i dtn_bundle" where
  "with_copies n b = b\<lparr>bd_copies := n\<rparr>"

definition bundle_age :: "int \<Rightarrow> 'i dtn_bundle \<Rightarrow> int" where
  "bundle_age now b = now - pk_created_at (bd_packet b)"

definition bundle_is_expired :: "int \<Rightarrow> 'i dtn_bundle \<Rightarrow> bool" where
  "bundle_is_expired now b \<longleftrightarrow> bundle_age now b \<ge> bd_lifetime b"

definition time_to_live :: "int \<Rightarrow> 'i dtn_bundle \<Rightarrow> int" where
  "time_to_live now b =
    (let age = bundle_age now b in if age \<ge> bd_lifetime b then 0 else bd_lifetime b - age)"

definition transfer_custody :: "int \<Rightarrow> 'i \<Rightarrow> 'i dtn_bundle \<Rightarrow> 'i custody_transfer option \<times> 'i dtn_bundle" where
  "transfer_custody now to b =
    (if \<not> bd_custody_requested b then (None, b)
     else case bd_custodian b of
       None \<Rightarrow> (None, b)
     | Some from \<Rightarrow>
        let t = \<lparr>ct_from = from, ct_to = to, ct_timestamp = now, ct_accepted = True\<rparr>
        in (Some t, b\<lparr>bd_history := bd_history b @ [t], bd_custodian := Some to\<rparr>))"

definition accept_initial_custody :: "'i \<Rightarrow> 'i dtn_bundle \<Rightarrow> 'i dtn_bundle" where
  "accept_initial_custody custodian b = b\<lparr>bd_custody_requested := True, bd_custodian := Some custodian\<rparr>"

definition bundle_priority :: "'i dtn_bundle \<Rightarrow> priority" where
  "bundle_priority b = to_priority (bd_class b)"

definition bundle_destination :: "'i dtn_bundle \<Rightarrow> 'i" where
  "bundle_destination b = pk_destination (bd_packet b)"

definition bundle_summary_of :: "int \<Rightarrow> 'i dtn_bundle \<Rightarrow> 'i bundle_summary" where
  "bundle_summary_of now b =
    \<lparr>bsu_bundle_id = bd_id b, bsu_destination = pk_destination (bd_packet b),
     bsu_payload_size = length (ep_data (pk_payload (bd_packet b))), bsu_class = bd_class b,
     bsu_time_remaining = time_to_live now b, bsu_custody_hops = length (bd_history b)\<rparr>"

definition decrement_copies :: "'i dtn_bundle \<Rightarrow> bool \<times> 'i dtn_bundle" where
  "decrement_copies b = (if bd_copies b > 1 then (True, b\<lparr>bd_copies := bd_copies b - 1\<rparr>) else (False, b))"

section \<open>Custody\<close>

record custody_config =
  cc_max_bundles :: nat
  cc_acceptance_timeout :: nat
  cc_accept_from_unknown :: bool

record 'i custody_record =
  cr_bundle_id :: bundle_id
  cr_accepted_at :: nat
  cr_accepted_from :: "'i option"
  cr_destination :: 'i
  cr_expiration :: nat
  cr_attempts :: u32

record 'i pending_transfer =
  pt_bundle_id :: bundle_id
  pt_offered_to :: 'i
  pt_offered_at :: nat
  pt_timeout :: nat

definition offer_timed_out :: "nat \<Rightarrow> 'i pending_transfer \<Rightarrow> bool" where
  "offer_timed_out inst p \<longleftrightarrow> inst - pt_offered_at p > pt_timeout p"

datatype refuse_reason = RefuseStorageFull | NotInterested | RefuseAlreadyHaveCustody | RefuseBundleExpired

datatype custody_error =
    CustodyStorageFull nat | AlreadyHaveCustody | NotInCustody | TransferTimeout | CustodyRefused string | NoPendingForBundle

datatype 'i transfer_result = TransferAccepted bundle_id 'i | TransferRefused bundle_id refuse_reason | NoPendingTransfer

record 'i custody_manager =
  cu_records :: "bundle_id \<rightharpoonup> 'i custody_record"
  cu_pending :: "bundle_id \<rightharpoonup> 'i pending_transfer"
  cu_config :: custody_config

type_synonym ('i, 'a) custody_op = "('i custody_manager, custody_error, 'a) op"

definition new_custody :: "custody_config \<Rightarrow> 'i custody_manager" where
  "new_custody c = \<lparr>cu_records = Map.empty, cu_pending = Map.empty, cu_config = c\<rparr>"

definition has_custody :: "bundle_id \<Rightarrow> 'i custody_manager \<Rightarrow> bool" where
  "has_custody i m \<longleftrightarrow> cu_records m i \<noteq> None"

definition custody_count :: "'i custody_manager \<Rightarrow> nat" where
  "custody_count m = card (dom (cu_records m))"

definition remaining_capacity :: "'i custody_manager \<Rightarrow> nat" where
  "remaining_capacity m = cc_max_bundles (cu_config m) - custody_count m"

definition accept_custody :: "int \<Rightarrow> nat \<Rightarrow> 'i dtn_bundle \<Rightarrow> 'i option \<Rightarrow> ('i, unit) custody_op" where
  "accept_custody now inst b from m =
    (if custody_count m \<ge> cc_max_bundles (cu_config m) then (Inl (CustodyStorageFull (cc_max_bundles (cu_config m))), m)
     else if has_custody (bd_id b) m then (Inl AlreadyHaveCustody, m)
     else let r = \<lparr>cr_bundle_id = bd_id b, cr_accepted_at = inst, cr_accepted_from = from,
                   cr_destination = bundle_destination b,
                   cr_expiration = inst + from_millis (num_milliseconds (time_to_live now b)), cr_attempts = 0\<rparr>
       in (Inr (), m\<lparr>cu_records := (cu_records m)(bd_id b \<mapsto> r)\<rparr>))"

definition offer_custody :: "nat \<Rightarrow> bundle_id \<Rightarrow> 'i \<Rightarrow> ('i, unit) custody_op" where
  "offer_custody inst i to m =
    (if \<not> has_custody i m then (Inl NotInCustody, m)
     else (Inr (), m\<lparr>cu_pending := (cu_pending m)(i \<mapsto>
       \<lparr>pt_bundle_id = i, pt_offered_to = to, pt_offered_at = inst, pt_timeout = cc_acceptance_timeout (cu_config m)\<rparr>)\<rparr>))"

definition count_attempt :: "bundle_id \<Rightarrow> 'i custody_manager \<Rightarrow> 'i custody_manager" where
  "count_attempt i m =
    (case cu_records m i of
       None \<Rightarrow> m
     | Some r \<Rightarrow> m\<lparr>cu_records := (cu_records m)(i \<mapsto> r\<lparr>cr_attempts := cr_attempts r + 1\<rparr>)\<rparr>)"

definition handle_acceptance :: "bundle_id \<Rightarrow> bool \<Rightarrow> 'i custody_manager \<Rightarrow> 'i transfer_result \<times> 'i custody_manager" where
  "handle_acceptance i accepted m =
    (case cu_pending m i of
       None \<Rightarrow> (NoPendingTransfer, m)
     | Some p \<Rightarrow>
        let m = m\<lparr>cu_pending := (cu_pending m)(i := None)\<rparr> in
        if accepted then (TransferAccepted i (pt_offered_to p), m\<lparr>cu_records := (cu_records m)(i := None)\<rparr>)
        else (TransferRefused i NotInterested, count_attempt i m))"

definition custodied_bundles :: "(bundle_id set \<Rightarrow> bundle_id list) \<Rightarrow> 'i custody_manager \<Rightarrow> bundle_id list" where
  "custodied_bundles ord m = ord (cr_bundle_id ` ran (cu_records m))"

definition release_custody :: "bundle_id \<Rightarrow> 'i custody_manager \<Rightarrow> 'i custody_record option \<times> 'i custody_manager" where
  "release_custody i m =
    (cu_records m i, m\<lparr>cu_pending := (cu_pending m)(i := None), cu_records := (cu_records m)(i := None)\<rparr>)"

definition check_custody_timeouts ::
  "(bundle_id set \<Rightarrow> bundle_id list) \<Rightarrow> nat \<Rightarrow> 'i custody_manager \<Rightarrow> bundle_id list \<times> 'i custody_manager" where
  "check_custody_timeouts ord inst m =
    (let timed_out = ord (pt_bundle_id ` {p \<in> ran (cu_pending m). offer_timed_out inst p})
     in (timed_out, foldl (\<lambda>m i. count_attempt i (m\<lparr>cu_pending := (cu_pending m)(i := None)\<rparr>)) m timed_out))"

definition custody_get_expired :: "(bundle_id set \<Rightarrow> bundle_id list) \<Rightarrow> nat \<Rightarrow> 'i custody_manager \<Rightarrow> bundle_id list" where
  "custody_get_expired ord inst m = ord (cr_bundle_id ` {r \<in> ran (cu_records m). inst > cr_expiration r})"

definition custody_cleanup_expired ::
  "(bundle_id set \<Rightarrow> bundle_id list) \<Rightarrow> nat \<Rightarrow> 'i custody_manager \<Rightarrow> bundle_id list \<times> 'i custody_manager" where
  "custody_cleanup_expired ord inst m =
    (let expired = custody_get_expired ord inst m in (expired, foldl (\<lambda>m i. snd (release_custody i m)) m expired))"

section \<open>The custody invariant\<close>

text \<open>Records and offers are filed under their bundle, every offer is for a bundle in custody, and the limit is kept.\<close>

definition custody_ok :: "'i custody_manager \<Rightarrow> bool" where
  "custody_ok m \<longleftrightarrow> key_matches cr_bundle_id (cu_records m) \<and> key_matches pt_bundle_id (cu_pending m) \<and>
    dom (cu_pending m) \<subseteq> dom (cu_records m) \<and> finite (dom (cu_records m)) \<and>
    custody_count m \<le> cc_max_bundles (cu_config m)"

lemma new_custody_ok [simp]: "custody_ok (new_custody c)"
  by (simp add: custody_ok_def new_custody_def custody_count_def)

lemma dom_count_attempt [simp]:
  "dom (cu_records (count_attempt i m)) = dom (cu_records m)"
  "cu_pending (count_attempt i m) = cu_pending m" "cu_config (count_attempt i m) = cu_config m"
  "has_custody j (count_attempt i m) = has_custody j m"
  by (auto simp: count_attempt_def has_custody_def split: option.splits if_splits)

lemma count_attempt_ok: "custody_ok m \<Longrightarrow> custody_ok (count_attempt i m)"
proof -
  assume ok: "custody_ok m"
  then have "key_matches cr_bundle_id (cu_records (count_attempt i m))"
    by (auto simp: custody_ok_def count_attempt_def key_matches_def split: option.splits)
  with ok show ?thesis by (simp add: custody_ok_def custody_count_def)
qed

lemma drop_pending_ok: "custody_ok m \<Longrightarrow> custody_ok (m\<lparr>cu_pending := (cu_pending m)(i := None)\<rparr>)"
  by (auto simp: custody_ok_def custody_count_def)

lemma drop_record_ok:
  "custody_ok m \<Longrightarrow> custody_ok (m\<lparr>cu_pending := (cu_pending m)(i := None), cu_records := (cu_records m)(i := None)\<rparr>)"
  using card_Diff1_le[of "dom (cu_records m)" i] by (auto simp: custody_ok_def custody_count_def)

lemma release_custody_ok: "custody_ok m \<Longrightarrow> custody_ok (snd (release_custody i m))"
  by (simp add: release_custody_def drop_record_ok)

lemma accept_custody_ok [keeps_intros]: "keeps custody_ok (accept_custody now inst b from)"
proof -
  have "custody_ok (m\<lparr>cu_records := (cu_records m)(bd_id b \<mapsto> r)\<rparr>)"
    if "custody_ok m" "cr_bundle_id r = bd_id b" "custody_count m < cc_max_bundles (cu_config m)" for m :: "'a custody_manager" and r
    using that by (auto simp: custody_ok_def custody_count_def card_insert_if)
  then show ?thesis by (auto simp: keeps_def accept_custody_def Let_def not_le split: if_splits)
qed

lemma offer_custody_ok [keeps_intros]: "keeps custody_ok (offer_custody inst i to)"
  by (auto simp: keeps_def offer_custody_def custody_ok_def custody_count_def has_custody_def split: if_splits)

lemma handle_acceptance_ok: "custody_ok m \<Longrightarrow> custody_ok (snd (handle_acceptance i a m))"
proof -
  assume ok: "custody_ok m"
  from drop_record_ok[OF ok, of i] count_attempt_ok[OF drop_pending_ok[OF ok, of i], of i] ok show ?thesis
    by (simp add: handle_acceptance_def Let_def split: option.split)
qed

lemma check_custody_timeouts_ok: "custody_ok m \<Longrightarrow> custody_ok (snd (check_custody_timeouts ord inst m))"
proof -
  have "custody_ok m \<Longrightarrow> custody_ok (foldl (\<lambda>m i. count_attempt i (m\<lparr>cu_pending := (cu_pending m)(i := None)\<rparr>)) m is)" for m :: "'a custody_manager" and "is"
    by (induction "is" arbitrary: m) (simp_all add: count_attempt_ok drop_pending_ok)
  then show "custody_ok m \<Longrightarrow> ?thesis" by (simp add: check_custody_timeouts_def Let_def)
qed

lemma custody_cleanup_ok: "custody_ok m \<Longrightarrow> custody_ok (snd (custody_cleanup_expired ord inst m))"
proof -
  have "custody_ok m \<Longrightarrow> custody_ok (foldl (\<lambda>m i. snd (release_custody i m)) m is)" for m :: "'a custody_manager" and "is"
    by (induction "is" arbitrary: m) (simp_all add: release_custody_ok)
  then show "custody_ok m \<Longrightarrow> ?thesis" by (simp add: custody_cleanup_expired_def Let_def)
qed

section \<open>Who has custody afterwards\<close>

lemma has_custody_accept:
  "accept_custody now inst b from m = (r, m') \<Longrightarrow>
    has_custody j m' \<longleftrightarrow> has_custody j m \<or> r = Inr () \<and> j = bd_id b"
  "accept_custody now inst b from m = (Inr (), m') \<Longrightarrow> \<not> has_custody (bd_id b) m"
  by (auto simp: accept_custody_def has_custody_def Let_def split: if_splits)

lemma has_custody_offer: "offer_custody inst i to m = (r, m') \<Longrightarrow> has_custody j m' \<longleftrightarrow> has_custody j m"
  by (auto simp: offer_custody_def has_custody_def split: if_splits)

lemma has_custody_handle:
  assumes "custody_ok m" and "handle_acceptance i a m = (res, m')"
  shows "has_custody j m' \<longleftrightarrow> has_custody j m \<and> \<not> (j = i \<and> a \<and> cu_pending m i \<noteq> None)"
proof (cases "cu_pending m i")
  case (Some p)
  with assms(2) show ?thesis by (auto simp: handle_acceptance_def Let_def has_custody_def[of _ "_\<lparr>cu_records := _\<rparr>"] split: if_splits) (auto simp: has_custody_def)
qed (use assms in \<open>simp add: handle_acceptance_def\<close>)

lemma has_custody_release: "has_custody j (snd (release_custody i m)) \<longleftrightarrow> has_custody j m \<and> j \<noteq> i"
  by (simp add: release_custody_def has_custody_def)

lemma has_custody_timeouts: "has_custody j (snd (check_custody_timeouts ord inst m)) \<longleftrightarrow> has_custody j m"
proof -
  have "has_custody j (foldl (\<lambda>m i. count_attempt i (m\<lparr>cu_pending := (cu_pending m)(i := None)\<rparr>)) m is) \<longleftrightarrow> has_custody j m"
    for m :: "'a custody_manager" and "is"
    by (induction "is" arbitrary: m) (simp_all, simp add: has_custody_def)
  then show ?thesis by (simp add: check_custody_timeouts_def Let_def)
qed

lemma has_custody_cleanup:
  "has_custody j (snd (custody_cleanup_expired ord inst m)) \<longleftrightarrow> has_custody j m \<and> j \<notin> set (custody_get_expired ord inst m)"
proof -
  have "has_custody j (foldl (\<lambda>m i. snd (release_custody i m)) m is) \<longleftrightarrow> has_custody j m \<and> j \<notin> set is"
    for m :: "'a custody_manager" and "is"
    by (induction "is" arbitrary: m) (auto simp: has_custody_release)
  then show ?thesis by (simp add: custody_cleanup_expired_def Let_def)
qed

section \<open>Custody over a network\<close>

text \<open>
  Nodes that hand over custody by messages: an offer carries the bundle, and the answer says
  whether \<open>accept_custody\<close> succeeded. Messages may be delayed, reordered and lost, and offers may arrive more than once;
  nodes check for timeouts, release other bundles and clean up at any time. The relation is for the
  bundle \<open>i\<close>, of which no node releases custody on purpose or by its expiration.
\<close>

record 'n custody_net =
  cn_nodes :: "'n \<Rightarrow> 'n custody_manager"
  cn_offers :: "('n \<times> 'n \<times> 'n dtn_bundle) multiset"
  cn_answers :: "('n \<times> bundle_id \<times> bool) multiset"

inductive custody_step :: "bundle_id \<Rightarrow> 'n custody_net \<Rightarrow> 'n custody_net \<Rightarrow> bool" for i where
  offer: "offer_custody inst (bd_id b) to (cn_nodes s n) = (Inr (), m) \<Longrightarrow>
    custody_step i s (s\<lparr>cn_nodes := (cn_nodes s)(n := m), cn_offers := add_mset (n, to, b) (cn_offers s)\<rparr>)"
| again: "x \<in># cn_offers s \<Longrightarrow> custody_step i s (s\<lparr>cn_offers := add_mset x (cn_offers s)\<rparr>)"
| answer: "(n, to, b) \<in># cn_offers s \<Longrightarrow> accept_custody now inst b (Some n) (cn_nodes s to) = (r, m) \<Longrightarrow>
    custody_step i s (s\<lparr>cn_nodes := (cn_nodes s)(to := m), cn_offers := cn_offers s - {#(n, to, b)#},
      cn_answers := add_mset (n, bd_id b, r = Inr ()) (cn_answers s)\<rparr>)"
| handle: "(n, j, a) \<in># cn_answers s \<Longrightarrow> handle_acceptance j a (cn_nodes s n) = (res, m) \<Longrightarrow>
    custody_step i s (s\<lparr>cn_nodes := (cn_nodes s)(n := m), cn_answers := cn_answers s - {#(n, j, a)#}\<rparr>)"
| timeouts: "custody_step i s (s\<lparr>cn_nodes := (cn_nodes s)(n := snd (check_custody_timeouts ord inst (cn_nodes s n)))\<rparr>)"
| release: "j \<noteq> i \<Longrightarrow> custody_step i s (s\<lparr>cn_nodes := (cn_nodes s)(n := snd (release_custody j (cn_nodes s n)))\<rparr>)"
| cleanup: "i \<notin> set (custody_get_expired ord inst (cn_nodes s n)) \<Longrightarrow>
    custody_step i s (s\<lparr>cn_nodes := (cn_nodes s)(n := snd (custody_cleanup_expired ord inst (cn_nodes s n)))\<rparr>)"
| lose_offer: "custody_step i s (s\<lparr>cn_offers := cn_offers s - {#x#}\<rparr>)"
| lose_answer: "custody_step i s (s\<lparr>cn_answers := cn_answers s - {#x#}\<rparr>)"

definition custodians :: "bundle_id \<Rightarrow> 'n custody_net \<Rightarrow> 'n set" where
  "custodians i s = {n. has_custody i (cn_nodes s n)}"

definition acceptances :: "bundle_id \<Rightarrow> 'n custody_net \<Rightarrow> nat" where
  "acceptances i s = size {#x \<in># cn_answers s. snd x = (i, True)#}"

text \<open>There is a custodian to spare for every acceptance on its way.\<close>

definition custody_backed :: "bundle_id \<Rightarrow> 'n custody_net \<Rightarrow> bool" where
  "custody_backed i s \<longleftrightarrow> (\<forall>n. custody_ok (cn_nodes s n)) \<and> finite (custodians i s) \<and> acceptances i s < card (custodians i s)"

lemma custody_backed_node:
  assumes "custody_backed i s" and "custody_ok m" and "has_custody i m \<longleftrightarrow> has_custody i (cn_nodes s n)"
    and "cn_nodes t = (cn_nodes s)(n := m)" and "acceptances i t \<le> acceptances i s"
  shows "custody_backed i t"
proof -
  have "custodians i t = custodians i s" using assms(3,4) by (auto simp: custodians_def)
  with assms show ?thesis by (simp add: custody_backed_def)
qed

lemma acceptances_remove:
  "acceptances i (s\<lparr>cn_answers := cn_answers s - {#x#}\<rparr>) \<le> acceptances i s"
  "x \<in># cn_answers s \<Longrightarrow> snd x = (i, True) \<Longrightarrow> Suc (acceptances i (s\<lparr>cn_answers := cn_answers s - {#x#}\<rparr>)) = acceptances i s"
proof -
  show "acceptances i (s\<lparr>cn_answers := cn_answers s - {#x#}\<rparr>) \<le> acceptances i s"
    by (simp add: acceptances_def filter_diff_mset size_mset_mono)
  assume "x \<in># cn_answers s" "snd x = (i, True)"
  moreover then have "x \<in># {#x \<in># cn_answers s. snd x = (i, True)#}" by simp
  ultimately show "Suc (acceptances i (s\<lparr>cn_answers := cn_answers s - {#x#}\<rparr>)) = acceptances i s"
    by (simp add: acceptances_def size_Suc_Diff1)
qed

lemma custody_backed_step:
  assumes "custody_step i s t" and inv: "custody_backed i s"
  shows "custody_backed i t"
  using assms(1)
proof cases
  case (offer inst b to n m)
  then show ?thesis
    using inv keepsD[OF offer_custody_ok _ offer(2)] has_custody_offer[OF offer(2)]
    by (intro custody_backed_node[OF inv, of m n]) (auto simp: custody_backed_def acceptances_def)
next
  case (answer n to b now inst r m)
  have ok: "custody_ok m" using inv keepsD[OF accept_custody_ok _ answer(3)] by (simp add: custody_backed_def)
  show ?thesis
  proof (cases "r = Inr () \<and> bd_id b = i")
    case True
    have "to \<notin> custodians i s" using has_custody_accept(2)[of now inst b "Some n" "cn_nodes s to" m] answer(3) True by (auto simp: custodians_def)
    moreover have "custodians i t = insert to (custodians i s)"
      using has_custody_accept(1)[OF answer(3), of i] True answer(1) by (auto simp: custodians_def)
    moreover have "acceptances i t = Suc (acceptances i s)" using True answer(1) by (simp add: acceptances_def)
    ultimately show ?thesis using inv ok answer(1) by (simp add: custody_backed_def)
  next
    case False
    then show ?thesis using ok answer(1) has_custody_accept(1)[OF answer(3), of i]
      by (intro custody_backed_node[OF inv, of m to]) (auto simp: acceptances_def)
  qed
next
  case (handle n j a res m)
  have ok: "custody_ok (cn_nodes s n)" "custody_ok m"
    using inv handle_acceptance_ok[of "cn_nodes s n" j a] handle(3) by (simp_all add: custody_backed_def)
  have acc: "acceptances i t = acceptances i (s\<lparr>cn_answers := cn_answers s - {#(n, j, a)#}\<rparr>)"
    using handle(1) by (simp add: acceptances_def)
  have hc: "has_custody i m \<longleftrightarrow> has_custody i (cn_nodes s n) \<and> \<not> (i = j \<and> a \<and> cu_pending (cn_nodes s n) j \<noteq> None)"
    by (rule has_custody_handle[OF ok(1) handle(3)])
  show ?thesis
  proof (cases "i = j \<and> a \<and> cu_pending (cn_nodes s n) j \<noteq> None")
    case True
    then have "has_custody i (cn_nodes s n)" using ok(1) by (auto simp: custody_ok_def has_custody_def)
    then have "n \<in> custodians i s" by (simp add: custodians_def)
    moreover have "custodians i t = custodians i s - {n}" using hc True handle(1) by (auto simp: custodians_def)
    moreover have "Suc (acceptances i t) = acceptances i s" using True handle(2) acc acceptances_remove(2) by fastforce
    ultimately show ?thesis using inv ok(2) handle(1) by (auto simp: custody_backed_def)
  next
    case False
    then show ?thesis using hc ok(2) handle(1) acc acceptances_remove(1)[of i s "(n, j, a)"]
      by (intro custody_backed_node[OF inv, of m n]) auto
  qed
next
  case (timeouts n ord inst)
  then show ?thesis using inv
    by (intro custody_backed_node[OF inv, of _ n]) (auto simp: custody_backed_def acceptances_def check_custody_timeouts_ok has_custody_timeouts)
next
  case (release j n)
  then show ?thesis using inv
    by (intro custody_backed_node[OF inv, of _ n]) (auto simp: custody_backed_def acceptances_def release_custody_ok has_custody_release)
next
  case (cleanup ord inst n)
  then show ?thesis using inv
    by (intro custody_backed_node[OF inv, of _ n]) (auto simp: custody_backed_def acceptances_def custody_cleanup_ok has_custody_cleanup)
next
  case (lose_answer x)
  then show ?thesis using inv acceptances_remove(1)[of i s x] by (auto simp: custody_backed_def custodians_def)
qed (use inv in \<open>simp_all add: custody_backed_def custodians_def acceptances_def\<close>)


section \<open>Examples and limits\<close>

definition sample_bundle :: "bool dtn_bundle" where
  "sample_bundle = bundle_from_packet (new_packet (\<lambda>_. 1) 0 [] (new_packet_id 1 1) True False (plaintext [5]) []) (10 ^ 9)"

definition sample_config :: custody_config where
  "sample_config = \<lparr>cc_max_bundles = 2, cc_acceptance_timeout = 30, cc_accept_from_unknown = True\<rparr>"

definition sample_net :: "bool custody_net" where
  "sample_net =
    \<lparr>cn_nodes = (\<lambda>n. if n then snd (accept_custody 0 0 sample_bundle None (new_custody sample_config)) else new_custody sample_config),
     cn_offers = {#}, cn_answers = {#}\<rparr>"

lemma sample_accept:
  "accept_custody now inst sample_bundle from (new_custody sample_config) =
    (Inr (), (new_custody sample_config)\<lparr>cu_records := [bd_id sample_bundle \<mapsto>
      \<lparr>cr_bundle_id = bd_id sample_bundle, cr_accepted_at = inst, cr_accepted_from = from, cr_destination = False,
       cr_expiration = inst + from_millis (num_milliseconds (time_to_live now sample_bundle)), cr_attempts = 0\<rparr>]\<rparr>)"
  by (simp add: accept_custody_def new_custody_def sample_config_def custody_count_def has_custody_def bundle_destination_def
      sample_bundle_def bundle_from_packet_def new_packet_def)


text \<open>
  An answer names the bundle and not the peer it comes from. After an offer to \<open>p\<close> and a second one to
  \<open>q\<close>, the acceptance of \<open>p\<close> is taken for one of \<open>q\<close>.
\<close>

lemma late_acceptance_misattributed:
  assumes "offer_custody t i p m = (Inr (), m1)" and "offer_custody u i q m1 = (Inr (), m2)"
  shows "fst (handle_acceptance i True m2) = TransferAccepted i q"
  using assms by (auto simp: offer_custody_def handle_acceptance_def Let_def split: if_splits)

text \<open>An acceptance that arrives after the timeout leaves two custodians.\<close>

lemma late_acceptance_duplicates_custody:
  "cu_pending m i = None \<Longrightarrow> handle_acceptance i True m = (NoPendingTransfer, m)"
  by (simp add: handle_acceptance_def)

text \<open>The custody history of a bundle is a chain from the first custodian to the current one.\<close>

fun custody_chain :: "'i \<Rightarrow> 'i custody_transfer list \<Rightarrow> 'i \<Rightarrow> bool" where
  "custody_chain c [] d \<longleftrightarrow> c = d"
| "custody_chain c (t # ts) d \<longleftrightarrow> ct_from t = c \<and> ct_accepted t \<and> custody_chain (ct_to t) ts d"

lemma custody_chain_snoc: "custody_chain c (ts @ [t]) d \<longleftrightarrow> custody_chain c ts (ct_from t) \<and> ct_accepted t \<and> ct_to t = d"
  by (induction ts arbitrary: c) auto

lemma transfer_custody_chain:
  assumes "custody_chain c (bd_history b) p" and "bd_custodian b = Some p" and "bd_custody_requested b"
    and "transfer_custody now to b = (r, b')"
  shows "custody_chain c (bd_history b') to \<and> bd_custodian b' = Some to \<and> bd_custody_requested b'"
  using assms by (auto simp: transfer_custody_def Let_def custody_chain_snoc)

lemma priority_roundtrip [simp]: "from_priority (to_priority c) = c" "to_priority (from_priority p) = p"
  by (cases c; simp add: from_priority_def to_priority_def) (cases p; simp add: from_priority_def to_priority_def)

lemma time_to_live_expired: "time_to_live now b = 0 \<longleftrightarrow> bundle_is_expired now b"
  by (simp add: time_to_live_def bundle_is_expired_def Let_def)

end
