(* ===== verification/Dtn_Routing.thy ===== *)
theory Dtn_Routing
  imports Bundle Prophet
begin

text \<open>
  Expiration of bundles (\<open>indras-dtn/src/expiration.rs\<close>), epidemic routing with spray-and-wait
  (\<open>epidemic.rs\<close>), the choice of a strategy (\<open>strategy.rs\<close>) and the configurations (\<open>lib.rs\<close>). The topology
  is the record of \<open>Routing\<close>; \<open>h\<close> is the hash of an identity. The ratio of \<open>LowConnectivity\<close> is computed
  in \<open>f32\<close>, with the rounding \<open>rnd\<close>.
\<close>

section \<open>Priorities\<close>

instantiation priority :: linorder
begin

definition priority_rank :: "priority \<Rightarrow> nat" where
  "priority_rank p = (case p of Low \<Rightarrow> 0 | Normal \<Rightarrow> 1 | High \<Rightarrow> 2 | Critical \<Rightarrow> 3)"

definition less_eq_priority :: "priority \<Rightarrow> priority \<Rightarrow> bool" where
  "a \<le> b \<longleftrightarrow> priority_rank a \<le> priority_rank b"

definition less_priority :: "priority \<Rightarrow> priority \<Rightarrow> bool" where
  "a < b \<longleftrightarrow> priority_rank a < priority_rank b"

instance
proof
  fix x y z :: priority
  show "(x < y) = (x \<le> y \<and> \<not> y \<le> x)" by (auto simp: less_eq_priority_def less_priority_def)
  show "x \<le> x" by (simp add: less_eq_priority_def)
  show "x \<le> y \<Longrightarrow> y \<le> z \<Longrightarrow> x \<le> z" by (simp add: less_eq_priority_def)
  show "x \<le> y \<Longrightarrow> y \<le> x \<Longrightarrow> x = y" by (cases x; cases y) (simp_all add: less_eq_priority_def priority_rank_def)
  show "x \<le> y \<or> y \<le> x" by (auto simp: less_eq_priority_def)
qed

end

section \<open>Expiration\<close>

record expiration_config =
  xc_default_lifetime :: nat
  xc_max_lifetime :: nat
  xc_demotion_thresholds :: "(nat \<times> priority) list"
  xc_cleanup_interval :: nat

record expiration_record =
  xr_bundle_id :: bundle_id
  xr_created_at :: int
  xr_expires_at :: int
  xr_priority :: priority

record age_manager =
  am_tracked :: "bundle_id \<rightharpoonup> expiration_record"
  am_config :: expiration_config

definition new_age_manager :: "expiration_config \<Rightarrow> age_manager" where
  "new_age_manager c = \<lparr>am_tracked = Map.empty, am_config = c\<rparr>"

text \<open>\<open>TimeDelta::from_std\<close> fails above \<open>i64::MAX\<close> milliseconds.\<close>

definition from_std :: "nat \<Rightarrow> int option" where
  "from_std d = (if d \<le> (2 ^ 63 - 1) * 10 ^ 6 then Some (int d) else None)"

definition one_hour :: int where
  "one_hour = 3600 * 10 ^ 9"

definition age_track :: "'i dtn_bundle \<Rightarrow> age_manager \<Rightarrow> age_manager" where
  "age_track b m =
    (let created_at = pk_created_at (bd_packet b);
         capped_lifetime = min (from_millis (num_milliseconds (bd_lifetime b))) (xc_max_lifetime (am_config m));
         expires_at = created_at + (case from_std capped_lifetime of Some d \<Rightarrow> d | None \<Rightarrow> one_hour)
     in m\<lparr>am_tracked := (am_tracked m)(bd_id b \<mapsto>
          \<lparr>xr_bundle_id = bd_id b, xr_created_at = created_at, xr_expires_at = expires_at,
           xr_priority = pk_priority (bd_packet b)\<rparr>)\<rparr>)"

definition age_untrack :: "bundle_id \<Rightarrow> age_manager \<Rightarrow> age_manager" where
  "age_untrack i m = m\<lparr>am_tracked := (am_tracked m)(i := None)\<rparr>"

definition age_is_expired :: "int \<Rightarrow> bundle_id \<Rightarrow> age_manager \<Rightarrow> bool" where
  "age_is_expired now i m = (case am_tracked m i of None \<Rightarrow> False | Some r \<Rightarrow> now > xr_expires_at r)"

definition effective_priority :: "int \<Rightarrow> 'i dtn_bundle \<Rightarrow> age_manager \<Rightarrow> priority" where
  "effective_priority now b m =
    (let age = from_millis (max (num_milliseconds (bundle_age now b)) 0)
     in foldl (\<lambda>effective (threshold, demoted). if age \<ge> threshold \<and> demoted < effective then demoted else effective)
          (pk_priority (bd_packet b)) (xc_demotion_thresholds (am_config m)))"

definition age_get_expired :: "(bundle_id set \<Rightarrow> bundle_id list) \<Rightarrow> int \<Rightarrow> age_manager \<Rightarrow> bundle_id list" where
  "age_get_expired ord now m = ord (xr_bundle_id ` {r \<in> ran (am_tracked m). now > xr_expires_at r})"

definition time_remaining :: "int \<Rightarrow> bundle_id \<Rightarrow> age_manager \<Rightarrow> nat option" where
  "time_remaining now i m =
    (case am_tracked m i of
       None \<Rightarrow> None
     | Some r \<Rightarrow> if now > xr_expires_at r then None
         else Some (from_millis (max (num_milliseconds (xr_expires_at r - now)) 0)))"

definition age_cleanup :: "(bundle_id set \<Rightarrow> bundle_id list) \<Rightarrow> int \<Rightarrow> age_manager \<Rightarrow> bundle_id list \<times> age_manager" where
  "age_cleanup ord now m =
    (let expired = age_get_expired ord now m in (expired, foldl (\<lambda>m i. age_untrack i m) m expired))"

definition expiring_soon :: "(bundle_id set \<Rightarrow> bundle_id list) \<Rightarrow> int \<Rightarrow> nat \<Rightarrow> age_manager \<Rightarrow> bundle_id list" where
  "expiring_soon ord now threshold m =
    List.map_filter (\<lambda>i. case time_remaining now i m of None \<Rightarrow> None | Some d \<Rightarrow> if d \<le> threshold then Some i else None)
      (ord (xr_bundle_id ` ran (am_tracked m)))"

section \<open>Epidemic routing\<close>

record epidemic_config =
  epc_max_copies :: u8
  epc_spray_and_wait :: bool
  epc_spray_count :: u8
  epc_seen_timeout :: nat
  epc_max_bundle_age :: nat

record seen_record =
  sr_first_seen :: nat
  sr_count :: u32

datatype suppress_reason = DuplicateBundle | NoNeighbors | WaitPhase

datatype 'i epidemic_decision =
  FloodAll "'i list" | SprayTo "'i list" u8 | DirectTo 'i | SuppressFor suppress_reason | BundleExpired

fun is_forwarding :: "'i epidemic_decision \<Rightarrow> bool" where
  "is_forwarding (FloodAll ns) = True"
| "is_forwarding (SprayTo ts n) = True"
| "is_forwarding (DirectTo d) = True"
| "is_forwarding _ = False"

fun decision_targets :: "'i epidemic_decision \<Rightarrow> 'i list" where
  "decision_targets (FloodAll ns) = ns"
| "decision_targets (SprayTo ts n) = ts"
| "decision_targets (DirectTo d) = [d]"
| "decision_targets _ = []"

record epidemic_router =
  er_seen :: "bundle_id \<rightharpoonup> seen_record"
  er_config :: epidemic_config

definition new_epidemic :: "epidemic_config \<Rightarrow> epidemic_router" where
  "new_epidemic c = \<lparr>er_seen = Map.empty, er_config = c\<rparr>"

definition have_seen :: "bundle_id \<Rightarrow> epidemic_router \<Rightarrow> bool" where
  "have_seen i r \<longleftrightarrow> er_seen r i \<noteq> None"

definition mark_seen :: "nat \<Rightarrow> bundle_id \<Rightarrow> epidemic_router \<Rightarrow> epidemic_router" where
  "mark_seen inst i r = r\<lparr>er_seen := (er_seen r)(i \<mapsto>
    (case er_seen r i of Some s \<Rightarrow> s\<lparr>sr_count := sr_count s + 1\<rparr> | None \<Rightarrow> \<lparr>sr_first_seen = inst, sr_count = 1\<rparr>))\<rparr>"

definition seen_count :: "bundle_id \<Rightarrow> epidemic_router \<Rightarrow> u32" where
  "seen_count i r = (case er_seen r i of Some s \<Rightarrow> sr_count s | None \<Rightarrow> 0)"

definition div_ceil_half :: "u8 \<Rightarrow> nat" where
  "div_ceil_half copies = (unat copies + 1) div 2"

definition spray_and_wait_decision :: "'i dtn_bundle \<Rightarrow> 'i list \<Rightarrow> 'i epidemic_decision" where
  "spray_and_wait_decision b neighbors =
    (let copies = bd_copies b in
     if copies \<le> 1 then SuppressFor WaitPhase
     else let targets = take (div_ceil_half copies) neighbors;
              sprayed = (of_nat (length targets) :: u8)
       in SprayTo targets (if sprayed \<le> copies then copies - sprayed else 0))"

definition forward_neighbors :: "('i \<Rightarrow> u64) \<Rightarrow> 'i dtn_bundle \<Rightarrow> 'i \<Rightarrow> 'i topology \<Rightarrow> 'i list" where
  "forward_neighbors h b current T =
    filter (\<lambda>n. n \<noteq> current) (filter (\<lambda>n. \<not> was_visited h n (bd_packet b)) (filter (tp_online T) (tp_neighbors T current)))"

definition epidemic_route ::
  "('i \<Rightarrow> u64) \<Rightarrow> int \<Rightarrow> nat \<Rightarrow> 'i dtn_bundle \<Rightarrow> 'i \<Rightarrow> 'i topology \<Rightarrow> epidemic_router \<Rightarrow> 'i epidemic_decision \<times> epidemic_router" where
  "epidemic_route h now inst b current T r =
    (if bundle_is_expired now b then (BundleExpired, r)
     else if trunc_div (bundle_age now b) (10 ^ 9) > wrap_i64 (int (epc_max_bundle_age (er_config r) div 10 ^ 9)) then (BundleExpired, r)
     else if have_seen (bd_id b) r then (SuppressFor DuplicateBundle, r)
     else let r = mark_seen inst (bd_id b) r; neighbors = forward_neighbors h b current T in
       (if bundle_destination b \<in> set neighbors then DirectTo (bundle_destination b)
        else if neighbors = [] then SuppressFor NoNeighbors
        else if epc_spray_and_wait (er_config r) then spray_and_wait_decision b neighbors
        else FloodAll neighbors, r))"

definition cleanup_seen :: "nat \<Rightarrow> epidemic_router \<Rightarrow> nat \<times> epidemic_router" where
  "cleanup_seen inst r =
    (let old = {i. \<exists>s. er_seen r i = Some s \<and> \<not> inst - sr_first_seen s < epc_seen_timeout (er_config r)}
     in (card old, r\<lparr>er_seen := er_seen r |` (- old)\<rparr>))"

definition calculate_spray_targets :: "u8 \<Rightarrow> nat \<Rightarrow> nat" where
  "calculate_spray_targets copies available = (if copies \<le> 1 then 0 else min (div_ceil_half copies) available)"

section \<open>Strategies\<close>

datatype dtn_strategy = StoreAndForward | Epidemic | SprayAndWait u8 | ProphetStrategy

fun initial_copies :: "dtn_strategy \<Rightarrow> u8" where
  "initial_copies (SprayAndWait copies) = copies"
| "initial_copies Epidemic = 8"
| "initial_copies _ = 1"

datatype strategy_condition =
  LowConnectivity rat | PriorityAtLeast priority | AgeAbove nat | DestinationUnreachable nat | AlwaysMatch

fun condition_matches ::
  "(rat \<Rightarrow> rat) \<Rightarrow> int \<Rightarrow> 'i dtn_bundle \<Rightarrow> 'i list \<Rightarrow> 'i topology \<Rightarrow> strategy_condition \<Rightarrow> bool" where
  "condition_matches rnd now b peers T (LowConnectivity threshold) =
    (if peers = [] then True
     else rnd (rnd (of_nat (length (filter (tp_online T) peers))) / rnd (of_nat (length peers))) < threshold)"
| "condition_matches rnd now b peers T (PriorityAtLeast p) = (bundle_priority b \<ge> p)"
| "condition_matches rnd now b peers T (AgeAbove threshold) =
    (from_millis (max (num_milliseconds (bundle_age now b)) 0) > threshold)"
| "condition_matches rnd now b peers T (DestinationUnreachable d) = (\<not> tp_online T (bundle_destination b))"
| "condition_matches rnd now b peers T AlwaysMatch = True"

record strategy_rule =
  sru_condition :: strategy_condition
  sru_strategy :: dtn_strategy

record strategy_selector =
  ss_default :: dtn_strategy
  ss_rules :: "strategy_rule list"

definition new_selector :: "dtn_strategy \<Rightarrow> strategy_selector" where
  "new_selector d = \<lparr>ss_default = d, ss_rules = []\<rparr>"

definition add_rule :: "strategy_rule \<Rightarrow> strategy_selector \<Rightarrow> strategy_selector" where
  "add_rule r s = s\<lparr>ss_rules := ss_rules s @ [r]\<rparr>"

definition set_default :: "dtn_strategy \<Rightarrow> strategy_selector \<Rightarrow> strategy_selector" where
  "set_default d s = s\<lparr>ss_default := d\<rparr>"

definition clear_rules :: "strategy_selector \<Rightarrow> strategy_selector" where
  "clear_rules s = s\<lparr>ss_rules := []\<rparr>"

definition default_selector :: "(rat \<Rightarrow> rat) \<Rightarrow> strategy_selector" where
  "default_selector rnd =
    add_rule \<lparr>sru_condition = AgeAbove (600 * 10 ^ 9), sru_strategy = SprayAndWait 2\<rparr>
     (add_rule \<lparr>sru_condition = LowConnectivity (rnd (3 / 10)), sru_strategy = Epidemic\<rparr>
      (add_rule \<lparr>sru_condition = PriorityAtLeast Critical, sru_strategy = Epidemic\<rparr>
       (new_selector (SprayAndWait 4))))"

definition select_strategy ::
  "(rat \<Rightarrow> rat) \<Rightarrow> int \<Rightarrow> 'i dtn_bundle \<Rightarrow> 'i list \<Rightarrow> 'i topology \<Rightarrow> strategy_selector \<Rightarrow> dtn_strategy" where
  "select_strategy rnd now b peers T s =
    (case find (\<lambda>r. condition_matches rnd now b peers T (sru_condition r)) (ss_rules s) of
       Some r \<Rightarrow> sru_strategy r
     | None \<Rightarrow> ss_default s)"

section \<open>Configurations\<close>

record dtn_config =
  dc_custody :: custody_config
  dc_epidemic :: epidemic_config
  dc_expiration :: expiration_config
  dc_strategy :: dtn_strategy

abbreviation seconds :: "nat \<Rightarrow> nat" where
  "seconds n \<equiv> n * 1000000000"

definition default_dtn :: dtn_config where
  "default_dtn =
    \<lparr>dc_custody = \<lparr>cc_max_bundles = 1000, cc_acceptance_timeout = seconds 30, cc_accept_from_unknown = True\<rparr>,
     dc_epidemic = \<lparr>epc_max_copies = 8, epc_spray_and_wait = True, epc_spray_count = 4,
       epc_seen_timeout = seconds 3600, epc_max_bundle_age = seconds 86400\<rparr>,
     dc_expiration = \<lparr>xc_default_lifetime = seconds 3600, xc_max_lifetime = seconds (86400 * 7),
       xc_demotion_thresholds = [(seconds 300, Normal), (seconds 900, Low)], xc_cleanup_interval = seconds 60\<rparr>,
     dc_strategy = SprayAndWait 4\<rparr>"

definition low_latency :: dtn_config where
  "low_latency =
    \<lparr>dc_custody = \<lparr>cc_max_bundles = 500, cc_acceptance_timeout = seconds 10, cc_accept_from_unknown = True\<rparr>,
     dc_epidemic = \<lparr>epc_max_copies = 4, epc_spray_and_wait = False, epc_spray_count = 2,
       epc_seen_timeout = seconds 600, epc_max_bundle_age = seconds 3600\<rparr>,
     dc_expiration = \<lparr>xc_default_lifetime = seconds 600, xc_max_lifetime = seconds 3600,
       xc_demotion_thresholds = [(seconds 60, Normal), (seconds 180, Low)], xc_cleanup_interval = seconds 30\<rparr>,
     dc_strategy = StoreAndForward\<rparr>"

definition challenged_network :: dtn_config where
  "challenged_network =
    \<lparr>dc_custody = \<lparr>cc_max_bundles = 2000, cc_acceptance_timeout = seconds 120, cc_accept_from_unknown = True\<rparr>,
     dc_epidemic = \<lparr>epc_max_copies = 16, epc_spray_and_wait = True, epc_spray_count = 8,
       epc_seen_timeout = seconds 7200, epc_max_bundle_age = seconds (86400 * 3)\<rparr>,
     dc_expiration = \<lparr>xc_default_lifetime = seconds 86400, xc_max_lifetime = seconds (86400 * 14),
       xc_demotion_thresholds = [(seconds 3600, Normal), (seconds 7200, Low)], xc_cleanup_interval = seconds 300\<rparr>,
     dc_strategy = Epidemic\<rparr>"

definition resource_constrained :: dtn_config where
  "resource_constrained =
    \<lparr>dc_custody = \<lparr>cc_max_bundles = 100, cc_acceptance_timeout = seconds 15, cc_accept_from_unknown = False\<rparr>,
     dc_epidemic = \<lparr>epc_max_copies = 2, epc_spray_and_wait = True, epc_spray_count = 2,
       epc_seen_timeout = seconds 300, epc_max_bundle_age = seconds 1800\<rparr>,
     dc_expiration = \<lparr>xc_default_lifetime = seconds 300, xc_max_lifetime = seconds 1800,
       xc_demotion_thresholds = [(seconds 60, Normal), (seconds 120, Low)], xc_cleanup_interval = seconds 30\<rparr>,
     dc_strategy = SprayAndWait 2\<rparr>"

datatype config_warning =
  DefaultLifetimeExceedsMax | SprayCountExceedsMaxCopies | StrategyExceedsMaxCopies | CleanupIntervalTooShort | LargeCustodyLimit

definition validate_dtn :: "dtn_config \<Rightarrow> config_warning list" where
  "validate_dtn c =
    (if xc_default_lifetime (dc_expiration c) > xc_max_lifetime (dc_expiration c) then [DefaultLifetimeExceedsMax] else []) @
    (if epc_spray_and_wait (dc_epidemic c) \<and> epc_spray_count (dc_epidemic c) > epc_max_copies (dc_epidemic c)
     then [SprayCountExceedsMaxCopies] else []) @
    (case dc_strategy c of
       SprayAndWait copies \<Rightarrow> if copies > epc_max_copies (dc_epidemic c) then [StrategyExceedsMaxCopies] else []
     | _ \<Rightarrow> []) @
    (if xc_cleanup_interval (dc_expiration c) < seconds 10 then [CleanupIntervalTooShort] else []) @
    (if cc_max_bundles (dc_custody c) > 10000 then [LargeCustodyLimit] else [])"

section \<open>Spray and wait\<close>

lemma div_ceil_half_bounds: "1 < copies \<Longrightarrow> 0 < div_ceil_half copies \<and> div_ceil_half copies < unat copies"
  by (simp add: div_ceil_half_def word_less_nat_alt)

text \<open>
  Copies are neither made nor lost: what is sprayed and what is kept add up to the copies of the bundle;
  something is sprayed, at most half of the copies rounded up, and something is kept.
\<close>

lemma spray_conserves_copies:
  assumes "1 < bd_copies b" and "neighbors \<noteq> []"
  obtains k where "spray_and_wait_decision b neighbors = SprayTo (take (div_ceil_half (bd_copies b)) neighbors) k"
    and "unat k + min (div_ceil_half (bd_copies b)) (length neighbors) = unat (bd_copies b)"
    and "0 < min (div_ceil_half (bd_copies b)) (length neighbors)" and "0 < k"
proof -
  let ?c = "bd_copies b" and ?n = "min (div_ceil_half (bd_copies b)) (length neighbors)"
  have n: "?n < unat ?c" "0 < ?n" using div_ceil_half_bounds[OF assms(1)] assms(2) by auto
  have "unat ?c < 256" by (rule unat_u8_bound)
  then have u: "unat (of_nat ?n :: u8) = ?n" using n by (simp add: unsigned_of_nat take_bit_nat_eq_self)
  then have le: "(of_nat ?n :: u8) \<le> ?c" using n by (simp add: word_le_nat_alt)
  have "unat (?c - of_nat ?n) = unat ?c - ?n" using le u unat_sub[OF le] by simp
  moreover have "spray_and_wait_decision b neighbors = SprayTo (take (div_ceil_half ?c) neighbors) (?c - of_nat ?n)"
    using assms(1) le by (simp add: spray_and_wait_decision_def Let_def min.commute)
  ultimately show thesis using n that[of "?c - of_nat ?n"] by (simp add: word_less_nat_alt)
qed

lemma calculate_spray_targets_exact:
  "1 < bd_copies b \<Longrightarrow> length (decision_targets (spray_and_wait_decision b ns)) = calculate_spray_targets (bd_copies b) (length ns)"
  by (simp add: spray_and_wait_decision_def calculate_spray_targets_def Let_def min.commute)

section \<open>Epidemic decisions\<close>

lemma have_seen_mark [simp]: "have_seen j (mark_seen inst i r) \<longleftrightarrow> j = i \<or> have_seen j r"
  by (simp add: have_seen_def mark_seen_def)

lemma mark_seen_config [simp]: "er_config (mark_seen inst i r) = er_config r"
  by (simp add: mark_seen_def)

lemma forward_neighbors_ok:
  "x \<in> set (forward_neighbors h b current T) \<longleftrightarrow>
    x \<in> set (tp_neighbors T current) \<and> tp_online T x \<and> \<not> was_visited h x (bd_packet b) \<and> x \<noteq> current"
  by (auto simp: forward_neighbors_def)

lemma spray_targets_subset: "set (decision_targets (spray_and_wait_decision b ns)) \<subseteq> set ns"
  by (auto simp: spray_and_wait_decision_def Let_def dest: in_set_takeD)

lemma epidemic_route_cases:
  obtains "epidemic_route h now inst b current T r = (BundleExpired, r)"
  | "have_seen (bd_id b) r" "epidemic_route h now inst b current T r = (SuppressFor DuplicateBundle, r)"
  | d where "\<not> have_seen (bd_id b) r" "epidemic_route h now inst b current T r = (d, mark_seen inst (bd_id b) r)" "d \<noteq> BundleExpired"
      "d \<noteq> SuppressFor DuplicateBundle"
      "set (decision_targets d) \<subseteq> set (forward_neighbors h b current T)"
      "bundle_destination b \<in> set (forward_neighbors h b current T) \<longleftrightarrow> d = DirectTo (bundle_destination b)"
proof -
  let ?ns = "forward_neighbors h b current T"
  let ?d = "if bundle_destination b \<in> set ?ns then DirectTo (bundle_destination b)
        else if ?ns = [] then SuppressFor NoNeighbors
        else if epc_spray_and_wait (er_config r) then spray_and_wait_decision b ?ns else FloodAll ?ns"
  have s: "spray_and_wait_decision b ?ns \<noteq> DirectTo x" "spray_and_wait_decision b ?ns \<noteq> BundleExpired"
    "spray_and_wait_decision b ?ns \<noteq> SuppressFor DuplicateBundle" for x
    by (simp_all add: spray_and_wait_decision_def Let_def)
  show thesis
  proof (cases "fst (epidemic_route h now inst b current T r) = BundleExpired \<or> have_seen (bd_id b) r")
    case True
    then show thesis using that(1,2) s by (auto simp: epidemic_route_def Let_def split: if_splits)
  next
    case False
    then have "epidemic_route h now inst b current T r = (?d, mark_seen inst (bd_id b) r)"
      by (auto simp: epidemic_route_def Let_def split: if_splits)
    moreover have "set (decision_targets ?d) \<subseteq> set ?ns" using spray_targets_subset[of b ?ns] by simp
    ultimately show thesis using that(3)[of ?d] False s by simp
  qed
qed

text \<open>A run of the router on a list of requests, with the bundle and the decision of each.\<close>

fun epidemic_run ::
  "('i \<Rightarrow> u64) \<Rightarrow> (int \<times> nat \<times> 'i dtn_bundle \<times> 'i \<times> 'i topology) list \<Rightarrow> epidemic_router \<Rightarrow>
    (bundle_id \<times> 'i epidemic_decision) list \<times> epidemic_router" where
  "epidemic_run h [] r = ([], r)"
| "epidemic_run h ((now, inst, b, current, T) # qs) r =
    (let (d, r) = epidemic_route h now inst b current T r; (ds, r) = epidemic_run h qs r in ((bd_id b, d) # ds, r))"

lemma epidemic_run_seen:
  assumes "have_seen i r" and "epidemic_run h qs r = (ds, r')" and "(i, d) \<in> set ds"
  shows "d = SuppressFor DuplicateBundle \<or> d = BundleExpired"
  using assms
proof (induction qs arbitrary: r ds r')
  case (Cons q qs)
  obtain now inst b current T where q: "q = (now, inst, b, current, T)" by (metis prod_cases5)
  obtain d1 r1 where 1: "epidemic_route h now inst b current T r = (d1, r1)" by fastforce
  obtain ds2 r2 where 2: "epidemic_run h qs r1 = (ds2, r2)" by fastforce
  have ds: "ds = (bd_id b, d1) # ds2" using Cons.prems(2) by (simp add: q 1 2)
  have keep: "have_seen i r1" and now: "bd_id b = i \<longrightarrow> d1 = SuppressFor DuplicateBundle \<or> d1 = BundleExpired"
    using Cons.prems(1) by (cases rule: epidemic_route_cases[of h now inst b current T r]; auto simp: 1)+
  show ?case using Cons.IH[OF keep 2] Cons.prems(3) now ds by auto
qed simp

text \<open>
  The epidemic router decides once about a bundle. When it has held, forwarded or delivered a bundle,
  every later decision on that bundle is to suppress it as a duplicate or to drop it as expired, so a
  bundle is never forwarded twice; but a bundle that was held because no neighbour was
  there, or because one copy was left, is not handed over either when its destination appears.
\<close>

theorem epidemic_decides_once:
  assumes "epidemic_route h now inst b current T r = (d, r1)" and "d \<noteq> BundleExpired"
    and "epidemic_run h qs r1 = (ds, r2)" and "(bd_id b, e) \<in> set ds"
  shows "\<not> is_forwarding e \<and> (e = SuppressFor DuplicateBundle \<or> e = BundleExpired) \<and>
    set (decision_targets d) \<subseteq> {x \<in> set (tp_neighbors T current). tp_online T x \<and> \<not> was_visited h x (bd_packet b) \<and> x \<noteq> current}"
proof -
  have "have_seen (bd_id b) r1" and "set (decision_targets d) \<subseteq> set (forward_neighbors h b current T)"
    using assms(1,2) by (cases rule: epidemic_route_cases[of h now inst b current T r]; auto)+
  then show ?thesis using epidemic_run_seen[OF _ assms(3,4)] by (auto simp: forward_neighbors_ok)
qed

section \<open>Expiration\<close>

lemma demotion_fold:
  "foldl (\<lambda>e (t :: nat, p). if age \<ge> t \<and> p < e then p else e) (e :: priority) ts = Min (insert e {p. \<exists>t. (t, p) \<in> set ts \<and> t \<le> age})"
proof (induction ts arbitrary: e)
  case (Cons x ts)
  obtain t p where x: "x = (t, p)" by fastforce
  have fin: "finite {p. \<exists>t. (t, p) \<in> set ts \<and> t \<le> age}"
    by (rule finite_subset[of _ "snd ` set ts"]) force+
  have set: "{q. \<exists>u. (u, q) \<in> set (x # ts) \<and> u \<le> age} = (if t \<le> age then {p} else {}) \<union> {p. \<exists>t. (t, p) \<in> set ts \<and> t \<le> age}"
    by (auto simp: x)
  have "Min (insert e (insert p A)) = Min (insert (min p e) A)" if "finite A" for A
    using that by (cases "A = {}") (simp_all add: min.left_commute min.assoc min.commute)
  note two = this[OF fin]
  have "(if age \<ge> t \<and> p < e then p else e) = (if t \<le> age then min p e else e)" by (auto simp: min_def)
  then have "foldl (\<lambda>e (t, p). if age \<ge> t \<and> p < e then p else e) e (x # ts) =
      Min (insert (if t \<le> age then min p e else e) {p. \<exists>t. (t, p) \<in> set ts \<and> t \<le> age})" using Cons.IH by (simp add: x)
  then show ?case unfolding set using two by (cases "t \<le> age") simp_all
qed simp

text \<open>
  The effective priority of a bundle is the least of its own priority and of the priorities of the
  thresholds that its age has reached; it never rises as the bundle ages.
\<close>

theorem effective_priority_least:
  "effective_priority now b m = Min (insert (pk_priority (bd_packet b))
    {p. \<exists>t. (t, p) \<in> set (xc_demotion_thresholds (am_config m)) \<and> t \<le> from_millis (max (num_milliseconds (bundle_age now b)) 0)})"
  by (simp add: effective_priority_def demotion_fold Let_def)

text \<open>A tracked bundle expires when its lifetime, cut to milliseconds and capped, is over.\<close>

lemma age_track_expires:
  assumes "0 \<le> bd_lifetime b" and "bd_lifetime b < 2 ^ 63" and "xc_max_lifetime (am_config m) \<le> (2 ^ 63 - 1) * 10 ^ 6"
  shows "age_is_expired now (bd_id b) (age_track b m) \<longleftrightarrow>
    bundle_age now b > min (bd_lifetime b div 10 ^ 6 * 10 ^ 6) (int (xc_max_lifetime (am_config m)))"
proof -
  let ?l = "bd_lifetime b"
  have "?l div 10 ^ 6 < 2 ^ 64" using assms(2) by simp
  then have "int (from_millis (num_milliseconds ?l)) = ?l div 10 ^ 6 * 10 ^ 6"
    using assms(1) by (simp add: num_milliseconds_def trunc_div_nonneg from_millis_nonneg pos_imp_zdiv_nonneg_iff)
  then show ?thesis using assms(3) by (auto simp: age_is_expired_def age_track_def from_std_def Let_def bundle_age_def min_def)
qed

text \<open>A lifetime of minus one millisecond is read as an unsigned number and lasts as long as is allowed.\<close>

lemma negative_lifetime_is_maximal:
  assumes "bd_lifetime b = - (10 ^ 6)" and "xc_max_lifetime (am_config m) \<le> (2 ^ 63 - 1) * 10 ^ 6"
  shows "age_is_expired now (bd_id b) (age_track b m) \<longleftrightarrow> bundle_age now b > int (xc_max_lifetime (am_config m))"
proof -
  have "from_millis (num_milliseconds (bd_lifetime b)) = (2 ^ 64 - 1) * 10 ^ 6"
    by (simp add: assms(1) num_milliseconds_def trunc_div_def from_millis_def)
  then have "min (from_millis (num_milliseconds (bd_lifetime b))) (xc_max_lifetime (am_config m)) = xc_max_lifetime (am_config m)"
    using assms(2) by simp
  then show ?thesis using assms(2) by (simp add: age_is_expired_def age_track_def from_std_def Let_def bundle_age_def) linarith
qed

section \<open>Strategies and configurations\<close>

lemma default_selector_critical:
  "bundle_priority b = Critical \<Longrightarrow> select_strategy rnd now b peers T (default_selector rnd) = Epidemic"
  by (simp add: select_strategy_def default_selector_def add_rule_def new_selector_def)

lemma select_strategy_default:
  "(\<And>r. r \<in> set (ss_rules s) \<Longrightarrow> \<not> condition_matches rnd now b peers T (sru_condition r)) \<Longrightarrow>
    select_strategy rnd now b peers T s = ss_default s"
  by (auto simp: select_strategy_def find_None_iff[THEN iffD2])

lemma presets_valid:
  "validate_dtn default_dtn = []" "validate_dtn low_latency = []" "validate_dtn challenged_network = []"
  "validate_dtn resource_constrained = []"
  by (simp_all add: validate_dtn_def default_dtn_def low_latency_def challenged_network_def resource_constrained_def)

section \<open>Example\<close>

definition sample_topology :: "bool list \<Rightarrow> bool topology" where
  "sample_topology ns = \<lparr>tp_neighbors = (\<lambda>_. ns), tp_connected = (\<lambda>_ x. x \<in> set ns), tp_online = (\<lambda>_. True)\<rparr>"

theorem epidemic_decides_once_witness:
  "fst (epidemic_route (\<lambda>x. if x then 1 else 2) 1 0 sample_bundle True (sample_topology []) (new_epidemic (dc_epidemic default_dtn))) =
      SuppressFor NoNeighbors \<and>
    \<not> is_forwarding (fst (epidemic_route (\<lambda>x. if x then 1 else 2) 2 3 sample_bundle True (sample_topology [False])
      (snd (epidemic_route (\<lambda>x. if x then 1 else 2) 1 0 sample_bundle True (sample_topology []) (new_epidemic (dc_epidemic default_dtn))))))"
proof -
  let ?h = "\<lambda>x :: bool. if x then 1 else 2 :: u64" and ?r = "new_epidemic (dc_epidemic default_dtn)"
  have live: "\<not> bundle_is_expired 1 sample_bundle" "bundle_age 1 sample_bundle = 1"
    by (simp_all add: bundle_is_expired_def bundle_age_def sample_bundle_def bundle_from_packet_def new_packet_def)
  have 1: "epidemic_route ?h 1 0 sample_bundle True (sample_topology []) ?r = (SuppressFor NoNeighbors, mark_seen 0 (bd_id sample_bundle) ?r)"
    using live by (simp add: epidemic_route_def Let_def forward_neighbors_def sample_topology_def new_epidemic_def have_seen_def default_dtn_def
        trunc_div_nonneg in_i64_def)
  obtain e r2 where e: "epidemic_route ?h 2 3 sample_bundle True (sample_topology [False]) (mark_seen 0 (bd_id sample_bundle) ?r) = (e, r2)" by fastforce
  have 2: "epidemic_run ?h [(2, 3, sample_bundle, True, sample_topology [False])] (mark_seen 0 (bd_id sample_bundle) ?r) = ([(bd_id sample_bundle, e)], r2)"
    by (simp add: e)
  from epidemic_decides_once[OF 1 _ 2, of e] show ?thesis by (simp add: 1 e)
qed

end
