(* ===== verification/Dtn_Manager.thy ===== *)
theory Dtn_Manager
  imports Dtn_Routing
begin

text \<open>
  The persistent store of bundles and the manager of the delay-tolerant network:
  \<open>indras-node/src/bundle_store.rs\<close> and \<open>indras-node/src/dtn_manager.rs\<close>. The two redb tables are
  maps from byte keys that are scanned in the order of the keys; a write transaction takes effect as a whole or, with
  the message of the failed step (\<open>db\<close>), not at all, and a read transaction fails as a whole. The encoding of bundles and messages by
  \<open>postcard\<close> is a record of functions, and \<open>h\<close> is the standard hash of an identity.
\<close>

section \<open>Keys\<close>

definition bundle_id_to_key :: "bundle_id \<Rightarrow> bytes" where
  "bundle_id_to_key i = u64_to_be (bi_source_hash i) @ u64_to_be (of_int (bi_timestamp i)) @ be_bytes 4 (unat (bi_sequence i))"

definition pending_key :: "('i \<Rightarrow> u64) \<Rightarrow> 'i \<Rightarrow> bundle_id \<Rightarrow> bytes" where
  "pending_key h dst i = u64_to_be (h dst) @ bundle_id_to_key i"

section \<open>The store\<close>

record 'i bundle_codec =
  to_postcard :: "'i dtn_bundle \<Rightarrow> string + bytes"
  from_postcard :: "bytes \<Rightarrow> 'i dtn_bundle option"

record bundle_tables =
  bt_bundles :: "bytes \<rightharpoonup> bytes"
  bt_pending :: "bytes \<rightharpoonup> bytes"

datatype node_error = NodeIo string

type_synonym 'a tables_op = "(bundle_tables, node_error, 'a) op"

definition open_tables :: bundle_tables where
  "open_tables = \<lparr>bt_bundles = Map.empty, bt_pending = Map.empty\<rparr>"

definition open_store :: "string option \<Rightarrow> bundle_tables option \<Rightarrow> node_error + bundle_tables" where
  "open_store db on_disk =
    (case db of
       Some e \<Rightarrow> Inl (NodeIo e)
     | None \<Rightarrow> Inr (case on_disk of Some s \<Rightarrow> s | None \<Rightarrow> open_tables))"

definition store_bundle :: "'i bundle_codec \<Rightarrow> ('i \<Rightarrow> u64) \<Rightarrow> string option \<Rightarrow> 'i dtn_bundle \<Rightarrow> unit tables_op" where
  "store_bundle C h db b s =
    (case to_postcard C b of
       Inl e \<Rightarrow> (Inl (NodeIo e), s)
     | Inr bundle_bytes \<Rightarrow>
        case db of
          Some e \<Rightarrow> (Inl (NodeIo e), s)
        | None \<Rightarrow> (Inr (), s\<lparr>bt_bundles := (bt_bundles s)(bundle_id_to_key (bd_id b) \<mapsto> bundle_bytes),
            bt_pending := (bt_pending s)(pending_key h (bundle_destination b) (bd_id b) \<mapsto> [])\<rparr>))"

definition get_bundle :: "'i bundle_codec \<Rightarrow> string option \<Rightarrow> bundle_id \<Rightarrow> bundle_tables \<Rightarrow> node_error + 'i dtn_bundle option" where
  "get_bundle C db i s =
    (case db of
       Some e \<Rightarrow> Inl (NodeIo e)
     | None \<Rightarrow>
        case bt_bundles s (bundle_id_to_key i) of
          None \<Rightarrow> Inr None
        | Some d \<Rightarrow> case from_postcard C d of
            None \<Rightarrow> Inl (NodeIo ''Failed to deserialize bundle'')
          | Some b \<Rightarrow> Inr (Some b))"

definition bundles_for ::
  "'i bundle_codec \<Rightarrow> ('i \<Rightarrow> u64) \<Rightarrow> string option \<Rightarrow> 'i \<Rightarrow> bundle_tables \<Rightarrow> node_error + 'i dtn_bundle list" where
  "bundles_for C h db dst s =
    (let prefix_start = u64_to_be (h dst) @ replicate 20 0; prefix_end = u64_to_be (h dst) @ replicate 20 255
     in case db of
       Some e \<Rightarrow> Inl (NodeIo e)
     | None \<Rightarrow> Inr (List.map_filter (\<lambda>(k, _). Option.bind (bt_bundles s (take 20 (drop 8 k))) (from_postcard C))
         (filter (\<lambda>(k, _). prefix_start \<le> k \<and> k \<le> prefix_end) (btree_entries (bt_pending s)))))"

definition delete_bundle :: "('i \<Rightarrow> u64) \<Rightarrow> string option \<Rightarrow> bundle_id \<Rightarrow> 'i \<Rightarrow> unit tables_op" where
  "delete_bundle h db i dst s =
    (case db of
       Some e \<Rightarrow> (Inl (NodeIo e), s)
     | None \<Rightarrow> (Inr (), s\<lparr>bt_bundles := (bt_bundles s)(bundle_id_to_key i := None),
         bt_pending := (bt_pending s)(pending_key h dst i := None)\<rparr>))"

definition all_bundles :: "'i bundle_codec \<Rightarrow> string option \<Rightarrow> bundle_tables \<Rightarrow> node_error + 'i dtn_bundle list" where
  "all_bundles C db s =
    (case db of
       Some e \<Rightarrow> Inl (NodeIo e)
     | None \<Rightarrow> Inr (List.map_filter (\<lambda>(_, d). from_postcard C d) (btree_entries (bt_bundles s))))"

definition store_count :: "string option \<Rightarrow> bundle_tables \<Rightarrow> node_error + nat" where
  "store_count db s = (case db of Some e \<Rightarrow> Inl (NodeIo e) | None \<Rightarrow> Inr (card (dom (bt_bundles s))))"

definition store_cleanup_expired ::
  "'i bundle_codec \<Rightarrow> ('i \<Rightarrow> u64) \<Rightarrow> int \<Rightarrow> string option \<Rightarrow> (bundle_id \<Rightarrow> string option) \<Rightarrow> nat tables_op" where
  "store_cleanup_expired C h now db dbs s =
    (case all_bundles C db s of
       Inl e \<Rightarrow> (Inl e, s)
     | Inr all_stored \<Rightarrow>
        let expired = map (\<lambda>b. (bd_id b, bundle_destination b)) (filter (bundle_is_expired now) all_stored)
        in andThen (forEach expired (\<lambda>(i, dst). delete_bundle h (dbs i) i dst)) (\<lambda>_. ok (length expired)) s)"

definition store_clear :: "string option \<Rightarrow> unit tables_op" where
  "store_clear db s =
    (case db of
       Some e \<Rightarrow> (Inl (NodeIo e), s)
     | None \<Rightarrow> (Inr (), s\<lparr>bt_bundles := Map.empty, bt_pending := Map.empty\<rparr>))"

section \<open>The manager\<close>

record 'i dtn_manager =
  dm_prophet :: "'i prophet_state"
  dm_epidemic :: epidemic_router
  dm_custody :: "'i custody_manager"
  dm_age :: age_manager
  dm_selector :: strategy_selector
  dm_config :: dtn_config
  dm_store :: bundle_tables
  dm_local :: 'i
  dm_sequence :: u64

type_synonym ('i, 'a) manager_op = "('i dtn_manager, node_error, 'a) op"

definition new_dtn_manager :: "(f64 \<Rightarrow> f64) \<Rightarrow> (f64 \<Rightarrow> f64) \<Rightarrow> int \<Rightarrow> dtn_config \<Rightarrow> bundle_tables \<Rightarrow> 'i \<Rightarrow> 'i dtn_manager" where
  "new_dtn_manager rnd rnd32 inst config store local =
    \<lparr>dm_prophet = new_prophet inst local (default_prophet rnd), dm_epidemic = new_epidemic (dc_epidemic config),
     dm_custody = new_custody (dc_custody config), dm_age = new_age_manager (dc_expiration config),
     dm_selector = default_selector rnd32, dm_config = config, dm_store = store, dm_local = local, dm_sequence = 1\<rparr>"

abbreviation on_store :: "'a tables_op \<Rightarrow> ('i, 'a) manager_op" where
  "on_store \<equiv> zoom dm_store (\<lambda>s m. m\<lparr>dm_store := s\<rparr>)"

definition enqueued_bundle :: "('i \<Rightarrow> u64) \<Rightarrow> int \<Rightarrow> bytes \<Rightarrow> bytes \<Rightarrow> 'i \<Rightarrow> priority \<Rightarrow> 'i dtn_manager \<Rightarrow> 'i dtn_bundle" where
  "enqueued_bundle h now uuid msg_bytes dst prio m =
    bundle_from_packet
      (with_priority prio (new_packet h now uuid (new_packet_id (h (dm_local m)) (dm_sequence m)) (dm_local m) dst (plaintext msg_bytes) []))
      (case from_std (xc_default_lifetime (dc_expiration (dm_config m))) of Some d \<Rightarrow> d | None \<Rightarrow> one_hour)"

definition enqueue ::
  "'i bundle_codec \<Rightarrow> ('i \<Rightarrow> u64) \<Rightarrow> int \<Rightarrow> bytes \<Rightarrow> string option \<Rightarrow> string + bytes \<Rightarrow> 'i \<Rightarrow> priority \<Rightarrow> ('i, bundle_id) manager_op" where
  "enqueue C h now uuid db msg dst prio m =
    (case msg of
       Inl e \<Rightarrow> (Inl (NodeIo e), m)
     | Inr msg_bytes \<Rightarrow>
        let b = enqueued_bundle h now uuid msg_bytes dst prio m;
            m = m\<lparr>dm_sequence := dm_sequence m + 1, dm_age := age_track b (dm_age m)\<rparr>
        in andThen (on_store (store_bundle C h db b)) (\<lambda>_. ok (bd_id b)) m)"

definition drain_for :: "'i bundle_codec \<Rightarrow> ('i \<Rightarrow> u64) \<Rightarrow> string option \<Rightarrow> 'i \<Rightarrow> 'i dtn_manager \<Rightarrow> node_error + 'i dtn_bundle list" where
  "drain_for C h db dst m = bundles_for C h db dst (dm_store m)"

definition bundle_delivered :: "('i \<Rightarrow> u64) \<Rightarrow> string option \<Rightarrow> bundle_id \<Rightarrow> 'i \<Rightarrow> ('i, unit) manager_op" where
  "bundle_delivered h db i dst =
    andThen (modify (\<lambda>m. m\<lparr>dm_age := age_untrack i (dm_age m)\<rparr>)) (\<lambda>_. on_store (delete_bundle h db i dst))"

definition unwrap_bundle :: "(bytes \<Rightarrow> string + 'msg) \<Rightarrow> 'i dtn_bundle \<Rightarrow> node_error + 'msg" where
  "unwrap_bundle from_bytes b =
    (case from_bytes (ep_data (pk_payload (bd_packet b))) of Inl e \<Rightarrow> Inl (NodeIo e) | Inr msg \<Rightarrow> Inr msg)"

definition record_encounter :: "(f64 \<Rightarrow> f64) \<Rightarrow> int \<Rightarrow> 'i \<Rightarrow> 'i dtn_manager \<Rightarrow> 'i dtn_manager" where
  "record_encounter rnd inst peer m = m\<lparr>dm_prophet := encounter rnd inst peer (dm_prophet m)\<rparr>"

definition process_prophet_exchange :: "(f64 \<Rightarrow> f64) \<Rightarrow> int \<Rightarrow> 'i \<Rightarrow> ('i \<times> f64) list \<Rightarrow> 'i dtn_manager \<Rightarrow> 'i dtn_manager" where
  "process_prophet_exchange rnd inst peer probabilities m =
    m\<lparr>dm_prophet := transitive_update rnd inst peer probabilities (dm_prophet m)\<rparr>"

definition select_relay_candidate :: "'i \<Rightarrow> 'i list \<Rightarrow> 'i dtn_manager \<Rightarrow> 'i option" where
  "select_relay_candidate dst connected_peers m =
    (case best_candidate (dm_prophet m) dst connected_peers of
       None \<Rightarrow> None
     | Some c \<Rightarrow> if should_forward_to (dm_prophet m) dst c then Some c else None)"

definition dtn_cleanup ::
  "(f64 \<Rightarrow> f64) \<Rightarrow> 'i bundle_codec \<Rightarrow> ('i \<Rightarrow> u64) \<Rightarrow> (bundle_id set \<Rightarrow> bundle_id list) \<Rightarrow> int \<Rightarrow> nat \<Rightarrow> string option \<Rightarrow>
    (bundle_id \<Rightarrow> string option) \<Rightarrow> ('i, nat) manager_op" where
  "dtn_cleanup rnd C h ord now inst db dbs =
    andThen (modify (\<lambda>m. m\<lparr>dm_prophet := age_all rnd (int inst) (dm_prophet m)\<rparr>)) (\<lambda>_.
    andThen (on_store (store_cleanup_expired C h now db dbs)) (\<lambda>expired_count.
    andThen (modify (\<lambda>m. m\<lparr>dm_epidemic := snd (cleanup_seen inst (dm_epidemic m))\<rparr>)) (\<lambda>_.
    andThen (modify (\<lambda>m. m\<lparr>dm_custody := snd (custody_cleanup_expired ord inst (dm_custody m))\<rparr>)) (\<lambda>_.
    ok expired_count))))"

definition accept_relay_bundle :: "'i bundle_codec \<Rightarrow> ('i \<Rightarrow> u64) \<Rightarrow> nat \<Rightarrow> string option \<Rightarrow> 'i dtn_bundle \<Rightarrow> ('i, unit) manager_op" where
  "accept_relay_bundle C h inst db b m =
    (if have_seen (bd_id b) (dm_epidemic m) then (Inr (), m)
     else on_store (store_bundle C h db b)
       (m\<lparr>dm_epidemic := mark_seen inst (bd_id b) (dm_epidemic m), dm_age := age_track b (dm_age m)\<rparr>))"

section \<open>Keys decide identifiers\<close>

lemma length_bundle_key [simp]: "length (bundle_id_to_key i) = 20"
  by (simp add: bundle_id_to_key_def)

lemma of_int_i64_inj: "in_i64 s \<Longrightarrow> in_i64 t \<Longrightarrow> (of_int s :: u64) = of_int t \<Longrightarrow> s = t"
proof -
  assume r: "in_i64 s" "in_i64 t" and e: "(of_int s :: u64) = of_int t"
  have "sint (of_int x :: u64) = wrap_i64 x" for x by (simp add: wrap_i64_def signed_of_int)
  with e have "wrap_i64 s = wrap_i64 t" by metis
  with r show "s = t" by simp
qed

lemma be_bytes_inj: "be_bytes n x = be_bytes n y \<Longrightarrow> x mod 256 ^ n = y mod 256 ^ n"
  by (metis be_val_be_bytes)

lemma bundle_key_inj:
  assumes "in_i64 (bi_timestamp i)" and "in_i64 (bi_timestamp j)" and "bundle_id_to_key i = bundle_id_to_key j"
  shows "i = j"
proof -
  have u: "unat x mod 256 ^ 4 = unat x" for x :: u32 using unsigned_less[of x, where 'a = nat] by simp
  from assms(3) have "bi_source_hash i = bi_source_hash j" "(of_int (bi_timestamp i) :: u64) = of_int (bi_timestamp j)"
    and q: "be_bytes 4 (unat (bi_sequence i)) = be_bytes 4 (unat (bi_sequence j))"
    by (simp_all add: bundle_id_to_key_def)
  moreover have "bi_sequence i = bi_sequence j" using be_bytes_inj[OF q] unfolding u by (rule unsigned_word_eqI)
  ultimately show ?thesis using of_int_i64_inj[OF assms(1,2)] by simp
qed

lemma pending_key_parts:
  "take 20 (drop 8 (pending_key h dst i)) = bundle_id_to_key i"
  "pending_key h dst i = pending_key h' dst' j \<longleftrightarrow> h dst = h' dst' \<and> bundle_id_to_key i = bundle_id_to_key j"
  by (simp_all add: pending_key_def)

lemma be_val_replicate: "be_val (replicate n 0) = 0" "Suc (be_val (replicate n 255)) = 256 ^ n"
proof -
  show "be_val (replicate n 0) = 0" by (induction n) (simp_all add: be_val_Cons)
  show "Suc (be_val (replicate n 255)) = 256 ^ n"
    by (induction n) (simp_all add: be_val_Cons)
qed

lemma bytes_le_iff: "length xs = length ys \<Longrightarrow> xs \<le> ys \<longleftrightarrow> be_val xs \<le> be_val (ys :: bytes)"
  using be_val_less_iff[of ys xs] by (simp add: not_less[symmetric])

text \<open>The range of \<open>pending_for\<close> holds exactly the keys with the hash of the destination in front.\<close>

lemma pending_range:
  assumes "length k = 20"
  shows "(u64_to_be x @ replicate 20 0 \<le> u64_to_be y @ k \<and> u64_to_be y @ k \<le> u64_to_be x @ replicate 20 255) \<longleftrightarrow> x = y"
proof -
  have lo: "\<not> k < replicate 20 0" and hi: "\<not> replicate 20 255 < k"
    using bytes_le_iff[of "replicate 20 0" k] bytes_le_iff[of k "replicate 20 255"] be_val_less[of k] be_val_replicate[of 20] assms
    by (simp_all add: not_less)
  show ?thesis unfolding not_less[symmetric]
    using lo hi append_less_append[of "u64_to_be y" "u64_to_be x" k "replicate 20 0"]
      append_less_append[of "u64_to_be x" "u64_to_be y" "replicate 20 255" k]
    by (auto simp: u64_to_be_less)
qed

section \<open>The store as a map from identifiers to bundles\<close>

definition codec_ok :: "'i bundle_codec \<Rightarrow> bool" where
  "codec_ok C \<longleftrightarrow> (\<forall>b d. to_postcard C b = Inr d \<longrightarrow> from_postcard C d = Some b)"

definition bundles_of :: "'i bundle_codec \<Rightarrow> bundle_tables \<Rightarrow> bundle_id \<rightharpoonup> 'i dtn_bundle" where
  "bundles_of C s i = (if in_i64 (bi_timestamp i) then Option.bind (bt_bundles s (bundle_id_to_key i)) (from_postcard C) else None)"

text \<open>Every entry decodes to a bundle filed under its key, and the index lists exactly the stored bundles.\<close>

definition store_ok :: "'i bundle_codec \<Rightarrow> ('i \<Rightarrow> u64) \<Rightarrow> bundle_tables \<Rightarrow> bool" where
  "store_ok C h s \<longleftrightarrow> finite (dom (bt_bundles s)) \<and> finite (dom (bt_pending s)) \<and>
    (\<forall>k d. bt_bundles s k = Some d \<longrightarrow> (\<exists>b. from_postcard C d = Some b \<and> in_i64 (bi_timestamp (bd_id b)) \<and> k = bundle_id_to_key (bd_id b))) \<and>
    dom (bt_pending s) = (\<lambda>b. pending_key h (bundle_destination b) (bd_id b)) ` ran (bundles_of C s)"

lemma open_tables_ok [simp]: "store_ok C h open_tables" "bundles_of C open_tables = Map.empty"
  by (auto simp: store_ok_def bundles_of_def open_tables_def ran_def fun_eq_iff)

lemma bundles_of_SomeD:
  assumes "store_ok C h s" and "bundles_of C s i = Some b"
  shows "bd_id b = i" and "in_i64 (bi_timestamp i)"
proof -
  show i: "in_i64 (bi_timestamp i)" using assms(2) by (simp add: bundles_of_def split: if_splits)
  obtain d where d: "bt_bundles s (bundle_id_to_key i) = Some d" "from_postcard C d = Some b"
    using assms(2) i by (auto simp: bundles_of_def bind_eq_Some_conv)
  from assms(1) have "\<forall>k d. bt_bundles s k = Some d \<longrightarrow> (\<exists>b. from_postcard C d = Some b \<and> in_i64 (bi_timestamp (bd_id b)) \<and> k = bundle_id_to_key (bd_id b))"
    by (simp add: store_ok_def)
  with d have "in_i64 (bi_timestamp (bd_id b))" "bundle_id_to_key i = bundle_id_to_key (bd_id b)" by fastforce+
  then show "bd_id b = i" using bundle_key_inj[OF i, of "bd_id b"] by simp
qed

lemma bundles_of_ran: "store_ok C h s \<Longrightarrow> b \<in> ran (bundles_of C s) \<longleftrightarrow> bundles_of C s (bd_id b) = Some b"
  using bundles_of_SomeD(1)[of C h s] by (auto simp: ran_def)

lemma bundles_of_ran_drop:
  "store_ok C h s \<Longrightarrow> ran ((bundles_of C s)(i := None)) = {b \<in> ran (bundles_of C s). bd_id b \<noteq> i}"
  using bundles_of_SomeD(1)[of C h s] by (auto simp: ran_def)

lemma store_okD:
  assumes "store_ok C h s"
  shows "finite (dom (bt_bundles s))" and "finite (dom (bt_pending s))"
    and "dom (bt_pending s) = (\<lambda>b. pending_key h (bundle_destination b) (bd_id b)) ` ran (bundles_of C s)"
  using assms unfolding store_ok_def by blast+

lemma bundles_of_upd:
  assumes "in_i64 (bi_timestamp i)"
  shows "bundles_of C (s\<lparr>bt_bundles := (bt_bundles s)(bundle_id_to_key i := x), bt_pending := p\<rparr>) =
    (bundles_of C s)(i := Option.bind x (from_postcard C))"
  using assms bundle_key_inj[OF _ assms] by (auto simp: bundles_of_def fun_eq_iff)

lemma store_bundle_ok:
  assumes ok: "store_ok C h s" and c: "codec_ok C" and i: "in_i64 (bi_timestamp (bd_id b))"
    and same: "\<And>b'. bundles_of C s (bd_id b) = Some b' \<Longrightarrow> h (bundle_destination b') = h (bundle_destination b)"
    and st: "store_bundle C h db b s = (r, s')"
  shows "store_ok C h s' \<and> bundles_of C s' = (if r = Inr () then (bundles_of C s)(bd_id b \<mapsto> b) else bundles_of C s)"
proof (cases "\<exists>d. to_postcard C b = Inr d \<and> db = None")
  case False
  with st have "s' = s \<and> r \<noteq> Inr ()" by (auto simp: store_bundle_def split: sum.splits option.splits)
  with ok show ?thesis by simp
next
  case True
  then obtain d where d: "to_postcard C b = Inr d" "db = None" by blast
  then have dec: "from_postcard C d = Some b" using c by (simp add: codec_ok_def)
  let ?k = "bundle_id_to_key (bd_id b)" and ?p = "\<lambda>b. pending_key h (bundle_destination b) (bd_id b)"
  have s': "r = Inr ()" "s' = s\<lparr>bt_bundles := (bt_bundles s)(?k \<mapsto> d), bt_pending := (bt_pending s)(?p b \<mapsto> [])\<rparr>"
    using st d by (simp_all add: store_bundle_def)
  have abs: "bundles_of C s' = (bundles_of C s)(bd_id b \<mapsto> b)" unfolding s' bundles_of_upd[OF i] by (simp add: dec)
  have dest: "?p b' = ?p b" if "bundles_of C s (bd_id b) = Some b'" for b'
    using same[OF that] bundles_of_SomeD(1)[OF ok that] by (simp add: pending_key_parts)
  have "dom (bt_pending s') = insert (?p b) (?p ` ran (bundles_of C s))" using ok by (simp add: s' store_ok_def)
  also have "\<dots> = ?p ` insert b {x \<in> ran (bundles_of C s). bd_id x \<noteq> bd_id b}"
    using dest by (auto simp: bundles_of_ran[OF ok])
  also have "insert b {x \<in> ran (bundles_of C s). bd_id x \<noteq> bd_id b} = ran (bundles_of C s')"
    unfolding abs bundles_of_ran_drop[OF ok, symmetric] by (auto simp: ran_def)
  finally have "dom (bt_pending s') = ?p ` ran (bundles_of C s')" .
  moreover have "finite (dom (bt_bundles s'))" "finite (dom (bt_pending s'))" using store_okD(1,2)[OF ok] by (simp_all add: s')
  moreover have "\<forall>k d. bt_bundles s' k = Some d \<longrightarrow> (\<exists>b. from_postcard C d = Some b \<and> in_i64 (bi_timestamp (bd_id b)) \<and> k = bundle_id_to_key (bd_id b))"
    using ok dec i by (auto simp: s' store_ok_def)
  ultimately show ?thesis using abs s'(1) by (simp add: store_ok_def)
qed

lemma delete_bundle_ok:
  assumes ok: "store_ok C h s" and i: "in_i64 (bi_timestamp i)"
    and same: "\<And>b. bundles_of C s i = Some b \<Longrightarrow> h (bundle_destination b) = h dst"
    and del: "delete_bundle h db i dst s = (r, s')"
  shows "store_ok C h s' \<and> bundles_of C s' = (if r = Inr () then (bundles_of C s)(i := None) else bundles_of C s)"
proof (cases db)
  case (Some e)
  with ok del show ?thesis by (auto simp: delete_bundle_def)
next
  case None
  let ?p = "\<lambda>b. pending_key h (bundle_destination b) (bd_id b)"
  have s': "r = Inr ()" "s' = s\<lparr>bt_bundles := (bt_bundles s)(bundle_id_to_key i := None), bt_pending := (bt_pending s)(pending_key h dst i := None)\<rparr>"
    using del None by (simp_all add: delete_bundle_def)
  have abs: "bundles_of C s' = (bundles_of C s)(i := None)" unfolding s' bundles_of_upd[OF i] by simp
  have key: "?p b = pending_key h dst i \<longleftrightarrow> bd_id b = i" if "b \<in> ran (bundles_of C s)" for b
    using that same bundle_key_inj[OF _ i, of "bd_id b"] bundles_of_SomeD(2)[OF ok, of "bd_id b" b]
    by (auto simp: bundles_of_ran[OF ok] pending_key_parts)
  have "dom (bt_pending s') = ?p ` ran (bundles_of C s) - {pending_key h dst i}" using ok by (auto simp: s' store_ok_def)
  also have "\<dots> = ?p ` {b \<in> ran (bundles_of C s). bd_id b \<noteq> i}" using key by auto
  also have "{b \<in> ran (bundles_of C s). bd_id b \<noteq> i} = ran (bundles_of C s')"
    unfolding abs bundles_of_ran_drop[OF ok] by (rule refl)
  finally have "dom (bt_pending s') = ?p ` ran (bundles_of C s')" .
  moreover have "finite (dom (bt_bundles s'))" "finite (dom (bt_pending s'))" using store_okD(1,2)[OF ok] by (simp_all add: s')
  moreover have "\<forall>k d. bt_bundles s' k = Some d \<longrightarrow> (\<exists>b. from_postcard C d = Some b \<and> in_i64 (bi_timestamp (bd_id b)) \<and> k = bundle_id_to_key (bd_id b))"
    using ok by (auto simp: s' store_ok_def)
  ultimately show ?thesis using abs s'(1) by (simp add: store_ok_def)
qed

lemma map_filter_total: "(\<And>x. x \<in> set xs \<Longrightarrow> f x = Some (g x)) \<Longrightarrow> List.map_filter f xs = map g xs"
  by (induction xs) (simp_all add: map_filter_simps)

lemma map_filter_fst: "List.map_filter (\<lambda>(k, _). f k) (filter (\<lambda>(k, _). P k) xs) = List.map_filter f (filter P (map fst xs))"
proof (induction xs)
  case (Cons x xs)
  then show ?case by (cases x; cases "f (fst x)") (simp_all add: map_filter_simps)
qed (simp add: map_filter_simps)

lemma bundles_for_keys:
  "bundles_for C h None dst s = Inr (List.map_filter (\<lambda>k. Option.bind (bt_bundles s (take 20 (drop 8 k))) (from_postcard C))
    (filter (\<lambda>k. u64_to_be (h dst) @ replicate 20 0 \<le> k \<and> k \<le> u64_to_be (h dst) @ replicate 20 255)
      (map fst (btree_entries (bt_pending s)))))"
  unfolding bundles_for_def Let_def option.case map_filter_fst by (rule refl)

lemma bundles_for_exact:
  assumes ok: "store_ok C h s"
  obtains bs where "bundles_for C h None dst s = Inr bs" and "set bs = {b \<in> ran (bundles_of C s). h (bundle_destination b) = h dst}"
    and "distinct (map bd_id bs)"
proof -
  define p where "p b = pending_key h (bundle_destination b) (bd_id b)" for b
  define f where "f k = Option.bind (bt_bundles s (take 20 (drop 8 k))) (from_postcard C)" for k
  define B where "B = {b \<in> ran (bundles_of C s). h (bundle_destination b) = h dst}"
  define ks where "ks = filter (\<lambda>k. u64_to_be (h dst) @ replicate 20 0 \<le> k \<and> k \<le> u64_to_be (h dst) @ replicate 20 255)
      (map fst (btree_entries (bt_pending s)))"
  have fp: "f (p b) = Some b" if "b \<in> ran (bundles_of C s)" for b
  proof -
    have b: "bundles_of C s (bd_id b) = Some b" using that by (simp add: bundles_of_ran[OF ok])
    with bundles_of_SomeD(2)[OF ok b] show ?thesis by (simp add: p_def f_def pending_key_parts bundles_of_def)
  qed
  have rng: "(u64_to_be (h dst) @ replicate 20 0 \<le> p b \<and> p b \<le> u64_to_be (h dst) @ replicate 20 255) \<longleftrightarrow> h dst = h (bundle_destination b)" for b
    unfolding p_def pending_key_def by (rule pending_range) simp
  have "set (map fst (btree_entries (bt_pending s))) = p ` ran (bundles_of C s)"
    using btree_keys[OF store_okD(2)[OF ok]] store_okD(3)[OF ok] by (simp add: p_def)
  then have "set ks = {k \<in> p ` ran (bundles_of C s). u64_to_be (h dst) @ replicate 20 0 \<le> k \<and> k \<le> u64_to_be (h dst) @ replicate 20 255}"
    unfolding ks_def set_filter by (rule arg_cong)
  also have "\<dots> = p ` {b \<in> ran (bundles_of C s). u64_to_be (h dst) @ replicate 20 0 \<le> p b \<and> p b \<le> u64_to_be (h dst) @ replicate 20 255}" by blast
  also have "\<dots> = p ` B" unfolding rng B_def by (simp only: eq_commute)
  finally have keys: "set ks = p ` B" .
  have total: "f k = Some (the (f k))" if "k \<in> set ks" for k using that fp by (auto simp: keys B_def)
  have eq: "bundles_for C h None dst s = Inr (map (the \<circ> f) ks)"
    unfolding bundles_for_keys f_def[symmetric] ks_def[symmetric] using map_filter_total[of ks f "the \<circ> f"] total by simp
  have "the (f (p b)) = b" if "b \<in> B" for b using fp[of b] that by (simp add: B_def)
  then have gB: "(\<lambda>b. the (f (p b))) ` B = B" by simp
  then have img: "set (map (the \<circ> f) ks) = B" by (simp add: keys image_image)
  have "inj_on (bd_id \<circ> (the \<circ> f)) (p ` B)"
  proof (rule inj_onI)
    fix k l assume "k \<in> p ` B" "l \<in> p ` B" and e: "(bd_id \<circ> (the \<circ> f)) k = (bd_id \<circ> (the \<circ> f)) l"
    then obtain b c where bc: "k = p b" "l = p c" "b \<in> B" "c \<in> B" by blast
    then have "bd_id b = bd_id c" using e fp by (simp add: B_def)
    then have "b = c" using bc(3,4) by (simp add: B_def bundles_of_ran[OF ok])
    with bc show "k = l" by simp
  qed
  moreover have "distinct ks" by (simp add: ks_def)
  ultimately have "distinct (map bd_id (map (the \<circ> f) ks))" unfolding map_map by (simp add: distinct_map keys)
  with that[OF eq] img show thesis by (simp add: B_def)
qed

lemma set_map_filter_iff: "y \<in> set (List.map_filter f xs) \<longleftrightarrow> (\<exists>x \<in> set xs. f x = Some y)"
  by (induction xs) (auto simp: map_filter_simps split: option.splits)

lemma all_bundles_exact:
  assumes ok: "store_ok C h s" and "all_bundles C None s = Inr bs"
  shows "set bs = ran (bundles_of C s)"
proof -
  have bs: "bs = List.map_filter (\<lambda>(_, d). from_postcard C d) (btree_entries (bt_bundles s))" using assms(2) by (simp add: all_bundles_def)
  have "b \<in> set bs \<longleftrightarrow> (\<exists>k d. (k, d) \<in> set (btree_entries (bt_bundles s)) \<and> from_postcard C d = Some b)" for b
    unfolding bs set_map_filter_iff by (simp add: Bex_def)
  then have "b \<in> set bs \<longleftrightarrow> (\<exists>k d. bt_bundles s k = Some d \<and> from_postcard C d = Some b)" for b
    unfolding set_btree_entries[OF store_okD(1)[OF ok]] .
  moreover have "(\<exists>k d. bt_bundles s k = Some d \<and> from_postcard C d = Some b) \<longleftrightarrow> b \<in> ran (bundles_of C s)" for b
  proof
    assume "\<exists>k d. bt_bundles s k = Some d \<and> from_postcard C d = Some b"
    then obtain k d where kd: "bt_bundles s k = Some d" "from_postcard C d = Some b" by blast
    moreover from ok kd have "in_i64 (bi_timestamp (bd_id b)) \<and> k = bundle_id_to_key (bd_id b)" unfolding store_ok_def by fastforce
    ultimately have "bundles_of C s (bd_id b) = Some b" by (simp add: bundles_of_def)
    then show "b \<in> ran (bundles_of C s)" by (rule ranI)
  qed (auto simp: ran_def bundles_of_def bind_eq_Some_conv split: if_splits)
  ultimately show ?thesis by (simp add: set_eq_iff)
qed

lemma forEach_delete:
  assumes "store_ok C h s" and "\<forall>x \<in> set xs. in_i64 (bi_timestamp (fst x)) \<and> (\<forall>b. bundles_of C s (fst x) = Some b \<longrightarrow> h (bundle_destination b) = h (snd x))"
    and "forEach xs (\<lambda>(i, dst). delete_bundle h (dbs i) i dst) s = (r, s')"
  shows "store_ok C h s' \<and> (\<exists>D \<subseteq> fst ` set xs. bundles_of C s' = bundles_of C s |` (- D) \<and> ((\<exists>ys. r = Inr ys) \<longrightarrow> D = fst ` set xs))"
  using assms
proof (induction xs arbitrary: s r)
  case Nil
  then show ?case by (auto simp: ok_def intro!: exI[of _ "{}"])
next
  case (Cons x xs)
  obtain i dst where x: "x = (i, dst)" by fastforce
  obtain q t where d: "delete_bundle h (dbs i) i dst s = (q, t)" by fastforce
  have i: "in_i64 (bi_timestamp i)" and same: "\<And>b. bundles_of C s i = Some b \<Longrightarrow> h (bundle_destination b) = h dst"
    using bspec[OF Cons.prems(2), of x] by (simp_all add: x)
  from delete_bundle_ok[OF Cons.prems(1) i same d] have t: "store_ok C h t"
    "bundles_of C t = (if q = Inr () then (bundles_of C s)(i := None) else bundles_of C s)" by simp_all
  show ?case
  proof (cases q)
    case (Inl e)
    with Cons.prems(3) d have "r = Inl e" "s' = t" by (simp_all add: x andThen_def)
    with t Inl show ?thesis by (intro conjI exI[of _ "{}"]) simp_all
  next
    case (Inr u)
    obtain r2 u' where f: "forEach xs (\<lambda>(i, dst). delete_bundle h (dbs i) i dst) t = (r2, u')" by fastforce
    have "s' = u' \<and> ((\<exists>ys. r = Inr ys) \<longrightarrow> (\<exists>ys. r2 = Inr ys))"
      using Cons.prems(3) d Inr f by (cases r2) (simp_all add: x andThen_def ok_def)
    with f have r2: "forEach xs (\<lambda>(i, dst). delete_bundle h (dbs i) i dst) t = (r2, s')" "(\<exists>ys. r = Inr ys) \<longrightarrow> (\<exists>ys. r2 = Inr ys)" by simp_all
    have "\<forall>x \<in> set xs. in_i64 (bi_timestamp (fst x)) \<and> (\<forall>b. bundles_of C t (fst x) = Some b \<longrightarrow> h (bundle_destination b) = h (snd x))"
    proof (rule ballI)
      fix y assume "y \<in> set xs"
      with bspec[OF Cons.prems(2), of y] show "in_i64 (bi_timestamp (fst y)) \<and> (\<forall>b. bundles_of C t (fst y) = Some b \<longrightarrow> h (bundle_destination b) = h (snd y))"
        unfolding t(2) by (simp add: Inr)
    qed
    from Cons.IH[OF t(1) this r2(1)] obtain D where D: "store_ok C h s'" "D \<subseteq> fst ` set xs" "bundles_of C s' = bundles_of C t |` (- D)"
      "(\<exists>ys. r2 = Inr ys) \<longrightarrow> D = fst ` set xs" by (elim exE conjE)
    have "bundles_of C s' = bundles_of C s |` (- insert i D)" using D(3) t(2) Inr by (simp add: restrict_map_def fun_eq_iff)
    moreover have "insert i D \<subseteq> fst ` set (x # xs)" using D(2) by (auto simp: x)
    moreover have "(\<exists>ys. r = Inr ys) \<longrightarrow> insert i D = fst ` set (x # xs)" using D(4) r2(2) by (simp add: x)
    ultimately show ?thesis using D(1) by (intro conjI exI[of _ "insert i D"])
  qed
qed

lemma store_cleanup_ok:
  assumes ok: "store_ok C h s" and c: "store_cleanup_expired C h now db dbs s = (r, s')"
  shows "store_ok C h s' \<and> (\<exists>D. (\<forall>i \<in> D. \<exists>b. bundles_of C s i = Some b \<and> bundle_is_expired now b) \<and>
    bundles_of C s' = bundles_of C s |` (- D) \<and>
    (\<forall>n. r = Inr n \<longrightarrow> D = {i. \<exists>b. bundles_of C s i = Some b \<and> bundle_is_expired now b}))"
proof (cases db)
  case (Some e)
  with c have "s' = s" "r = Inl (NodeIo e)" by (simp_all add: store_cleanup_expired_def all_bundles_def)
  with ok show ?thesis by (intro conjI exI[of _ "{}"]) (simp_all add: restrict_map_def)
next
  case None
  obtain bs where bs: "all_bundles C None s = Inr bs" by (simp add: all_bundles_def)
  let ?xs = "map (\<lambda>b. (bd_id b, bundle_destination b)) (filter (bundle_is_expired now) bs)"
  have set: "set bs = ran (bundles_of C s)" by (rule all_bundles_exact[OF ok bs])
  obtain r2 u where f: "forEach ?xs (\<lambda>(i, dst). delete_bundle h (dbs i) i dst) s = (r2, u)" by fastforce
  have "s' = u \<and> ((\<exists>n. r = Inr n) \<longrightarrow> (\<exists>ys. r2 = Inr ys))"
    using c None bs f by (cases r2) (auto simp: store_cleanup_expired_def Let_def andThen_def ok_def)
  with f have r2: "forEach ?xs (\<lambda>(i, dst). delete_bundle h (dbs i) i dst) s = (r2, s')" "(\<exists>n. r = Inr n) \<longrightarrow> (\<exists>ys. r2 = Inr ys)" by simp_all
  have pre: "\<forall>x \<in> set ?xs. in_i64 (bi_timestamp (fst x)) \<and> (\<forall>b. bundles_of C s (fst x) = Some b \<longrightarrow> h (bundle_destination b) = h (snd x))"
  proof (rule ballI)
    fix x assume "x \<in> set ?xs"
    then obtain b where b: "x = (bd_id b, bundle_destination b)" "b \<in> ran (bundles_of C s)" unfolding set[symmetric] by auto
    from b(2) have "bundles_of C s (bd_id b) = Some b" by (simp add: bundles_of_ran[OF ok])
    with bundles_of_SomeD(2)[OF ok this] show "in_i64 (bi_timestamp (fst x)) \<and> (\<forall>b. bundles_of C s (fst x) = Some b \<longrightarrow> h (bundle_destination b) = h (snd x))"
      by (simp add: b(1))
  qed
  have "key_matches bd_id (bundles_of C s)" using bundles_of_SomeD(1)[OF ok] by (simp add: key_matches_def)
  moreover have "fst ` set ?xs = bd_id ` {b \<in> ran (bundles_of C s). bundle_is_expired now b}" by (simp add: image_image set)
  ultimately have ids: "fst ` set ?xs = {i. \<exists>b. bundles_of C s i = Some b \<and> bundle_is_expired now b}"
    using key_matches_image_ran[of bd_id "bundles_of C s" "bundle_is_expired now"] by simp
  from forEach_delete[OF ok pre r2(1)] obtain D where D: "store_ok C h s'" "D \<subseteq> fst ` set ?xs" "bundles_of C s' = bundles_of C s |` (- D)"
    "(\<exists>ys. r2 = Inr ys) \<longrightarrow> D = fst ` set ?xs" by (elim exE conjE)
  have "\<forall>i \<in> D. \<exists>b. bundles_of C s i = Some b \<and> bundle_is_expired now b" using D(2) unfolding ids by blast
  moreover have "\<forall>n. r = Inr n \<longrightarrow> D = {i. \<exists>b. bundles_of C s i = Some b \<and> bundle_is_expired now b}" using D(4) r2(2) unfolding ids by simp
  ultimately show ?thesis using D(1,3) by (intro conjI exI[of _ D])
qed

section \<open>Bundles of the manager\<close>

datatype 'i dtn_call =
  CallEnqueue int bytes "string option" "string + bytes" 'i priority
| CallDelivered "string option" bundle_id 'i
| CallEncounter int 'i
| CallExchange int 'i "('i \<times> f64) list"
| CallCleanup int nat "string option" "bundle_id \<Rightarrow> string option"
| CallRelay nat "string option" "'i dtn_bundle"

fun dtn_run ::
  "(f64 \<Rightarrow> f64) \<Rightarrow> 'i bundle_codec \<Rightarrow> ('i \<Rightarrow> u64) \<Rightarrow> (bundle_id set \<Rightarrow> bundle_id list) \<Rightarrow> 'i dtn_call \<Rightarrow> 'i dtn_manager \<Rightarrow> 'i dtn_manager" where
  "dtn_run rnd C h ord (CallEnqueue now uuid db msg dst prio) m = snd (enqueue C h now uuid db msg dst prio m)"
| "dtn_run rnd C h ord (CallDelivered db i dst) m = snd (bundle_delivered h db i dst m)"
| "dtn_run rnd C h ord (CallEncounter inst p) m = record_encounter rnd inst p m"
| "dtn_run rnd C h ord (CallExchange inst p ps) m = process_prophet_exchange rnd inst p ps m"
| "dtn_run rnd C h ord (CallCleanup now inst db dbs) m = snd (dtn_cleanup rnd C h ord now inst db dbs m)"
| "dtn_run rnd C h ord (CallRelay inst db b) m = snd (accept_relay_bundle C h inst db b m)"

abbreviation stored :: "'i bundle_codec \<Rightarrow> 'i dtn_manager \<Rightarrow> bundle_id \<rightharpoonup> 'i dtn_bundle" where
  "stored C m \<equiv> bundles_of C (dm_store m)"

text \<open>
  What a call may not do for the bundle \<open>b\<close> to stay: a new bundle takes an identifier that is not in use, a bundle is
  reported as delivered to its destination and is not \<open>b\<close>, and \<open>b\<close> is not expired at a cleanup.
\<close>

fun spares :: "'i bundle_codec \<Rightarrow> ('i \<Rightarrow> u64) \<Rightarrow> 'i dtn_bundle \<Rightarrow> 'i dtn_call \<Rightarrow> 'i dtn_manager \<Rightarrow> bool" where
  "spares C h b (CallEnqueue now uuid db msg dst prio) m \<longleftrightarrow>
    (let new = bd_id (enqueued_bundle h now uuid [] dst prio m) in stored C m new = None \<and> in_i64 (bi_timestamp new))"
| "spares C h b (CallDelivered db i dst) m \<longleftrightarrow> i \<noteq> bd_id b \<and> in_i64 (bi_timestamp i) \<and>
    (case stored C m i of None \<Rightarrow> True | Some b' \<Rightarrow> h (bundle_destination b') = h dst)"
| "spares C h b (CallCleanup now inst db dbs) m \<longleftrightarrow> \<not> bundle_is_expired now b"
| "spares C h b (CallRelay inst db b') m \<longleftrightarrow> stored C m (bd_id b') = None \<and> in_i64 (bi_timestamp (bd_id b'))"
| "spares C h b _ m \<longleftrightarrow> True"

fun all_spare ::
  "(f64 \<Rightarrow> f64) \<Rightarrow> 'i bundle_codec \<Rightarrow> ('i \<Rightarrow> u64) \<Rightarrow> (bundle_id set \<Rightarrow> bundle_id list) \<Rightarrow> 'i dtn_bundle \<Rightarrow> 'i dtn_call list \<Rightarrow> 'i dtn_manager \<Rightarrow> bool" where
  "all_spare rnd C h ord b [] m \<longleftrightarrow> True"
| "all_spare rnd C h ord b (c # cs) m \<longleftrightarrow> spares C h b c m \<and> all_spare rnd C h ord b cs (dtn_run rnd C h ord c m)"

lemma enqueued_bundle_id: "bd_id (enqueued_bundle h now uuid msg dst prio m) = bd_id (enqueued_bundle h now uuid [] dst prio m)"
  by (simp add: enqueued_bundle_def bundle_from_packet_def bundle_id_from_packet_def with_priority_def new_packet_def)

lemma on_store_run: "dm_store (snd (on_store f m)) = snd (f (dm_store m))" "fst (on_store f m) = fst (f (dm_store m))"
  by (simp_all add: zoom_def case_prod_unfold)

lemma store_fresh_keeps:
  assumes "store_ok C h s" and "codec_ok C" and "bundles_of C s (bd_id n) = None" and "in_i64 (bi_timestamp (bd_id n))"
    and "bundles_of C s (bd_id b) = Some b"
  shows "store_ok C h (snd (store_bundle C h db n s)) \<and> bundles_of C (snd (store_bundle C h db n s)) (bd_id b) = Some b"
proof -
  obtain r s' where st: "store_bundle C h db n s = (r, s')" by fastforce
  from store_bundle_ok[OF assms(1,2,4) _ st] assms(3) have "store_ok C h s' \<and> bundles_of C s' = (if r = Inr () then (bundles_of C s)(bd_id n \<mapsto> n) else bundles_of C s)" by simp
  with assms(3,5) st show ?thesis by auto
qed

lemma enqueue_store:
  "dm_store (snd (enqueue C h now uuid db (Inr msg) dst prio m)) = snd (store_bundle C h db (enqueued_bundle h now uuid msg dst prio m) (dm_store m))"
proof -
  obtain r s where "store_bundle C h db (enqueued_bundle h now uuid msg dst prio m) (dm_store m) = (r, s)" by fastforce
  then show ?thesis by (cases r) (simp_all add: enqueue_def Let_def andThen_def zoom_def ok_def)
qed

lemma cleanup_store:
  "dm_store (snd (dtn_cleanup rnd C h ord now inst db dbs m)) = snd (store_cleanup_expired C h now db dbs (dm_store m))"
proof -
  obtain r s where "store_cleanup_expired C h now db dbs (dm_store m) = (r, s)" by fastforce
  then show ?thesis by (cases r) (simp_all add: dtn_cleanup_def andThen_def modify_def zoom_def ok_def)
qed

lemma dtn_run_keeps:
  assumes c: "codec_ok C" and sp: "spares C h b call m" and ok: "store_ok C h (dm_store m)" and b: "stored C m (bd_id b) = Some b"
  shows "store_ok C h (dm_store (dtn_run rnd C h ord call m)) \<and> stored C (dtn_run rnd C h ord call m) (bd_id b) = Some b"
proof (cases call)
  case (CallEnqueue now uuid db msg dst prio)
  show ?thesis
  proof (cases msg)
    case (Inl e)
    with ok b show ?thesis by (simp add: CallEnqueue enqueue_def)
  next
    case (Inr bs)
    with store_fresh_keeps[OF ok c _ _ b] sp enqueued_bundle_id[of h now uuid bs dst prio m] show ?thesis
      by (simp add: CallEnqueue enqueue_store Let_def)
  qed
next
  case (CallDelivered db i dst)
  obtain r s' where d: "delete_bundle h db i dst (dm_store m) = (r, s')" by fastforce
  have st: "dm_store (dtn_run rnd C h ord call m) = s'"
    using d by (cases r) (simp_all add: CallDelivered bundle_delivered_def andThen_def modify_def zoom_def)
  have i: "in_i64 (bi_timestamp i)" "i \<noteq> bd_id b" and same: "\<And>x. stored C m i = Some x \<Longrightarrow> h (bundle_destination x) = h dst"
    using sp by (simp_all add: CallDelivered)
  from delete_bundle_ok[OF ok i(1) same d] b i(2) show ?thesis by (simp add: st)
next
  case (CallCleanup now inst db dbs)
  obtain r s' where d: "store_cleanup_expired C h now db dbs (dm_store m) = (r, s')" by fastforce
  from store_cleanup_ok[OF ok d] obtain D where D: "store_ok C h s'" "\<forall>i \<in> D. \<exists>b. stored C m i = Some b \<and> bundle_is_expired now b"
    "bundles_of C s' = stored C m |` (- D)" by (elim exE conjE)
  have "bd_id b \<notin> D" using D(2) b sp by (auto simp: CallCleanup)
  with D b d show ?thesis by (simp add: CallCleanup cleanup_store restrict_map_def)
next
  case (CallRelay inst db b')
  show ?thesis
  proof (cases "have_seen (bd_id b') (dm_epidemic m)")
    case False
    with store_fresh_keeps[OF ok c _ _ b] sp show ?thesis by (simp add: CallRelay accept_relay_bundle_def on_store_run)
  qed (use ok b in \<open>simp add: CallRelay accept_relay_bundle_def\<close>)
qed (use ok b in \<open>simp_all add: record_encounter_def process_prophet_exchange_def\<close>)

lemma dtn_runs_keep:
  assumes "codec_ok C" and "all_spare rnd C h ord b cs m" and "store_ok C h (dm_store m)" and "stored C m (bd_id b) = Some b"
  shows "store_ok C h (dm_store (fold (dtn_run rnd C h ord) cs m)) \<and> stored C (fold (dtn_run rnd C h ord) cs m) (bd_id b) = Some b"
  using assms(2-)
proof (induction cs arbitrary: m)
  case (Cons c cs)
  from dtn_run_keeps[OF assms(1) _ Cons.prems(2,3), of c] Cons.prems(1) Cons.IH[of "dtn_run rnd C h ord c m"] show ?case by simp
qed simp

text \<open>
  C31: A message handed to the delay-tolerant network stays until it is delivered or expires. When \<open>enqueue\<close>
  succeeds with a fresh identifier and encodings can be decoded, then after any sequence of further calls (enqueueing and relaying under identifiers not in use, deliveries of other
  bundles, encounters, exchanges, and cleanups before its expiration, with database failures at any point) draining for the destination
  returns a bundle with this identifier that unwraps to the message, and only bundles whose destination has the same hash.
\<close>

theorem enqueued_until_delivered:
  assumes "codec_ok C" and "store_ok C h (dm_store m)"
    and "enqueue C h now uuid db (Inr msg_bytes) dst prio m = (Inr i, m1)"
    and "stored C m i = None" and "in_i64 (now div 10 ^ 6)"
    and "all_spare rnd C h ord (enqueued_bundle h now uuid msg_bytes dst prio m) cs m1"
  shows "\<exists>bs b. drain_for C h None dst (fold (dtn_run rnd C h ord) cs m1) = Inr bs \<and> b \<in> set bs \<and> bd_id b = i \<and>
    unwrap_bundle from_bytes b = (case from_bytes msg_bytes of Inl e \<Rightarrow> Inl (NodeIo e) | Inr msg \<Rightarrow> Inr msg) \<and>
    (\<forall>x \<in> set bs. h (bundle_destination x) = h dst)"
proof -
  let ?b = "enqueued_bundle h now uuid msg_bytes dst prio m"
  have i: "i = bd_id ?b" and st: "store_bundle C h db ?b (dm_store m) = (Inr (), dm_store m1)"
    using assms(3) by (auto simp: enqueue_def Let_def andThen_Inr_iff zoom_Inr_iff)
  have ts: "in_i64 (bi_timestamp (bd_id ?b))"
    using assms(5) by (simp add: enqueued_bundle_def bundle_from_packet_def bundle_id_from_packet_def with_priority_def new_packet_def)
  have fresh: "h (bundle_destination b') = h (bundle_destination ?b)" if "stored C m (bd_id ?b) = Some b'" for b'
    using that assms(4) by (simp add: i)
  from store_bundle_ok[OF assms(2,1) ts fresh st] have "store_ok C h (dm_store m1)" "stored C m1 (bd_id ?b) = Some ?b" by simp_all
  note keep = dtn_runs_keep[OF assms(1,6) this]
  note ok = conjunct1[OF keep]
  have b: "?b \<in> ran (stored C (fold (dtn_run rnd C h ord) cs m1))" by (rule ranI[where a = "bd_id ?b"]) (rule conjunct2[OF keep])
  obtain bs where "bundles_for C h None dst (dm_store (fold (dtn_run rnd C h ord) cs m1)) = Inr bs"
    and bs: "set bs = {b \<in> ran (stored C (fold (dtn_run rnd C h ord) cs m1)). h (bundle_destination b) = h dst}"
    by (rule bundles_for_exact[OF ok])
  then have drain: "drain_for C h None dst (fold (dtn_run rnd C h ord) cs m1) = Inr bs" by (simp add: drain_for_def)
  have "bundle_destination ?b = dst" "ep_data (pk_payload (bd_packet ?b)) = msg_bytes"
    by (simp_all add: enqueued_bundle_def bundle_from_packet_def with_priority_def new_packet_def bundle_destination_def plaintext_def)
  with b bs drain i show ?thesis by (intro exI[of _ bs] exI[of _ ?b]) (simp add: unwrap_bundle_def)
qed

section \<open>Example and failures\<close>

text \<open>An encoding of bundles for the example: the identifiers of the two bundles stand for them.\<close>

definition sample_codec :: "bool dtn_bundle \<Rightarrow> bool bundle_codec" where
  "sample_codec b = \<lparr>to_postcard = (\<lambda>x. if x = b then Inr [1] else Inl ''no encoding''), from_postcard = (\<lambda>d. if d = [1] then Some b else None)\<rparr>"

lemma sample_codec_ok: "codec_ok (sample_codec b)"
  by (simp add: codec_ok_def sample_codec_def)

definition sample_manager :: "bool dtn_manager" where
  "sample_manager = new_dtn_manager id id 0 default_dtn open_tables True"

theorem enqueued_until_delivered_witness:
  "\<exists>m1 bs b. enqueue (sample_codec (enqueued_bundle (\<lambda>x. if x then 1 else 2) 0 [] [7] False High sample_manager)) (\<lambda>x. if x then 1 else 2)
      0 [] None (Inr [7]) False High sample_manager = (Inr (bd_id b), m1) \<and>
    drain_for (sample_codec (enqueued_bundle (\<lambda>x. if x then 1 else 2) 0 [] [7] False High sample_manager)) (\<lambda>x. if x then 1 else 2) None False
      (fold (dtn_run id (sample_codec (enqueued_bundle (\<lambda>x. if x then 1 else 2) 0 [] [7] False High sample_manager)) (\<lambda>x. if x then 1 else 2) (\<lambda>_. []))
        [CallEncounter 5 False, CallCleanup 6 6 None (\<lambda>_. None)] m1) = Inr bs \<and>
    b \<in> set bs \<and> unwrap_bundle Inr b = Inr [7]"
proof -
  let ?h = "\<lambda>x :: bool. if x then 1 else 2 :: u64"
  let ?b = "enqueued_bundle ?h 0 [] [7] False High sample_manager"
  let ?C = "sample_codec ?b"
  obtain m1 where e: "enqueue ?C ?h 0 [] None (Inr [7]) False High sample_manager = (Inr (bd_id ?b), m1)"
    by (simp add: enqueue_def Let_def andThen_def zoom_def ok_def store_bundle_def) (simp add: sample_codec_def)
  have s: "store_ok ?C ?h (dm_store sample_manager)" "stored ?C sample_manager (bd_id ?b) = None"
    by (simp_all add: sample_manager_def new_dtn_manager_def)
  have life: "bd_lifetime ?b = 3600 * 10 ^ 9" "pk_created_at (bd_packet ?b) = 0"
    by (simp_all add: enqueued_bundle_def bundle_from_packet_def with_priority_def new_packet_def sample_manager_def new_dtn_manager_def default_dtn_def from_std_def)
  then have "\<not> bundle_is_expired 6 ?b" by (simp add: bundle_is_expired_def bundle_age_def)
  then have sp: "all_spare id ?C ?h (\<lambda>_. []) ?b [CallEncounter 5 False, CallCleanup 6 6 None (\<lambda>_. None)] m1" by simp
  have z: "in_i64 (0 div 10 ^ 6)" by (simp add: in_i64_def)
  from enqueued_until_delivered[OF sample_codec_ok s(1) e s(2) z sp, of Inr] obtain bs b where
    "drain_for ?C ?h None False (fold (dtn_run id ?C ?h (\<lambda>_. [])) [CallEncounter 5 False, CallCleanup 6 6 None (\<lambda>_. None)] m1) = Inr bs"
    "b \<in> set bs" "bd_id b = bd_id ?b" "unwrap_bundle Inr b = (Inr [7] :: node_error + bytes)" by (elim exE conjE) simp
  with e show ?thesis by metis
qed

text \<open>A relayed bundle that could not be stored is marked as seen, so that its next arrival is ignored with success.\<close>

lemma failed_relay_never_retried:
  assumes "\<not> have_seen (bd_id b) (dm_epidemic m)" and "accept_relay_bundle C h inst (Some e) b m = (r, m1)"
  shows "(\<exists>e. r = Inl e) \<and> dm_store m1 = dm_store m \<and> accept_relay_bundle C h inst' db b m1 = (Inr (), m1)"
  using assms by (auto simp: accept_relay_bundle_def zoom_def store_bundle_def split: sum.splits)

text \<open>Accepting a relayed bundle does not take custody of it, and the cleanup leaves the records of expired bundles in the age manager.\<close>

lemma relay_takes_no_custody: "dm_custody (snd (accept_relay_bundle C h inst db b m)) = dm_custody m"
  by (simp add: accept_relay_bundle_def zoom_def case_prod_unfold)

lemma cleanup_leaves_age_records: "dm_age (snd (dtn_cleanup rnd C h ord now inst db dbs m)) = dm_age m"
proof -
  obtain r s where "store_cleanup_expired C h now db dbs (dm_store m) = (r, s)" by fastforce
  then show ?thesis by (cases r) (simp_all add: dtn_cleanup_def andThen_def modify_def zoom_def ok_def)
qed

end
