(* ===== verification/Compact.thy ===== *)
theory Compact
  imports Bytes "HOL-Library.Log_Nat"
begin

text \<open>
  The compact wire format of \<open>indras-iot/src/compact.rs\<close>: variable-length integers, the frame of a
  message with its checksum, and fragmentation. An \<open>io::Error\<close> is kept by its kind without the
  text of its message; the writers write to a vector and never fail. The lemmas show the round
  trip through the frame, that the checksum finds every corruption of one byte, and that
  fragments carry the payload in order.
\<close>

unbundle bit_operations_syntax

section \<open>Messages\<close>

datatype io_error_kind = UnexpectedEof

datatype compact_error =
    CompactIo io_error_kind
  | InvalidVarint
  | MessageTooLarge nat nat
  | InvalidMessageType u8
  | ChecksumMismatch
  | SequenceOverflow

definition MAX_PAYLOAD_SIZE :: nat where
  "MAX_PAYLOAD_SIZE = 65536"

definition MIN_MESSAGE_SIZE :: nat where
  "MIN_MESSAGE_SIZE = 5"

datatype compact_type = Ping | Pong | Data | Ack | SyncRequest | SyncResponse | Presence

definition type_code :: "compact_type \<Rightarrow> u8" where
  "type_code t = (case t of Ping \<Rightarrow> 0 | Pong \<Rightarrow> 1 | Data \<Rightarrow> 2 | Ack \<Rightarrow> 3 | SyncRequest \<Rightarrow> 4 | SyncResponse \<Rightarrow> 5 | Presence \<Rightarrow> 6)"

definition type_try_from :: "u8 \<Rightarrow> compact_error + compact_type" where
  "type_try_from v =
    (if v = 0 then Inr Ping else if v = 1 then Inr Pong else if v = 2 then Inr Data else if v = 3 then Inr Ack
     else if v = 4 then Inr SyncRequest else if v = 5 then Inr SyncResponse else if v = 6 then Inr Presence
     else Inl (InvalidMessageType v))"

record compact_message =
  cm_type :: compact_type
  cm_flags :: u8
  cm_sequence :: u32
  cm_payload :: bytes

definition cm_new :: "compact_type \<Rightarrow> bytes \<Rightarrow> compact_message" where
  "cm_new t p = \<lparr>cm_type = t, cm_flags = 0, cm_sequence = 0, cm_payload = p\<rparr>"

definition cm_ping :: compact_message where
  "cm_ping = cm_new Ping []"

definition cm_pong :: compact_message where
  "cm_pong = cm_new Pong []"

definition cm_data :: "bytes \<Rightarrow> compact_message" where
  "cm_data p = cm_new Data p"

definition cm_ack :: "u32 \<Rightarrow> compact_message" where
  "cm_ack n = (cm_new Ack [])\<lparr>cm_sequence := n\<rparr>"

definition with_ack_requested :: "compact_message \<Rightarrow> compact_message" where
  "with_ack_requested m = m\<lparr>cm_flags := cm_flags m OR 0x01\<rparr>"

definition ack_requested :: "compact_message \<Rightarrow> bool" where
  "ack_requested m \<longleftrightarrow> cm_flags m AND 0x01 \<noteq> 0"

definition with_fragmented :: "compact_message \<Rightarrow> compact_message" where
  "with_fragmented m = m\<lparr>cm_flags := cm_flags m OR 0x02\<rparr>"

definition is_fragmented :: "compact_message \<Rightarrow> bool" where
  "is_fragmented m \<longleftrightarrow> cm_flags m AND 0x02 \<noteq> 0"

definition is_last_fragment :: "compact_message \<Rightarrow> bool" where
  "is_last_fragment m \<longleftrightarrow> cm_flags m AND 0x04 \<noteq> 0"

definition fragment_index :: "compact_message \<Rightarrow> u16" where
  "fragment_index m = ucast (drop_bit 16 (cm_sequence m))"

definition original_sequence :: "compact_message \<Rightarrow> u32" where
  "original_sequence m = (if is_fragmented m then cm_sequence m AND 0xFFFF else cm_sequence m)"

definition with_sequence :: "u32 \<Rightarrow> compact_message \<Rightarrow> compact_message" where
  "with_sequence n m = m\<lparr>cm_sequence := n\<rparr>"

section \<open>Variable-length integers\<close>

lemma unat_shift7: "unat (drop_bit 7 (v :: u64)) = unat v div 128"
  unfolding unat_drop_bit_eq by (simp add: drop_bit_eq_div)

function encode_varint :: "u64 \<Rightarrow> bytes" where
  "encode_varint value =
    (let byte = ucast (value AND 0x7F); value = drop_bit 7 value in
     if value = 0 then [byte] else (byte OR 0x80) # encode_varint value)"
  by pat_completeness auto
termination
proof (relation "measure unat", goal_cases)
  case (2 v x y)
  then have "unat v div 128 \<noteq> 0" unfolding unat_shift7[symmetric] by (simp add: unat_eq_0)
  then have "unat v \<noteq> 0" by (intro notI) simp
  then show ?case by (simp add: 2(2) unat_shift7)
qed simp

declare encode_varint.simps [simp del]

fun decode_varint :: "u64 \<Rightarrow> nat \<Rightarrow> bytes \<Rightarrow> compact_error + u64 \<times> bytes" where
  "decode_varint result shift [] = (if shift \<ge> 64 then Inl InvalidVarint else Inl (CompactIo UnexpectedEof))"
| "decode_varint result shift (b # bs) =
    (if shift \<ge> 64 then Inl InvalidVarint
     else
      let value = ucast (b AND 0x7F) in
      if shift = 63 \<and> value > 1 then Inl InvalidVarint
      else
        let result = result OR push_bit shift value in
        if b AND 0x80 = 0 then Inr (result, bs) else decode_varint result (shift + 7) bs)"

definition leading_zeros :: "u64 \<Rightarrow> nat" where
  "leading_zeros v = length (takeWhile Not (rev (map (bit v) [0..<64])))"

definition varint_size :: "u64 \<Rightarrow> nat" where
  "varint_size v = (if v = 0 then 1 else (64 - leading_zeros v + 6) div 7)"

section \<open>Checksum\<close>

definition crc8_bit :: "u8 \<Rightarrow> u8" where
  "crc8_bit crc = (if crc AND 0x80 \<noteq> 0 then push_bit 1 crc XOR 0x07 else push_bit 1 crc)"

definition crc8_byte :: "u8 \<Rightarrow> u8 \<Rightarrow> u8" where
  "crc8_byte crc byte = (crc8_bit ^^ 8) (crc XOR byte)"

definition crc8 :: "bytes \<Rightarrow> u8" where
  "crc8 data = foldl crc8_byte 0 data"

section \<open>Frames\<close>

definition cm_encode :: "compact_message \<Rightarrow> bytes" where
  "cm_encode m =
    (let buf = [type_code (cm_type m), cm_flags m] @ encode_varint (ucast (cm_sequence m)) @
           encode_varint (of_nat (length (cm_payload m))) @ cm_payload m
     in buf @ [crc8 buf])"

definition cm_decode :: "bytes \<Rightarrow> compact_error + compact_message" where
  "cm_decode data =
    (if length data < MIN_MESSAGE_SIZE then Inl (CompactIo UnexpectedEof)
     else if last data \<noteq> crc8 (butlast data) then Inl ChecksumMismatch
     else
       case butlast data of
         [] \<Rightarrow> Inl (CompactIo UnexpectedEof)
       | type_byte # rest \<Rightarrow> (case type_try_from type_byte of
           Inl e \<Rightarrow> Inl e
         | Inr t \<Rightarrow> (case rest of
             [] \<Rightarrow> Inl (CompactIo UnexpectedEof)
           | flags # rest \<Rightarrow> (case decode_varint 0 0 rest of
               Inl e \<Rightarrow> Inl e
             | Inr (seq, rest) \<Rightarrow>
                 if seq > 0xFFFFFFFF then Inl SequenceOverflow
                 else (case decode_varint 0 0 rest of
                     Inl e \<Rightarrow> Inl e
                   | Inr (len, remaining) \<Rightarrow>
                       if unat len > MAX_PAYLOAD_SIZE then Inl (MessageTooLarge (unat len) MAX_PAYLOAD_SIZE)
                       else if length remaining < unat len then Inl (CompactIo UnexpectedEof)
                       else Inr \<lparr>cm_type = t, cm_flags = flags, cm_sequence = ucast seq,
                              cm_payload = take (unat len) remaining\<rparr>)))))"

definition encoded_size :: "compact_message \<Rightarrow> nat" where
  "encoded_size m =
    2 + varint_size (ucast (cm_sequence m)) + varint_size (of_nat (length (cm_payload m))) + length (cm_payload m) + 1"

section \<open>Fragments\<close>

text \<open>\<open>slice::chunks\<close>, for a positive chunk size.\<close>

function chunks :: "nat \<Rightarrow> 'a list \<Rightarrow> 'a list list" where
  "chunks n xs = (if xs = [] \<or> n = 0 then [] else take n xs # chunks n (drop n xs))"
  by pat_completeness auto
termination by (relation "measure (length \<circ> snd)") auto

declare chunks.simps [simp del]

text \<open>A fragmenter is its fragment size; \<open>None\<close> is a failed assertion.\<close>

definition fragmenter_new :: "nat \<Rightarrow> nat option" where
  "fragmenter_new n = (if n > 0 then Some n else None)"

definition make_fragment :: "compact_message \<Rightarrow> nat \<Rightarrow> nat \<Rightarrow> bytes \<Rightarrow> compact_message" where
  "make_fragment m count i chunk =
    \<lparr>cm_type = cm_type m,
     cm_flags = (if i = count - 1 then cm_flags m OR 0x02 OR 0x04 else cm_flags m OR 0x02),
     cm_sequence = (cm_sequence m AND 0xFFFF) OR push_bit 16 (of_nat i),
     cm_payload = chunk\<rparr>"

definition fragment :: "nat \<Rightarrow> compact_message \<Rightarrow> compact_message list option" where
  "fragment max_size m =
    (if length (cm_payload m) \<le> max_size then Some [m]
     else
      let cs = chunks max_size (cm_payload m) in
      if length cs \<le> 0xFFFF
      then Some (map (\<lambda>(i, chunk). make_fragment m (length cs) i chunk) (enumerate 0 cs))
      else None)"

section \<open>Round trip of integers\<close>

lemma bit_constants [simp]: "bit (0x7F :: int) n \<longleftrightarrow> n < 7" "bit (0x80 :: int) n \<longleftrightarrow> n = 7"
proof -
  have m: "(0x7F :: int) = mask 7" "(0x80 :: int) = push_bit 7 1" by (simp_all add: mask_eq_exp_minus_1)
  show "bit (0x7F :: int) n \<longleftrightarrow> n < 7" unfolding m(1) bit_mask_iff by simp
  show "bit (0x80 :: int) n \<longleftrightarrow> n = 7" unfolding m(2) bit_push_bit_iff bit_1_iff by auto
qed

lemma word64_split7: "(v :: u64) = (v AND 0x7F) OR push_bit 7 (drop_bit 7 v)"
proof (rule bit_word_eqI)
  fix n
  show "bit v n = bit ((v AND 0x7F) OR push_bit 7 (drop_bit 7 v)) n" if "n < LENGTH(64)"
    using that by (cases "n < 7") (auto simp: bit_simps)
qed

text \<open>What one byte of the encoding carries.\<close>

lemma varint_byte:
  fixes v :: u64
  defines "b \<equiv> ucast (v AND 0x7F) :: u8"
  shows "ucast (b AND 0x7F) = v AND 0x7F" and "ucast ((b OR 0x80) AND 0x7F) = v AND 0x7F"
    and "b AND 0x80 = 0" and "(b OR 0x80) AND 0x80 \<noteq> 0"
proof -
  show "ucast (b AND 0x7F) = v AND 0x7F" "ucast ((b OR 0x80) AND 0x7F) = v AND 0x7F" "b AND 0x80 = 0"
    unfolding b_def by (rule bit_word_eqI; auto simp: bit_simps)+
  have "bit ((b OR 0x80) AND 0x80) 7" by (simp add: bit_simps)
  then show "(b OR 0x80) AND 0x80 \<noteq> 0" by auto
qed

lemma decode_encode_varint:
  assumes "k \<le> 9" and "unat v < 2 ^ (64 - 7 * k)" and "sh = 7 * k"
  shows "decode_varint r sh (encode_varint v @ rest) = Inr (r OR push_bit sh v, rest)"
  using assms
proof (induction v arbitrary: k r sh rule: encode_varint.induct)
  case (1 v)
  have last: "\<not> (sh = 63 \<and> v AND 0x7F > 1)"
  proof
    assume "sh = 63 \<and> v AND 0x7F > 1"
    with 1(4) have "k = 9" by simp
    with 1(3) have "unat v < 2" by simp
    then have "v \<le> 1" by (simp add: word_le_nat_alt)
    then have "v AND 0x7F \<le> 1" using word_and_le1[of v "0x7F"] word_and_le2[of v "0x7F"] by (meson order.trans)
    with \<open>sh = 63 \<and> v AND 0x7F > 1\<close> show False by (simp add: leD)
  qed
  show ?case
  proof (cases "drop_bit 7 v = 0")
    case True
    then have v: "v AND 0x7F = v" using word64_split7[of v] by simp
    from True last 1(2,4) varint_byte[of v, unfolded v] show ?thesis
      by (simp add: encode_varint.simps[of v] Let_def v)
  next
    case False
    then have "unat v div 128 \<noteq> 0" unfolding unat_shift7[symmetric] by (simp add: unat_eq_0)
    then have ge: "128 \<le> unat v" by (simp add: div_eq_0_iff)
    with 1(3) have "k \<noteq> 9" by auto
    with 1(2) have k: "k < 9" by simp
    have e: "64 - 7 * k = 7 + (64 - 7 * Suc k)" using k by simp
    have "unat v < 2 ^ 7 * 2 ^ (64 - 7 * Suc k)" using 1(3) unfolding e power_add .
    then have "unat v < 128 * 2 ^ (64 - 7 * Suc k)" by simp
    then have "unat (drop_bit 7 v) < 2 ^ (64 - 7 * Suc k)" unfolding unat_shift7 by (simp add: div_less_iff_less_mult mult.commute)
    with 1(1)[OF refl refl False, of "Suc k" "sh + 7" "r OR push_bit sh (v AND 0x7F)"] k 1(4)
    have IH: "decode_varint (r OR push_bit sh (v AND 0x7F)) (sh + 7) (encode_varint (drop_bit 7 v) @ rest) =
        Inr ((r OR push_bit sh (v AND 0x7F)) OR push_bit (sh + 7) (drop_bit 7 v), rest)" by simp
    have "push_bit sh v = push_bit sh ((v AND 0x7F) OR push_bit 7 (drop_bit 7 v))"
      using word64_split7[of v] by simp
    also have "\<dots> = push_bit sh (v AND 0x7F) OR push_bit (sh + 7) (drop_bit 7 v)"
      by (simp add: push_bit_or add.commute)
    finally have "(r OR push_bit sh (v AND 0x7F)) OR push_bit (sh + 7) (drop_bit 7 v) = r OR push_bit sh v"
      by (simp add: or.assoc)
    with IH False last k 1(4) show ?thesis by (simp add: encode_varint.simps[of v] Let_def varint_byte)
  qed
qed

lemma decode_varint_encode: "decode_varint 0 0 (encode_varint v @ rest) = Inr (v, rest)"
  using decode_encode_varint[of 0 v 0 0 rest] unsigned_less[of v, where 'a = nat] by simp

section \<open>Sizes of integers\<close>

lemma floorlog_shift: "2 ^ k \<le> n \<Longrightarrow> floorlog 2 n = k + floorlog 2 (n div 2 ^ k)"
proof (induction k)
  case (Suc k)
  then have "2 ^ k \<le> n" by simp
  have "2 \<le> n div 2 ^ k" using Suc.prems by (simp add: less_eq_div_iff_mult_less_eq)
  moreover have "n div 2 ^ k div 2 = n div 2 ^ Suc k" by (simp add: div_mult2_eq[symmetric] mult.commute)
  ultimately show ?case using Suc.IH[OF \<open>2 ^ k \<le> n\<close>] compute_floorlog[of 2 "n div 2 ^ k"] by simp
qed simp

lemma length_encode_varint: "length (encode_varint v) = (if v = 0 then 1 else (floorlog 2 (unat v) + 6) div 7)"
proof (induction v rule: encode_varint.induct)
  case (1 v)
  show ?case
  proof (cases "drop_bit 7 v = 0")
    case True
    then have "unat v div 128 = 0" unfolding unat_shift7[symmetric] by simp
    then have "floorlog 2 (unat v) \<le> 7" by (intro floorlog_leI) auto
    moreover have "floorlog 2 (unat v) \<ge> 1" if "v \<noteq> 0" using that by (simp add: floorlog_def unat_gt_0)
    ultimately have "(floorlog 2 (unat v) + 6) div 7 = 1" if "v \<noteq> 0" using that by (intro div_nat_eqI) auto
    then show ?thesis using True by (simp add: encode_varint.simps[of v] Let_def)
  next
    case False
    then have "unat v div 128 \<noteq> 0" unfolding unat_shift7[symmetric] by (simp add: unat_eq_0)
    then have ge: "2 ^ 7 \<le> unat v" by (simp add: div_eq_0_iff)
    then have "v \<noteq> 0" by auto
    with 1[OF refl refl False] False floorlog_shift[OF ge] show ?thesis
      by (simp add: encode_varint.simps[of v] Let_def unat_shift7)
  qed
qed

lemma leading_zeros_floorlog:
  "n - length (takeWhile Not (rev (map (bit w) [0..<n]))) = floorlog 2 (w mod 2 ^ n)" for w :: nat
proof (induction n)
  case (Suc n)
  let ?l = "length (takeWhile Not (rev (map (bit w) [0..<n])))"
  have le: "?l \<le> n" using length_takeWhile_le[of Not "rev (map (bit w) [0..<n])"] by simp
  show ?case
  proof (cases "bit w n")
    case True
    then have "w mod 2 ^ Suc n = w mod 2 ^ n + 2 ^ n"
      using take_bit_Suc_from_most[of n w] by (simp add: take_bit_eq_mod)
    moreover have "w mod 2 ^ n < 2 ^ n" by simp
    ultimately have "floorlog 2 (w mod 2 ^ Suc n) = Suc n"
      using floorlog_shift[of n "w mod 2 ^ Suc n"] by (simp add: floorlog_def)
    with True show ?thesis by simp
  next
    case False
    then have "w mod 2 ^ Suc n = w mod 2 ^ n"
      using take_bit_Suc_from_most[of n w] by (simp add: take_bit_eq_mod)
    with False Suc le show ?thesis by simp
  qed
qed (simp add: floorlog_def)

lemma varint_size_exact: "length (encode_varint v) = varint_size v"
proof -
  have "map (bit v) [0..<64] = map (bit (unat v)) [0..<64]" by (auto simp: bit_simps)
  moreover have "unat v mod 2 ^ 64 = unat v" using unsigned_less[of v, where 'a = nat] by simp
  ultimately have "64 - leading_zeros v = floorlog 2 (unat v)"
    using leading_zeros_floorlog[of 64 "unat v"] by (simp only: leading_zeros_def)
  then show ?thesis by (simp add: length_encode_varint varint_size_def)
qed

section \<open>Checksums of corrupted data\<close>

lemma bit_crc8_bit:
  assumes "n < 8"
  shows "bit (crc8_bit c) n \<longleftrightarrow> (0 < n \<and> bit c (n - 1)) \<noteq> (n < 3 \<and> bit c 7)"
proof -
  have "(0x07 :: u8) = mask 3" by (simp add: mask_eq_exp_minus_1)
  then have b7: "bit (0x07 :: u8) n \<longleftrightarrow> n < 3" using assms by (simp only: bit_mask_iff) simp
  have "c AND 0x80 \<noteq> 0 \<longleftrightarrow> bit c 7"
  proof
    assume "c AND 0x80 \<noteq> 0"
    then obtain k where "bit (c AND 0x80) k" by (metis bit_0_eq bot_apply bit_eqI bot_bool_def)
    then show "bit c 7" by (auto simp: bit_simps)
  next
    assume "bit c 7"
    then have "bit (c AND 0x80) 7" by (auto simp: bit_simps)
    then show "c AND 0x80 \<noteq> 0" by auto
  qed
  moreover have "bit (push_bit 1 c) n \<longleftrightarrow> 0 < n \<and> bit c (n - 1)" using assms by (simp only: bit_push_bit_iff) auto
  ultimately show ?thesis using b7 unfolding crc8_bit_def by (cases "bit c 7") (simp_all only: bit_xor_iff if_True if_False simp_thms)
qed

lemma inj_crc8_bit: "inj crc8_bit"
proof (rule injI)
  fix c d assume e: "crc8_bit c = crc8_bit d"
  have b: "(0 < n \<and> bit c (n - 1)) \<noteq> (n < 3 \<and> bit c 7) \<longleftrightarrow> (0 < n \<and> bit d (n - 1)) \<noteq> (n < 3 \<and> bit d 7)" if "n < 8" for n
    using bit_crc8_bit[OF that, of c] bit_crc8_bit[OF that, of d] e by simp
  from b[of 0] have b7: "bit c 7 = bit d 7" by simp
  show "c = d"
  proof (rule bit_word_eqI)
    fix n assume "n < LENGTH(8)"
    then show "bit c n = bit d n" using b[of "Suc n"] b7 by (cases "n = 7") auto
  qed
qed

lemma xor_cancel: "(x :: u8) XOR y = x XOR z \<longleftrightarrow> y = z"
proof
  assume "x XOR y = x XOR z"
  then have "x XOR (x XOR y) = x XOR (x XOR z)" by simp
  then show "y = z" by (simp add: xor.assoc[symmetric])
qed simp

lemma crc8_byte_eq_iff [simp]:
  "crc8_byte c b = crc8_byte c b' \<longleftrightarrow> b = b'" "crc8_byte c b = crc8_byte c' b \<longleftrightarrow> c = c'"
proof -
  have "inj (crc8_bit ^^ 8)" by (intro inj_fn inj_crc8_bit)
  then have *: "(crc8_bit ^^ 8) x = (crc8_bit ^^ 8) y \<longleftrightarrow> x = y" for x y by (rule inj_eq)
  show "crc8_byte c b = crc8_byte c b' \<longleftrightarrow> b = b'" "crc8_byte c b = crc8_byte c' b \<longleftrightarrow> c = c'"
    unfolding crc8_byte_def * using xor_cancel[of c b b'] xor_cancel[of b c c'] by (simp_all add: xor.commute)
qed

lemma foldl_crc8_eq_iff [simp]: "foldl crc8_byte c xs = foldl crc8_byte c' xs \<longleftrightarrow> c = c'"
  by (induction xs arbitrary: c c') auto

lemma crc8_corrupted: "i < length xs \<Longrightarrow> b \<noteq> xs ! i \<Longrightarrow> crc8 (xs[i := b]) \<noteq> crc8 xs"
  by (subst (2) id_take_nth_drop[of i xs]) (simp_all add: crc8_def upd_conv_take_nth_drop)

section \<open>Properties of frames\<close>

lemma type_roundtrip [simp]: "type_try_from (type_code t) = Inr t"
  by (cases t) (simp_all add: type_code_def type_try_from_def)

lemma encode_varint_nonempty: "1 \<le> length (encode_varint v)"
  by (subst encode_varint.simps) (simp add: Let_def)

lemma length_cm_encode: "MIN_MESSAGE_SIZE \<le> length (cm_encode m)"
  using encode_varint_nonempty[of "ucast (cm_sequence m)"] encode_varint_nonempty[of "of_nat (length (cm_payload m))"]
  by (simp add: cm_encode_def Let_def MIN_MESSAGE_SIZE_def)

lemma compact_eta [simp]:
  "\<lparr>cm_type = cm_type m, cm_flags = cm_flags m, cm_sequence = cm_sequence m, cm_payload = cm_payload m\<rparr> = m"
  by simp

lemma ucast_u32_u64 [simp]: "ucast (ucast (s :: u32) :: u64) = s"
  by (rule bit_word_eqI) (auto simp: bit_simps)

text \<open>
  C28: What a device sends is what the other end reads: decoding the frame of a message gives the
  message again, for every type, flags and sequence number, up to the payload limit; beyond the
  limit the frame is sent all the same and refused by the receiver. The size of a frame is
  known without encoding it.
\<close>

theorem compact_roundtrip:
  assumes "length (cm_payload m) < 2 ^ 64"
  shows "cm_decode (cm_encode m) =
      (if length (cm_payload m) \<le> MAX_PAYLOAD_SIZE then Inr m
       else Inl (MessageTooLarge (length (cm_payload m)) MAX_PAYLOAD_SIZE)) \<and>
    length (cm_encode m) = encoded_size m"
proof
  let ?l = "of_nat (length (cm_payload m)) :: u64"
  have len: "unat ?l = length (cm_payload m)" using assms by (simp add: unsigned_of_nat take_bit_eq_mod)
  have bound: "unat (cm_sequence m) < 2 ^ 32" using unsigned_less[of "cm_sequence m", where 'a = nat] by simp
  then have "unat (ucast (cm_sequence m) :: u64) = unat (cm_sequence m)"
    by (simp add: unsigned_ucast_eq take_bit_nat_eq_self_iff)
  with bound have seq: "\<not> (ucast (cm_sequence m) :: u64) > 0xFFFFFFFF" by (simp add: word_less_nat_alt)
  show "cm_decode (cm_encode m) = (if length (cm_payload m) \<le> MAX_PAYLOAD_SIZE then Inr m
       else Inl (MessageTooLarge (length (cm_payload m)) MAX_PAYLOAD_SIZE))"
    using length_cm_encode[of m] len seq
    by (simp add: cm_decode_def not_less cm_encode_def Let_def butlast_append decode_varint_encode MIN_MESSAGE_SIZE_def)
  show "length (cm_encode m) = encoded_size m"
    by (simp add: cm_encode_def Let_def encoded_size_def varint_size_exact)
qed

theorem compact_roundtrip_witness:
  "cm_decode (cm_encode (with_sequence 300 (cm_data [1, 2]))) = Inr (with_sequence 300 (cm_data [1, 2])) \<and>
   length (cm_encode (with_sequence 300 (cm_data [1, 2]))) = 8"
proof -
  let ?m = "with_sequence 300 (cm_data [1, 2])"
  have p: "cm_payload ?m = [1, 2]" by (simp add: with_sequence_def cm_data_def cm_new_def)
  have "encoded_size ?m = 8" by code_simp
  with compact_roundtrip[of ?m] p show ?thesis by (simp add: MAX_PAYLOAD_SIZE_def)
qed

text \<open>
  C29: A frame in which one byte was changed on the way, wherever it is and whatever it became, is
  never taken for a message: decoding reports the checksum mismatch.
\<close>

theorem corrupted_byte_detected:
  assumes "i < length (cm_encode m)" and "b \<noteq> cm_encode m ! i"
  shows "cm_decode ((cm_encode m)[i := b]) = Inl ChecksumMismatch"
proof -
  obtain buf where e: "cm_encode m = buf @ [crc8 buf]" by (simp add: cm_encode_def Let_def)
  have "last ((cm_encode m)[i := b]) \<noteq> crc8 (butlast ((cm_encode m)[i := b]))"
  proof (cases "i < length buf")
    case True
    with assms(2) show ?thesis using crc8_corrupted[of i buf b] by (auto simp: e list_update_append nth_append)
  next
    case False
    with assms show ?thesis by (simp add: e list_update_append nth_append less_Suc_eq)
  qed
  then show ?thesis using length_cm_encode[of m] by (simp add: cm_decode_def not_less)
qed

theorem corrupted_byte_detected_witness:
  "cm_decode ((cm_encode (cm_data [7, 8, 9]))[5 := 9]) = Inl ChecksumMismatch"
  by (rule corrupted_byte_detected; code_simp)

section \<open>Properties of fragments\<close>

lemma concat_chunks: "0 < n \<Longrightarrow> concat (chunks n xs) = xs"
  by (induction n xs rule: chunks.induct) (subst chunks.simps, auto)

lemma chunks_sizes: "c \<in> set (chunks n xs) \<Longrightarrow> 0 < length c \<and> length c \<le> n"
proof (induction n xs rule: chunks.induct)
  case (1 n xs)
  from 1(2) show ?case using 1(1) by (subst (asm) chunks.simps) (auto split: if_splits)
qed

lemma bit_low16 [simp]: "bit (0xFFFF :: int) n \<longleftrightarrow> n < 16"
proof -
  have "(0xFFFF :: int) = mask 16" by (simp add: mask_eq_exp_minus_1)
  then show ?thesis by (simp only: bit_mask_iff) simp
qed

lemma fragment_sequence:
  fixes s :: u32
  assumes "i < 2 ^ 16"
  shows "((s AND 0xFFFF) OR push_bit 16 (of_nat i)) AND 0xFFFF = s AND 0xFFFF"
    and "ucast (drop_bit 16 ((s AND 0xFFFF) OR push_bit 16 (of_nat i))) = (of_nat i :: u16)"
proof -
  show "((s AND 0xFFFF) OR push_bit 16 (of_nat i)) AND 0xFFFF = s AND 0xFFFF"
    by (rule bit_word_eqI) (auto simp: bit_simps)
  show "ucast (drop_bit 16 ((s AND 0xFFFF) OR push_bit 16 (of_nat i))) = (of_nat i :: u16)"
    by (rule bit_word_eqI) (auto simp: bit_simps)
qed

lemma flags_set:
  fixes f :: u8
  shows "(f OR 0x02) AND 0x02 \<noteq> 0" "(f OR 0x02 OR 0x04) AND 0x02 \<noteq> 0" "(f OR 0x02 OR 0x04) AND 0x04 \<noteq> 0"
    "(f OR 0x02) AND 0x04 = f AND 0x04"
proof -
  have b: "bit (0x02 :: u8) n \<longleftrightarrow> n = 1" "bit (0x04 :: u8) n \<longleftrightarrow> n = 2" for n
  proof -
    have "(0x02 :: u8) = push_bit 1 1" "(0x04 :: u8) = push_bit 2 1" by simp_all
    then show "bit (0x02 :: u8) n \<longleftrightarrow> n = 1" "bit (0x04 :: u8) n \<longleftrightarrow> n = 2"
      by (simp_all only: bit_push_bit_iff bit_1_iff) auto
  qed
  have "bit ((f OR 0x02) AND 0x02) 1" "bit ((f OR 0x02 OR 0x04) AND 0x02) 1" "bit ((f OR 0x02 OR 0x04) AND 0x04) 2"
    by (simp_all only: bit_or_iff bit_and_iff b) simp_all
  then show "(f OR 0x02) AND 0x02 \<noteq> 0" "(f OR 0x02 OR 0x04) AND 0x02 \<noteq> 0" "(f OR 0x02 OR 0x04) AND 0x04 \<noteq> 0" by auto
  show "(f OR 0x02) AND 0x04 = f AND 0x04" by (rule bit_word_eqI) (auto simp only: bit_or_iff bit_and_iff b)
qed

text \<open>
  Fragmenting is lossless. Fragments have at most the configured size; put together in the
  order of their indices they give the payload of the message; each is marked as a fragment,
  carries its index and the low half of the sequence number, and of a message that was not
  marked itself exactly the last one is marked last. A message that fits is passed unchanged.
\<close>

theorem fragments_carry_payload:
  assumes "fragmenter_new n = Some k" and "fragment k m = Some fs" and "i < length fs"
  shows "concat (map cm_payload fs) = cm_payload m \<and> length (cm_payload (fs ! i)) \<le> n \<and>
    cm_type (fs ! i) = cm_type m \<and>
    (if length (cm_payload m) \<le> n then fs = [m]
     else is_fragmented (fs ! i) \<and> fragment_index (fs ! i) = of_nat i \<and>
       original_sequence (fs ! i) = cm_sequence m AND 0xFFFF \<and>
       (is_last_fragment (fs ! i) \<longleftrightarrow> i = length fs - 1 \<or> is_last_fragment m))"
proof -
  let ?cs = "chunks n (cm_payload m)"
  have n: "n > 0" "k = n" using assms(1) by (auto simp: fragmenter_new_def split: if_splits)
  show ?thesis
  proof (cases "length (cm_payload m) \<le> n")
    case False
    with assms(2) n have fs: "fs = map (\<lambda>(i, chunk). make_fragment m (length ?cs) i chunk) (enumerate 0 ?cs)"
      and le: "length ?cs \<le> 0xFFFF" by (simp_all add: fragment_def Let_def split: if_splits)
    then have i: "i < length ?cs" using assms(3) by simp
    with le have "i < 2 ^ 16" by simp
    note seq = fragment_sequence[OF this, of "cm_sequence m"]
    have fi: "fs ! i = make_fragment m (length ?cs) i (?cs ! i)" using i by (simp add: fs nth_enumerate_eq)
    have "map cm_payload fs = map snd (enumerate 0 ?cs)" by (simp add: fs make_fragment_def case_prod_beta comp_def)
    then have "concat (map cm_payload fs) = cm_payload m" by (simp add: concat_chunks[OF n(1)])
    moreover have "length (cm_payload (fs ! i)) \<le> n" using chunks_sizes[OF nth_mem[OF i]] by (simp add: fi make_fragment_def)
    moreover have "length fs = length ?cs" by (simp add: fs)
    ultimately show ?thesis using False i seq
      by (auto simp: fi make_fragment_def is_fragmented_def fragment_index_def original_sequence_def is_last_fragment_def flags_set flags_set(2,3)[simplified])
  qed (use assms n in \<open>auto simp: fragment_def\<close>)
qed

theorem fragments_carry_payload_witness:
  "\<exists>fs. fragment 2 (cm_data [1, 2, 3]) = Some fs \<and> concat (map cm_payload fs) = [1, 2, 3] \<and>
     is_last_fragment (fs ! 1) \<and> fragment_index (fs ! 1) = 1"
proof -
  let ?m = "cm_data [1, 2, 3]"
  have f: "fragmenter_new 2 = Some 2" by code_simp
  obtain fs where fs: "fragment 2 ?m = Some fs" "length fs = 2" by (simp add: fragment_def Let_def cm_data_def cm_new_def chunks.simps)
  show ?thesis
    using fragments_carry_payload[OF f fs(1), of 1] fs by (auto simp: cm_data_def cm_new_def)
qed

end
