(* ===== verification/Low_Memory.thy ===== *)
theory Low_Memory
  imports Prelude "HOL-Library.Multiset"
begin

text \<open>
  Memory budgets of constrained devices, \<open>indras-iot/src/low_memory.rs\<close>. The tracker is shared by
  threads: its three \<open>AtomicUsize\<close> counters are 64-bit words, and the loops of \<open>try_allocate\<close>,
  \<open>try_add_connection\<close> and \<open>try_queue_op\<close> are split at their atomic operations, the load and the
  weak compare-and-exchange, so that a list of events is an interleaving of the threads. A
  failed assertion is \<open>None\<close>. The buffer pool is used through \<open>&mut\<close> and is sequential.
\<close>

section \<open>Budgets\<close>

record memory_budget =
  max_heap_bytes :: u64
  max_message_size :: u64
  max_connections :: u64
  max_pending_ops :: u64

definition default_budget :: memory_budget where
  "default_budget = \<lparr>max_heap_bytes = 64 * 1024, max_message_size = 1024, max_connections = 4, max_pending_ops = 8\<rparr>"

definition minimal_budget :: memory_budget where
  "minimal_budget = \<lparr>max_heap_bytes = 16 * 1024, max_message_size = 256, max_connections = 2, max_pending_ops = 4\<rparr>"

definition moderate_budget :: memory_budget where
  "moderate_budget = \<lparr>max_heap_bytes = 128 * 1024, max_message_size = 4096, max_connections = 8, max_pending_ops = 16\<rparr>"

datatype memory_error =
    BudgetExceeded (be_requested: u64) (be_available: u64)
  | MessageSizeExceeded u64 u64
  | ConnectionLimitReached u64 u64
  | OperationQueueFull u64 u64
  | NoBuffersAvailable

record memory_tracker =
  mt_budget :: memory_budget
  mt_allocated :: u64
  mt_connections :: u64
  mt_pending_ops :: u64

definition new_tracker :: "memory_budget \<Rightarrow> memory_tracker" where
  "new_tracker b = \<lparr>mt_budget = b, mt_allocated = 0, mt_connections = 0, mt_pending_ops = 0\<rparr>"

definition saturating_sub :: "u64 \<Rightarrow> u64 \<Rightarrow> u64" where
  "saturating_sub a b = (if b \<le> a then a - b else 0)"

definition checked_add :: "u64 \<Rightarrow> u64 \<Rightarrow> u64 option" where
  "checked_add a b = (if unat a + unat b < 2 ^ 64 then Some (a + b) else None)"

definition check_message_size :: "memory_tracker \<Rightarrow> u64 \<Rightarrow> memory_error + unit" where
  "check_message_size t n =
    (if n > max_message_size (mt_budget t) then Inl (MessageSizeExceeded n (max_message_size (mt_budget t))) else Inr ())"

definition available_bytes :: "memory_tracker \<Rightarrow> u64" where
  "available_bytes t = saturating_sub (max_heap_bytes (mt_budget t)) (mt_allocated t)"

section \<open>One iteration of the loops\<close>

text \<open>The new value for the counter that was loaded, or the error that ends the loop.\<close>

definition allocate_target :: "memory_budget \<Rightarrow> u64 \<Rightarrow> u64 \<Rightarrow> memory_error + u64" where
  "allocate_target b n current =
    (case checked_add current n of
       Some v \<Rightarrow> if v \<le> max_heap_bytes b then Inr v
         else Inl (BudgetExceeded n (saturating_sub (max_heap_bytes b) current))
     | None \<Rightarrow> Inl (BudgetExceeded n (saturating_sub (max_heap_bytes b) current)))"

definition connection_target :: "memory_budget \<Rightarrow> u64 \<Rightarrow> memory_error + u64" where
  "connection_target b current =
    (if current \<ge> max_connections b then Inl (ConnectionLimitReached current (max_connections b)) else Inr (current + 1))"

definition op_target :: "memory_budget \<Rightarrow> u64 \<Rightarrow> memory_error + u64" where
  "op_target b current =
    (if current \<ge> max_pending_ops b then Inl (OperationQueueFull current (max_pending_ops b)) else Inr (current + 1))"

text \<open>The guards that the calls return; dropping them gives back what they hold.\<close>

datatype guard = MemoryGuard (guard_bytes: u64) | ConnectionGuard | OpGuard

datatype request = TryAllocate u64 | TryAddConnection | TryQueueOp

fun request_target :: "memory_budget \<Rightarrow> request \<Rightarrow> u64 \<Rightarrow> memory_error + u64" where
  "request_target b (TryAllocate n) = allocate_target b n"
| "request_target b TryAddConnection = connection_target b"
| "request_target b TryQueueOp = op_target b"

fun counter_of :: "request \<Rightarrow> memory_tracker \<Rightarrow> u64" where
  "counter_of (TryAllocate n) t = mt_allocated t"
| "counter_of TryAddConnection t = mt_connections t"
| "counter_of TryQueueOp t = mt_pending_ops t"

fun set_counter :: "request \<Rightarrow> u64 \<Rightarrow> memory_tracker \<Rightarrow> memory_tracker" where
  "set_counter (TryAllocate n) v t = t\<lparr>mt_allocated := v\<rparr>"
| "set_counter TryAddConnection v t = t\<lparr>mt_connections := v\<rparr>"
| "set_counter TryQueueOp v t = t\<lparr>mt_pending_ops := v\<rparr>"

fun guard_of :: "request \<Rightarrow> guard" where
  "guard_of (TryAllocate n) = MemoryGuard n"
| "guard_of TryAddConnection = ConnectionGuard"
| "guard_of TryQueueOp = OpGuard"

section \<open>Threads\<close>

text \<open>Where a thread is in its loop: outside, before the load, or between load and exchange.\<close>

datatype program_counter = Outside | Looping request | Loaded request (pc_current: u64) (pc_new: u64)

record thread =
  th_pc :: program_counter
  th_guards :: "guard list"
  th_result :: "memory_error + guard"

type_synonym device = "memory_tracker \<times> thread list"

datatype atomic_event =
    Invoke nat request
  | Load nat
  | CompareExchange nat bool
  | DropGuard nat nat

definition invoke :: "request \<Rightarrow> thread \<Rightarrow> thread" where
  "invoke r th = (if th_pc th = Outside then th\<lparr>th_pc := Looping r\<rparr> else th)"

definition load_counter :: "memory_tracker \<Rightarrow> thread \<Rightarrow> thread" where
  "load_counter t th =
    (case th_pc th of
       Looping r \<Rightarrow> (case request_target (mt_budget t) r (counter_of r t) of
           Inl e \<Rightarrow> th\<lparr>th_pc := Outside, th_result := Inl e\<rparr>
         | Inr v \<Rightarrow> th\<lparr>th_pc := Loaded r (counter_of r t) v\<rparr>)
     | _ \<Rightarrow> th)"

text \<open>The exchange succeeds only on an unchanged counter, and may fail spuriously.\<close>

definition compare_exchange :: "bool \<Rightarrow> memory_tracker \<Rightarrow> thread \<Rightarrow> memory_tracker \<times> thread" where
  "compare_exchange spurious t th =
    (case th_pc th of
       Loaded r current v \<Rightarrow>
         if counter_of r t = current \<and> \<not> spurious
         then (set_counter r v t, th\<lparr>th_pc := Outside, th_guards := guard_of r # th_guards th, th_result := Inr (guard_of r)\<rparr>)
         else (t, th\<lparr>th_pc := Looping r\<rparr>)
     | _ \<Rightarrow> (t, th))"

fun drop_guard :: "guard \<Rightarrow> memory_tracker \<Rightarrow> memory_tracker option" where
  "drop_guard (MemoryGuard n) t =
    (if mt_allocated t \<ge> n then Some (t\<lparr>mt_allocated := mt_allocated t - n\<rparr>) else None)"
| "drop_guard ConnectionGuard t =
    (if mt_connections t \<ge> 1 then Some (t\<lparr>mt_connections := mt_connections t - 1\<rparr>) else None)"
| "drop_guard OpGuard t =
    (if mt_pending_ops t \<ge> 1 then Some (t\<lparr>mt_pending_ops := mt_pending_ops t - 1\<rparr>) else None)"

definition release_guard :: "nat \<Rightarrow> memory_tracker \<Rightarrow> thread \<Rightarrow> (memory_tracker \<times> thread) option" where
  "release_guard i t th =
    (if th_pc th = Outside \<and> i < length (th_guards th)
     then map_option (\<lambda>t. (t, th\<lparr>th_guards := take i (th_guards th) @ drop (Suc i) (th_guards th)\<rparr>)) (drop_guard (th_guards th ! i) t)
     else Some (t, th))"

fun device_step :: "atomic_event \<Rightarrow> device \<Rightarrow> device option" where
  "device_step (Invoke p r) (t, ths) = Some (if p < length ths then (t, ths[p := invoke r (ths ! p)]) else (t, ths))"
| "device_step (Load p) (t, ths) = Some (if p < length ths then (t, ths[p := load_counter t (ths ! p)]) else (t, ths))"
| "device_step (CompareExchange p spurious) (t, ths) =
    Some (if p < length ths then (case compare_exchange spurious t (ths ! p) of (t, th) \<Rightarrow> (t, ths[p := th])) else (t, ths))"
| "device_step (DropGuard p i) (t, ths) =
    (if p < length ths then map_option (\<lambda>(t, th). (t, ths[p := th])) (release_guard i t (ths ! p)) else Some (t, ths))"

definition idle_thread :: thread where
  "idle_thread = \<lparr>th_pc = Outside, th_guards = [], th_result = Inl NoBuffersAvailable\<rparr>"

text \<open>The states of a device whose threads share a new tracker.\<close>

inductive reachable :: "memory_budget \<Rightarrow> nat \<Rightarrow> device \<Rightarrow> bool" for b n where
  start: "reachable b n (new_tracker b, replicate n idle_thread)"
| step: "reachable b n s \<Longrightarrow> device_step e s = Some s' \<Longrightarrow> reachable b n s'"

section \<open>The budget invariant\<close>

definition guards_of :: "thread list \<Rightarrow> guard multiset" where
  "guards_of ths = (\<Sum>th \<leftarrow> ths. mset (th_guards th))"

definition bytes_held :: "guard multiset \<Rightarrow> nat" where
  "bytes_held G = (\<Sum>g \<in># G. case g of MemoryGuard n \<Rightarrow> unat n | _ \<Rightarrow> 0)"

definition pc_ok :: "memory_budget \<Rightarrow> program_counter \<Rightarrow> bool" where
  "pc_ok b pc \<longleftrightarrow> (case pc of Loaded r current v \<Rightarrow> request_target b r current = Inr v | _ \<Rightarrow> True)"

definition within_budget :: "memory_budget \<Rightarrow> device \<Rightarrow> bool" where
  "within_budget b s \<longleftrightarrow> (case s of (t, ths) \<Rightarrow>
    mt_budget t = b \<and> (\<forall>th \<in> set ths. pc_ok b (th_pc th)) \<and>
    unat (mt_allocated t) = bytes_held (guards_of ths) \<and> mt_allocated t \<le> max_heap_bytes b \<and>
    unat (mt_connections t) = count (guards_of ths) ConnectionGuard \<and> mt_connections t \<le> max_connections b \<and>
    unat (mt_pending_ops t) = count (guards_of ths) OpGuard \<and> mt_pending_ops t \<le> max_pending_ops b)"

lemma guards_of_update:
  assumes "p < length ths"
  shows "guards_of (ths[p := th]) + mset (th_guards (ths ! p)) = guards_of ths + mset (th_guards th)"
proof -
  have app: "guards_of (xs @ x # ys) = guards_of xs + mset (th_guards x) + guards_of ys" for xs x ys
    by (simp add: guards_of_def ac_simps)
  have "guards_of ths = guards_of (take p ths) + mset (th_guards (ths ! p)) + guards_of (drop (Suc p) ths)"
    by (subst id_take_nth_drop[OF assms]) (rule app)
  moreover have "guards_of (ths[p := th]) = guards_of (take p ths) + mset (th_guards th) + guards_of (drop (Suc p) ths)"
    by (simp add: upd_conv_take_nth_drop[OF assms] app)
  ultimately show ?thesis by (simp add: ac_simps)
qed

lemma guards_of_same:
  "p < length ths \<Longrightarrow> th_guards th = th_guards (ths ! p) \<Longrightarrow> guards_of (ths[p := th]) = guards_of ths"
  using guards_of_update[of p ths th] by simp

lemma guards_of_add:
  "p < length ths \<Longrightarrow> th_guards th = g # th_guards (ths ! p) \<Longrightarrow> guards_of (ths[p := th]) = add_mset g (guards_of ths)"
  using guards_of_update[of p ths th] by simp

lemma guards_of_drop:
  assumes "p < length ths" and "i < length (th_guards (ths ! p))"
    and "th_guards th = take i (th_guards (ths ! p)) @ drop (Suc i) (th_guards (ths ! p))"
  shows "guards_of ths = add_mset (th_guards (ths ! p) ! i) (guards_of (ths[p := th]))"
proof -
  let ?gs = "th_guards (ths ! p)"
  have "mset ?gs = add_mset (?gs ! i) (mset (th_guards th))"
    by (subst id_take_nth_drop[OF assms(2)]) (simp add: assms(3))
  with guards_of_update[OF assms(1), of th] show ?thesis by simp
qed

lemma bytes_held_add [simp]: "bytes_held (add_mset g G) = (case g of MemoryGuard n \<Rightarrow> unat n | _ \<Rightarrow> 0) + bytes_held G"
  by (simp add: bytes_held_def)

text \<open>What a successful exchange does to its counter.\<close>

lemma target_sound:
  assumes "request_target b r c = Inr v"
  shows "case r of
      TryAllocate n \<Rightarrow> unat v = unat c + unat n \<and> v \<le> max_heap_bytes b
    | TryAddConnection \<Rightarrow> unat v = unat c + 1 \<and> v \<le> max_connections b
    | TryQueueOp \<Rightarrow> unat v = unat c + 1 \<and> v \<le> max_pending_ops b"
proof -
  have inc: "unat (c + 1) = unat c + 1 \<and> c + 1 \<le> m" if "\<not> m \<le> c" for m
  proof -
    have lt: "unat c < unat m" using that by (simp add: word_le_nat_alt)
    also have "\<dots> < 2 ^ 64" using unsigned_less[of m, where 'a = nat] by simp
    finally have "unat c + 1 < 2 ^ 64" using lt unsigned_less[of m, where 'a = nat] by simp
    then have "unat c + unat (1 :: u64) < 2 ^ LENGTH(64)" by simp
    then have "unat (c + 1) = unat c + 1" using unat_add_lem[of c 1] by simp
    with lt show ?thesis by (simp add: word_le_nat_alt)
  qed
  have add: "unat (c + n) = unat c + unat n" if "unat c + unat n < 2 ^ 64" for n
    using that unat_add_lem[of c n] by simp
  show ?thesis using assms inc add
    by (cases r) (auto simp: allocate_target_def checked_add_def connection_target_def op_target_def
        split: if_splits)
qed

lemma compare_exchange_within:
  assumes "within_budget b (t, ths)" and p: "p < length ths" and "compare_exchange spurious t (ths ! p) = (t', th)"
  shows "within_budget b (t', ths[p := th])"
proof (cases "\<exists>r c v. th_pc (ths ! p) = Loaded r c v \<and> counter_of r t = c \<and> \<not> spurious")
  case True
  then obtain r c v where pc: "th_pc (ths ! p) = Loaded r c v" and c: "counter_of r t = c" "\<not> spurious" by blast
  have "pc_ok b (th_pc (ths ! p))" using assms(1) p by (auto simp: within_budget_def)
  then have tgt: "request_target b r c = Inr v" by (simp add: pc pc_ok_def)
  from assms(3) pc c have t': "t' = set_counter r v t" and pc': "th_pc th = Outside" and gs: "th_guards th = guard_of r # th_guards (ths ! p)"
    by (auto simp: compare_exchange_def)
  have ok: "\<forall>th' \<in> set (ths[p := th]). pc_ok b (th_pc th')"
    using assms(1) pc' set_update_subset_insert[of ths p th] by (auto simp: within_budget_def pc_ok_def)
  show ?thesis
    using assms(1) target_sound[OF tgt] c(1) ok guards_of_add[OF p gs]
    by (cases r) (auto simp: within_budget_def t')
next
  case False
  then have "t' = t" and "th_guards th = th_guards (ths ! p)" and "pc_ok b (th_pc th)"
    using assms by (auto simp: compare_exchange_def pc_ok_def within_budget_def split: program_counter.splits if_splits)
  then show ?thesis
    using assms(1) p guards_of_same[OF p, of th] set_update_subset_insert[of ths p th] by (auto simp: within_budget_def)
qed

lemma release_guard_within:
  assumes "within_budget b (t, ths)" and p: "p < length ths"
  shows "\<exists>t' th. release_guard i t (ths ! p) = Some (t', th) \<and> within_budget b (t', ths[p := th])"
proof (cases "th_pc (ths ! p) = Outside \<and> i < length (th_guards (ths ! p))")
  case True
  let ?th = "(ths ! p)\<lparr>th_guards := take i (th_guards (ths ! p)) @ drop (Suc i) (th_guards (ths ! p))\<rparr>"
  let ?g = "th_guards (ths ! p) ! i"
  have G: "guards_of ths = add_mset ?g (guards_of (ths[p := ?th]))" using True by (intro guards_of_drop[OF p]) auto
  have ok: "\<forall>th' \<in> set (ths[p := ?th]). pc_ok b (th_pc th')"
    using assms(1) True set_update_subset_insert[of ths p ?th] by (auto simp: within_budget_def pc_ok_def)
  have sub: "m \<le> x \<Longrightarrow> x - m \<le> x \<and> unat (x - m) = unat x - unat m" for x m :: u64
    by (simp add: word_le_nat_alt unat_sub)
  obtain t' where "drop_guard ?g t = Some t'" and "within_budget b (t', ths[p := ?th])"
    using assms(1) G ok
    by (cases ?g) (auto simp: within_budget_def word_le_nat_alt unat_sub)
  with True show ?thesis by (auto simp: release_guard_def)
qed (use assms in \<open>auto simp: release_guard_def\<close>)

lemma device_step_within: "within_budget b s \<Longrightarrow> \<exists>s'. device_step e s = Some s' \<and> within_budget b s'"
proof (induction e s rule: device_step.induct)
  case (1 p r t ths)
  have "pc_ok b (th_pc (invoke r (ths ! p)))" "th_guards (invoke r (ths ! p)) = th_guards (ths ! p)" if "p < length ths"
    using 1 that by (auto simp: invoke_def within_budget_def pc_ok_def)
  then show ?case using 1 guards_of_same[of p ths] set_update_subset_insert[of ths p "invoke r (ths ! p)"]
    by (auto simp: within_budget_def)
next
  case (2 p t ths)
  have "pc_ok b (th_pc (load_counter t (ths ! p)))" "th_guards (load_counter t (ths ! p)) = th_guards (ths ! p)" if "p < length ths"
  proof -
    have "pc_ok b (th_pc (ths ! p))" "mt_budget t = b" using 2 that by (auto simp: within_budget_def)
    then show "pc_ok b (th_pc (load_counter t (ths ! p)))" "th_guards (load_counter t (ths ! p)) = th_guards (ths ! p)"
      by (auto simp: load_counter_def pc_ok_def split: program_counter.splits sum.splits)
  qed
  then show ?case using 2 guards_of_same[of p ths] set_update_subset_insert[of ths p "load_counter t (ths ! p)"]
    by (auto simp: within_budget_def)
next
  case (3 p spurious t ths)
  then show ?case using compare_exchange_within[of b t ths p spurious] by (auto split: prod.splits)
next
  case (4 p i t ths)
  then show ?case using release_guard_within[of b t ths p i] by auto
qed

lemma reachable_within: "reachable b n s \<Longrightarrow> within_budget b s"
proof (induction rule: reachable.induct)
  case start
  have "guards_of (replicate n idle_thread) = {#}" by (induction n) (auto simp: guards_of_def idle_thread_def)
  then show ?case by (auto simp: within_budget_def new_tracker_def idle_thread_def pc_ok_def bytes_held_def)
next
  case (step s e s')
  with device_step_within[OF step.IH, of e] show ?case by auto
qed

text \<open>
  C17: Budgets hold under every interleaving. Whatever the threads call and however their atomic
  operations interleave, also when exchanges fail spuriously, the memory, connections and
  operations handed out are what the guards alive hold, are counted exactly without wrapping
  and stay within the budget, and no event violates an assertion.
\<close>

theorem budget_never_exceeded:
  assumes "reachable b n (t, ths)"
  shows "(\<Sum>g \<in># guards_of ths. case g of MemoryGuard k \<Rightarrow> unat k | _ \<Rightarrow> 0) = unat (mt_allocated t) \<and>
    mt_allocated t \<le> max_heap_bytes b \<and>
    count (guards_of ths) ConnectionGuard = unat (mt_connections t) \<and> mt_connections t \<le> max_connections b \<and>
    count (guards_of ths) OpGuard = unat (mt_pending_ops t) \<and> mt_pending_ops t \<le> max_pending_ops b \<and>
    device_step e (t, ths) \<noteq> None"
proof -
  have "within_budget b (t, ths)" using assms by (rule reachable_within)
  with device_step_within[OF this, of e] show ?thesis by (auto simp: within_budget_def bytes_held_def)
qed

lemma reachable_run: "reachable b n s \<Longrightarrow> foldl (\<lambda>x e. Option.bind x (device_step e)) (Some s) es = Some s' \<Longrightarrow> reachable b n s'"
proof (induction es arbitrary: s)
  case (Cons e es)
  have "foldl (\<lambda>x e. Option.bind x (device_step e)) None ys = None" for ys by (induction ys) auto
  with Cons.prems(2) obtain s1 where "device_step e s = Some s1" by (cases "device_step e s") auto
  with Cons reachable.step[OF Cons.prems(1) this] show ?case by auto
qed simp

text \<open>Two threads race for 60 of 100 bytes; the slower one fails after reloading.\<close>

definition race :: "atomic_event list" where
  "race = [Invoke 0 (TryAllocate 60), Invoke 1 (TryAllocate 60), Load 0, Load 1, CompareExchange 0 False,
     CompareExchange 1 False, Load 1]"

definition race_budget :: memory_budget where
  "race_budget = \<lparr>max_heap_bytes = 100, max_message_size = 10, max_connections = 1, max_pending_ops = 1\<rparr>"

definition after_race :: device where
  "after_race = ((new_tracker race_budget)\<lparr>mt_allocated := 60\<rparr>,
     [\<lparr>th_pc = Outside, th_guards = [MemoryGuard 60], th_result = Inr (MemoryGuard 60)\<rparr>,
      \<lparr>th_pc = Outside, th_guards = [], th_result = Inl (BudgetExceeded 60 40)\<rparr>])"

lemma race_result:
  "foldl (\<lambda>x e. Option.bind x (device_step e)) (Some (new_tracker race_budget, replicate 2 idle_thread)) race = Some after_race"
proof -
  have two: "replicate 2 idle_thread = [idle_thread, idle_thread]" by (simp add: eval_nat_numeral)
  show ?thesis unfolding two
    by (simp add: race_def race_budget_def after_race_def new_tracker_def idle_thread_def invoke_def load_counter_def
        compare_exchange_def allocate_target_def checked_add_def saturating_sub_def)
qed

theorem budget_never_exceeded_witness:
  "mt_allocated (fst after_race) \<le> 100 \<and> device_step (DropGuard 0 0) after_race \<noteq> None"
proof -
  have "reachable race_budget 2 after_race" by (rule reachable_run[OF reachable.start race_result])
  then have "reachable race_budget 2 (fst after_race, snd after_race)" by simp
  from budget_never_exceeded[OF this, of "DropGuard 0 0"] show ?thesis by (simp add: race_budget_def)
qed

text \<open>Without interference a call ends after one iteration, with the guard exactly when the budget allows it.\<close>

lemma uncontended_call:
  assumes "th_pc th = Outside"
  shows "case request_target (mt_budget t) r (counter_of r t) of
      Inl e \<Rightarrow> device_step (Load 0) (t, [invoke r th]) = Some (t, [th\<lparr>th_result := Inl e\<rparr>])
    | Inr v \<Rightarrow> Option.bind (device_step (Load 0) (t, [invoke r th])) (device_step (CompareExchange 0 False)) =
        Some (set_counter r v t, [th\<lparr>th_guards := guard_of r # th_guards th, th_result := Inr (guard_of r)\<rparr>])"
  using assms by (cases th) (auto simp: invoke_def load_counter_def compare_exchange_def split: sum.splits)

section \<open>Buffer pool\<close>

record buffer_pool =
  bp_buffers :: "bytes option list"
  bp_buffer_size :: nat
  bp_available :: nat

record pooled_buffer =
  pb_buffer :: bytes
  pb_index :: nat

definition new_pool :: "nat \<Rightarrow> nat \<Rightarrow> buffer_pool option" where
  "new_pool n buffer_size =
    (if buffer_size > 0 then Some \<lparr>bp_buffers = replicate n (Some (replicate buffer_size 0)), bp_buffer_size = buffer_size, bp_available = n\<rparr>
     else None)"

fun first_buffer :: "nat \<Rightarrow> bytes option list \<Rightarrow> (nat \<times> bytes) option" where
  "first_buffer i [] = None"
| "first_buffer i (Some b # bs) = Some (i, b)"
| "first_buffer i (None # bs) = first_buffer (Suc i) bs"

definition try_acquire :: "buffer_pool \<Rightarrow> pooled_buffer option \<times> buffer_pool" where
  "try_acquire bp =
    (case first_buffer 0 (bp_buffers bp) of
       None \<Rightarrow> (None, bp)
     | Some (i, b) \<Rightarrow> (Some \<lparr>pb_buffer = b, pb_index = i\<rparr>,
          bp\<lparr>bp_buffers := (bp_buffers bp)[i := None], bp_available := bp_available bp - 1\<rparr>))"

text \<open>\<open>Vec::fill\<close> and \<open>Vec::resize\<close> with zeros.\<close>

definition vec_resize :: "nat \<Rightarrow> bytes \<Rightarrow> bytes" where
  "vec_resize n xs = take n xs @ replicate (n - length xs) 0"

definition pool_release :: "pooled_buffer \<Rightarrow> buffer_pool \<Rightarrow> buffer_pool option" where
  "pool_release pb bp =
    (if pb_index pb < length (bp_buffers bp) \<and> bp_buffers bp ! pb_index pb = None
     then
      let buffer = vec_resize (bp_buffer_size bp) (replicate (length (pb_buffer pb)) 0) in
      Some (bp\<lparr>bp_buffers := (bp_buffers bp)[pb_index pb := Some buffer], bp_available := bp_available bp + 1\<rparr>)
     else None)"

definition pool_in_use :: "buffer_pool \<Rightarrow> nat" where
  "pool_in_use bp = length (bp_buffers bp) - bp_available bp"

text \<open>A client that acquires buffers, writes anything of any length into them and gives them back.\<close>

datatype pool_call = Acquire | Write nat bytes | Release nat

fun pool_step :: "pool_call \<Rightarrow> buffer_pool \<times> pooled_buffer list \<Rightarrow> (buffer_pool \<times> pooled_buffer list) option" where
  "pool_step Acquire (bp, held) =
    (case try_acquire bp of (None, bp) \<Rightarrow> Some (bp, held) | (Some pb, bp) \<Rightarrow> Some (bp, pb # held))"
| "pool_step (Write i bs) (bp, held) =
    Some (bp, if i < length held then held[i := (held ! i)\<lparr>pb_buffer := bs\<rparr>] else held)"
| "pool_step (Release i) (bp, held) =
    (if i < length held then map_option (\<lambda>bp. (bp, take i held @ drop (Suc i) held)) (pool_release (held ! i) bp)
     else Some (bp, held))"

definition pool_ok :: "buffer_pool \<times> pooled_buffer list \<Rightarrow> bool" where
  "pool_ok s \<longleftrightarrow> (case s of (bp, held) \<Rightarrow>
    (\<forall>i < length (bp_buffers bp). \<forall>xs. bp_buffers bp ! i = Some xs \<longrightarrow> xs = replicate (bp_buffer_size bp) 0) \<and>
    distinct (map pb_index held) \<and> set (map pb_index held) = {i. i < length (bp_buffers bp) \<and> bp_buffers bp ! i = None} \<and>
    bp_available bp + length held = length (bp_buffers bp))"

lemma first_buffer_Some:
  "first_buffer k bs = Some (i, b) \<Longrightarrow> k \<le> i \<and> i - k < length bs \<and> bs ! (i - k) = Some b"
  by (induction k bs rule: first_buffer.induct) (auto simp: nth_Cons' Suc_diff_le)

lemma first_buffer_None: "first_buffer k bs = None \<longleftrightarrow> (\<forall>i < length bs. bs ! i = None)"
  by (induction k bs rule: first_buffer.induct) (auto simp: nth_Cons' less_Suc_eq_0_disj)

lemma vec_resize_zeros [simp]: "vec_resize n (replicate k 0) = replicate n 0"
  by (simp add: vec_resize_def take_replicate replicate_add[symmetric] min_def)

lemma acquire_ok:
  assumes "pool_ok (bp, held)" and "try_acquire bp = (r, bp')"
  shows "case r of None \<Rightarrow> bp' = bp \<and> bp_available bp = 0
    | Some pb \<Rightarrow> pool_ok (bp', pb # held) \<and> pb_buffer pb = replicate (bp_buffer_size bp) 0"
proof -
  have S: "set (map pb_index held) = {i. i < length (bp_buffers bp) \<and> bp_buffers bp ! i = None}"
    and D: "distinct (map pb_index held)" and L: "bp_available bp + length held = length (bp_buffers bp)"
    and Z: "\<And>i xs. i < length (bp_buffers bp) \<Longrightarrow> bp_buffers bp ! i = Some xs \<Longrightarrow> xs = replicate (bp_buffer_size bp) 0"
    using assms(1) by (simp_all add: pool_ok_def)
  have C: "length held = card (set (map pb_index held))" using distinct_card[OF D] by simp
  show ?thesis
  proof (cases "first_buffer 0 (bp_buffers bp)")
    case None
    then have "{i. i < length (bp_buffers bp) \<and> bp_buffers bp ! i = None} = {..<length (bp_buffers bp)}"
      by (auto simp: first_buffer_None)
    then have "length held = length (bp_buffers bp)" unfolding C S by simp
    with L None assms(2) show ?thesis by (auto simp: try_acquire_def)
  next
    case (Some ib)
    obtain i b where ib: "ib = (i, b)" by (cases ib)
    then have i: "i < length (bp_buffers bp)" "bp_buffers bp ! i = Some b"
      using first_buffer_Some[of 0 "bp_buffers bp" i b] Some by auto
    have "set (map pb_index held) \<subseteq> {..<length (bp_buffers bp)} - {i}" unfolding S using i by auto
    then have "length held \<le> card ({..<length (bp_buffers bp)} - {i})" unfolding C by (intro card_mono) auto
    with i have lt: "length held < length (bp_buffers bp)" by simp
    let ?bs = "(bp_buffers bp)[i := None]"
    have r: "r = Some \<lparr>pb_buffer = b, pb_index = i\<rparr>"
      and bp': "bp' = bp\<lparr>bp_buffers := ?bs, bp_available := bp_available bp - 1\<rparr>"
      using assms(2) Some ib by (simp_all add: try_acquire_def)
    have "distinct (i # map pb_index held)" using D S i by auto
    moreover have "insert i (set (map pb_index held)) = {j. j < length ?bs \<and> ?bs ! j = None}"
      unfolding S using i by (auto simp: nth_list_update)
    moreover have "\<forall>j < length ?bs. \<forall>xs. ?bs ! j = Some xs \<longrightarrow> xs = replicate (bp_buffer_size bp) 0"
    proof (intro allI impI)
      fix j xs assume "j < length ?bs" and "?bs ! j = Some xs"
      then show "xs = replicate (bp_buffer_size bp) 0" using Z[of j xs] by (cases "j = i") simp_all
    qed
    moreover have "bp_available bp - 1 + length (\<lparr>pb_buffer = b, pb_index = i\<rparr> # held) = length ?bs" using L lt by simp
    ultimately have "pool_ok (bp', \<lparr>pb_buffer = b, pb_index = i\<rparr> # held)" unfolding pool_ok_def prod.case bp' by (intro conjI) simp_all
    with Z[OF i] r show ?thesis by simp
  qed
qed

lemma release_ok:
  assumes "pool_ok (bp, held)" and i: "i < length held"
  shows "\<exists>bp'. pool_release (held ! i) bp = Some bp' \<and> pool_ok (bp', take i held @ drop (Suc i) held) \<and>
    bp_buffer_size bp' = bp_buffer_size bp \<and> length (bp_buffers bp') = length (bp_buffers bp)"
proof -
  let ?k = "pb_index (held ! i)" and ?rest = "take i held @ drop (Suc i) held"
  have join: "take i held @ held ! i # drop (Suc i) held = held" by (rule id_take_nth_drop[OF i, symmetric])
  have d: "distinct (map pb_index (take i held @ held ! i # drop (Suc i) held))" unfolding join using assms(1) by (simp add: pool_ok_def)
  have S: "set (map pb_index held) = {i. i < length (bp_buffers bp) \<and> bp_buffers bp ! i = None}"
    using assms(1) by (simp add: pool_ok_def)
  have "?k \<in> set (map pb_index held)" using i by simp
  then have k: "?k < length (bp_buffers bp)" "bp_buffers bp ! ?k = None" unfolding S by simp_all
  have "set (map pb_index (take i held @ held ! i # drop (Suc i) held)) = insert ?k (set (map pb_index ?rest))" by simp
  then have "set (map pb_index held) = insert ?k (set (map pb_index ?rest))" unfolding join .
  moreover have "?k \<notin> set (map pb_index ?rest)" using d by auto
  ultimately have r: "set (map pb_index ?rest) = set (map pb_index held) - {?k}" by simp
  have l: "length ?rest + 1 = length held" using i by simp
  let ?bs = "(bp_buffers bp)[?k := Some (replicate (bp_buffer_size bp) 0)]"
  let ?bp = "bp\<lparr>bp_buffers := ?bs, bp_available := bp_available bp + 1\<rparr>"
  have rel: "pool_release (held ! i) bp = Some ?bp" using k by (simp add: pool_release_def Let_def)
  have "distinct (map pb_index ?rest)" using d by simp
  moreover have "set (map pb_index ?rest) = {j. j < length ?bs \<and> ?bs ! j = None}"
    unfolding r S using k by (auto simp: nth_list_update)
  moreover have "\<forall>j < length ?bs. \<forall>xs. ?bs ! j = Some xs \<longrightarrow> xs = replicate (bp_buffer_size bp) 0"
  proof (intro allI impI)
    fix j xs assume "j < length ?bs" and "?bs ! j = Some xs"
    then show "xs = replicate (bp_buffer_size bp) 0"
      using assms(1) k(1) by (cases "j = ?k") (simp_all add: pool_ok_def)
  qed
  moreover have "bp_available bp + 1 + length ?rest = length ?bs"
  proof -
    have "bp_available bp + length held = length ?bs" using assms(1) by (simp add: pool_ok_def)
    with l show ?thesis by linarith
  qed
  ultimately have ok: "pool_ok (?bp, ?rest)" unfolding pool_ok_def prod.case by (intro conjI) simp_all
  have "bp_buffer_size ?bp = bp_buffer_size bp \<and> length (bp_buffers ?bp) = length (bp_buffers bp)" by simp
  with rel ok show ?thesis by blast
qed

lemma pool_step_ok:
  assumes "pool_ok (bp, held)"
  shows "\<exists>bp' held'. pool_step c (bp, held) = Some (bp', held') \<and> pool_ok (bp', held') \<and> bp_buffer_size bp' = bp_buffer_size bp \<and>
    length (bp_buffers bp') = length (bp_buffers bp)"
proof (cases c)
  case Acquire
  obtain r bp' where a: "try_acquire bp = (r, bp')" by (cases "try_acquire bp")
  have same: "bp_buffer_size bp' = bp_buffer_size bp" "length (bp_buffers bp') = length (bp_buffers bp)"
    using a by (auto simp: try_acquire_def split: option.splits prod.splits)
  show ?thesis
  proof (cases r)
    case None
    with acquire_ok[OF assms a] have "bp' = bp" by simp
    with assms a None show ?thesis by (simp add: Acquire)
  next
    case (Some pb)
    with acquire_ok[OF assms a] have "pool_ok (bp', pb # held)" by simp
    with a Some same show ?thesis by (simp add: Acquire)
  qed
next
  case (Write i bs)
  have "map pb_index (held[i := (held ! i)\<lparr>pb_buffer := bs\<rparr>]) = map pb_index held" if "i < length held"
    using that by (simp add: map_update list_update_same_conv)
  then have "pool_ok (bp, if i < length held then held[i := (held ! i)\<lparr>pb_buffer := bs\<rparr>] else held)"
    using assms unfolding pool_ok_def by (simp del: map_update set_map)
  then show ?thesis by (simp add: Write)
next
  case (Release i)
  show ?thesis
  proof (cases "i < length held")
    case True
    from release_ok[OF assms True] obtain bp' where "pool_release (held ! i) bp = Some bp'"
      and "pool_ok (bp', take i held @ drop (Suc i) held)" and "bp_buffer_size bp' = bp_buffer_size bp"
      and "length (bp_buffers bp') = length (bp_buffers bp)" by (elim exE conjE)
    then show ?thesis using True by (simp add: Release)
  qed (simp add: Release assms)
qed

lemma pool_steps_ok:
  "pool_ok s \<Longrightarrow> \<exists>s'. foldl (\<lambda>x c. Option.bind x (pool_step c)) (Some s) cs = Some s' \<and> pool_ok s' \<and>
    bp_buffer_size (fst s') = bp_buffer_size (fst s) \<and> length (bp_buffers (fst s')) = length (bp_buffers (fst s))"
proof (induction cs arbitrary: s)
  case (Cons c cs)
  obtain bp held where s: "s = (bp, held)" by (cases s)
  have "pool_ok (bp, held)" using Cons.prems by (simp add: s)
  from pool_step_ok[OF this, of c] obtain bp1 held1 where step: "pool_step c s = Some (bp1, held1)"
    and ok: "pool_ok (bp1, held1)" and same: "bp_buffer_size bp1 = bp_buffer_size bp" "length (bp_buffers bp1) = length (bp_buffers bp)"
    unfolding s by (elim exE conjE)
  from Cons.IH[OF ok] same step show ?case by (simp add: s)
qed simp

text \<open>
  The pool gives out clean buffers and loses none. However a client acquires buffers,
  overwrites or resizes them and gives them back, no call panics; every buffer it acquires is
  all zeros and of the configured size, so nothing of an earlier use is left in it; a buffer
  is refused only while all are in use, and the counter of free buffers is exact.
\<close>

theorem pool_buffers_clean:
  assumes "new_pool n k = Some bp0"
  shows "\<exists>bp held. foldl (\<lambda>x c. Option.bind x (pool_step c)) (Some (bp0, [])) cs = Some (bp, held) \<and>
    length held = pool_in_use bp \<and>
    (case try_acquire bp of
       (None, bp') \<Rightarrow> bp' = bp \<and> length held = n
     | (Some pb, bp') \<Rightarrow> pb_buffer pb = replicate k 0 \<and> pb_index pb \<notin> set (map pb_index held) \<and> length held < n)"
proof -
  have new: "bp0 = \<lparr>bp_buffers = replicate n (Some (replicate k 0)), bp_buffer_size = k, bp_available = n\<rparr>"
    using assms by (auto simp: new_pool_def split: if_splits)
  then have "pool_ok (bp0, [])" by (simp add: pool_ok_def)
  from pool_steps_ok[OF this, of cs] obtain bp held where
    run: "foldl (\<lambda>x c. Option.bind x (pool_step c)) (Some (bp0, [])) cs = Some (bp, held)" and ok: "pool_ok (bp, held)"
    and k: "bp_buffer_size bp = k" and n: "length (bp_buffers bp) = n" by (auto simp: new)
  have L: "bp_available bp + length held = n" using ok n by (simp add: pool_ok_def)
  obtain r bp' where a: "try_acquire bp = (r, bp')" by (cases "try_acquire bp")
  have "case r of None \<Rightarrow> bp' = bp \<and> length held = n
      | Some pb \<Rightarrow> pb_buffer pb = replicate k 0 \<and> pb_index pb \<notin> set (map pb_index held) \<and> length held < n"
  proof (cases r)
    case None
    with acquire_ok[OF ok a] L show ?thesis by simp
  next
    case (Some pb)
    with acquire_ok[OF ok a] have ok': "pool_ok (bp', pb # held)" and b: "pb_buffer pb = replicate k 0" by (simp_all add: k)
    have "length (bp_buffers bp') = n" using a n by (auto simp: try_acquire_def split: option.splits prod.splits)
    with ok' b Some show ?thesis by (simp add: pool_ok_def)
  qed
  then have "case try_acquire bp of
       (None, bp') \<Rightarrow> bp' = bp \<and> length held = n
     | (Some pb, bp') \<Rightarrow> pb_buffer pb = replicate k 0 \<and> pb_index pb \<notin> set (map pb_index held) \<and> length held < n"
    by (simp add: a split: option.splits)
  moreover have "length held = pool_in_use bp" using L by (simp add: pool_in_use_def n)
  ultimately show ?thesis using run by (intro exI[of _ bp] exI[of _ held] conjI)
qed

theorem pool_buffers_clean_witness:
  "\<exists>bp0 bp held. new_pool 2 3 = Some bp0 \<and>
    foldl (\<lambda>x c. Option.bind x (pool_step c)) (Some (bp0, [])) [Acquire, Write 0 [7, 7, 7, 7], Release 0] = Some (bp, held) \<and>
    length held = pool_in_use bp"
proof -
  obtain bp0 where n: "new_pool 2 3 = Some bp0" by (simp add: new_pool_def)
  from pool_buffers_clean[OF n, of "[Acquire, Write 0 [7, 7, 7, 7], Release 0]"] n show ?thesis by blast
qed

end
