(* ===== verification/Duty_Cycle.thy ===== *)
theory Duty_Cycle
  imports Prelude Complex_Main
begin

text \<open>
  Power states of battery-powered devices, \<open>indras-iot/src/duty_cycle.rs\<close>. Durations and instants
  are nanoseconds; the current instant is the argument \<open>now\<close> of every operation that reads the
  clock, and a battery level is a finite number; the thresholds are the decimals that their
  literals spell. The counter of pending operations saturates as a
  \<open>usize\<close> does.
\<close>

section \<open>Configuration\<close>

type_synonym duration = nat

definition secs :: "nat \<Rightarrow> duration" where
  "secs n = n * 1000000000"

definition duration_max :: duration where
  "duration_max = (2 ^ 64 - 1) * 1000000000 + 999999999"

definition saturating_mul :: "duration \<Rightarrow> nat \<Rightarrow> duration" where
  "saturating_mul d n = min (d * n) duration_max"

record duty_config =
  active_duration :: duration
  sleep_duration :: duration
  min_sync_interval :: duration
  max_pending_before_wake :: nat
  low_battery_threshold :: rat

definition default_duty :: duty_config where
  "default_duty =
    \<lparr>active_duration = secs 30, sleep_duration = secs 270, min_sync_interval = secs 60,
     max_pending_before_wake = 10, low_battery_threshold = 2 / 10\<rparr>"

definition low_power :: duty_config where
  "low_power =
    \<lparr>active_duration = secs 10, sleep_duration = secs 590, min_sync_interval = secs 300,
     max_pending_before_wake = 20, low_battery_threshold = 1 / 10\<rparr>"

definition balanced :: duty_config where
  "balanced = default_duty"

definition responsive :: duty_config where
  "responsive =
    \<lparr>active_duration = secs 60, sleep_duration = secs 60, min_sync_interval = secs 30,
     max_pending_before_wake = 5, low_battery_threshold = 3 / 10\<rparr>"

datatype power_state = Active | PreSleep | Sleeping | Waking

datatype duty_error = NotAllowedInState power_state | TooManyPending nat

record duty_manager =
  dm_config :: duty_config
  dm_state :: power_state
  dm_state_entered :: nat
  dm_last_sync :: "nat option"
  dm_pending :: nat
  dm_battery :: rat

definition new_duty :: "nat \<Rightarrow> duty_config \<Rightarrow> duty_manager" where
  "new_duty now c =
    \<lparr>dm_config = c, dm_state = Active, dm_state_entered = now, dm_last_sync = None, dm_pending = 0, dm_battery = 1\<rparr>"

section \<open>Operations\<close>

definition set_battery_level :: "rat \<Rightarrow> duty_manager \<Rightarrow> duty_manager" where
  "set_battery_level level m = m\<lparr>dm_battery := (if level < 0 then 0 else if level > 1 then 1 else level)\<rparr>"

definition should_allow_operation :: "duty_manager \<Rightarrow> bool \<Rightarrow> bool" where
  "should_allow_operation m urgent =
    (case dm_state m of
       Active \<Rightarrow> True
     | Waking \<Rightarrow> True
     | PreSleep \<Rightarrow> urgent
     | Sleeping \<Rightarrow> urgent \<or> dm_pending m \<ge> max_pending_before_wake (dm_config m))"

definition should_sync :: "nat \<Rightarrow> duty_manager \<Rightarrow> bool" where
  "should_sync now m =
    (if dm_state m \<noteq> Active then False
     else case dm_last_sync m of None \<Rightarrow> True | Some t \<Rightarrow> now - t \<ge> min_sync_interval (dm_config m))"

definition record_sync :: "nat \<Rightarrow> duty_manager \<Rightarrow> duty_manager" where
  "record_sync now m = m\<lparr>dm_last_sync := Some now\<rparr>"

definition transition_to :: "nat \<Rightarrow> power_state \<Rightarrow> duty_manager \<Rightarrow> duty_manager" where
  "transition_to now st m = m\<lparr>dm_state := st, dm_state_entered := now\<rparr>"

definition wake :: "nat \<Rightarrow> duty_manager \<Rightarrow> duty_manager" where
  "wake now m = (if dm_state m = Sleeping \<or> dm_state m = PreSleep then transition_to now Waking m else m)"

definition force_sleep :: "nat \<Rightarrow> duty_manager \<Rightarrow> duty_manager" where
  "force_sleep now m = (if dm_state m = Active then transition_to now PreSleep m else m)"

definition add_pending :: "nat \<Rightarrow> duty_manager \<Rightarrow> (duty_error + unit) \<times> duty_manager" where
  "add_pending now m =
    (let m = m\<lparr>dm_pending := min (dm_pending m + 1) (2 ^ 64 - 1)\<rparr> in
     if dm_pending m > max_pending_before_wake (dm_config m) * 2 mod 2 ^ 64 then (Inl (TooManyPending (dm_pending m)), m)
     else if dm_state m = Sleeping \<and> dm_pending m \<ge> max_pending_before_wake (dm_config m) then (Inr (), wake now m)
     else (Inr (), m))"

definition complete_pending :: "duty_manager \<Rightarrow> duty_manager" where
  "complete_pending m = m\<lparr>dm_pending := dm_pending m - 1\<rparr>"

definition clear_pending_ops :: "duty_manager \<Rightarrow> duty_manager" where
  "clear_pending_ops m = m\<lparr>dm_pending := 0\<rparr>"

definition effective_sleep :: "duty_manager \<Rightarrow> duration" where
  "effective_sleep m =
    (if dm_battery m < low_battery_threshold (dm_config m) then saturating_mul (sleep_duration (dm_config m)) 2
     else sleep_duration (dm_config m))"

definition tick :: "nat \<Rightarrow> duty_manager \<Rightarrow> duty_manager" where
  "tick now m =
    (let elapsed = now - dm_state_entered m in
     case dm_state m of
       Active \<Rightarrow> if elapsed \<ge> active_duration (dm_config m) then transition_to now PreSleep m else m
     | PreSleep \<Rightarrow> if elapsed \<ge> secs 5 then transition_to now Sleeping m else m
     | Sleeping \<Rightarrow> if elapsed \<ge> effective_sleep m then transition_to now Waking m else m
     | Waking \<Rightarrow> if elapsed \<ge> secs 2 then transition_to now Active m else m)"

definition time_until_transition :: "nat \<Rightarrow> duty_manager \<Rightarrow> duration" where
  "time_until_transition now m =
    (let elapsed = now - dm_state_entered m;
         target = (case dm_state m of
             Active \<Rightarrow> active_duration (dm_config m) | PreSleep \<Rightarrow> secs 5 | Sleeping \<Rightarrow> effective_sleep m | Waking \<Rightarrow> secs 2)
     in target - elapsed)"

text \<open>The calls of a client at their instants.\<close>

datatype duty_call =
    DutyTick | DutyWake | DutySleep | DutyAdd | DutyComplete | DutyClear | DutyBattery rat | DutySync

fun duty_step :: "nat \<times> duty_call \<Rightarrow> duty_manager \<Rightarrow> duty_manager" where
  "duty_step (now, DutyTick) m = tick now m"
| "duty_step (now, DutyWake) m = wake now m"
| "duty_step (now, DutySleep) m = force_sleep now m"
| "duty_step (now, DutyAdd) m = snd (add_pending now m)"
| "duty_step (now, DutyComplete) m = complete_pending m"
| "duty_step (now, DutyClear) m = clear_pending_ops m"
| "duty_step (now, DutyBattery level) m = set_battery_level level m"
| "duty_step (now, DutySync) m = record_sync now m"

section \<open>Properties\<close>

fun next_state :: "power_state \<Rightarrow> power_state" where
  "next_state Active = PreSleep"
| "next_state PreSleep = Sleeping"
| "next_state Sleeping = Waking"
| "next_state Waking = Active"

lemmas duty_defs =
  tick_def wake_def force_sleep_def add_pending_def complete_pending_def clear_pending_ops_def set_battery_level_def
  record_sync_def transition_to_def Let_def

text \<open>
  The power states follow the documented cycle: a call leaves the state as it is or moves
  to the next one, except that a wake-up call may leave the preparation for sleep directly;
  \<open>tick\<close> moves exactly when \<open>time_until_transition\<close> is zero, and then
  the new state starts at this instant. In a state a call leaves, waiting as long as announced and
  ticking leaves it.
\<close>

theorem power_cycle:
  "(let m' = duty_step (now, c) m in
      dm_state m' = dm_state m \<and> dm_state_entered m' = dm_state_entered m \<or>
      dm_state_entered m' = now \<and>
        (dm_state m' = next_state (dm_state m) \<or> c = DutyWake \<and> dm_state m = PreSleep \<and> dm_state m' = Waking)) \<and>
    (dm_state (tick now m) = (if time_until_transition now m = 0 then next_state (dm_state m) else dm_state m)) \<and>
    dm_state (tick (max now (dm_state_entered m) + time_until_transition now m) m) = next_state (dm_state m)"
proof (intro conjI)
  show "let m' = duty_step (now, c) m in
      dm_state m' = dm_state m \<and> dm_state_entered m' = dm_state_entered m \<or>
      dm_state_entered m' = now \<and>
        (dm_state m' = next_state (dm_state m) \<or> c = DutyWake \<and> dm_state m = PreSleep \<and> dm_state m' = Waking)"
    by (cases c; cases "dm_state m") (simp_all add: duty_defs)
  show "dm_state (tick now m) = (if time_until_transition now m = 0 then next_state (dm_state m) else dm_state m)"
    by (cases "dm_state m") (auto simp: tick_def time_until_transition_def transition_to_def Let_def)
  show "dm_state (tick (max now (dm_state_entered m) + time_until_transition now m) m) = next_state (dm_state m)"
    by (cases "dm_state m") (auto simp: tick_def time_until_transition_def transition_to_def Let_def)
qed

text \<open>
  An operation that is refused is counted all the same, and a device whose queue filled up before it
  fell asleep is not woken by further operations.
\<close>

lemma refused_operation_counted:
  assumes "dm_pending m \<ge> 2 * max_pending_before_wake (dm_config m)" and "dm_pending m < 2 ^ 64 - 1"
  shows "add_pending now m = (Inl (TooManyPending (dm_pending m + 1)), m\<lparr>dm_pending := dm_pending m + 1\<rparr>)"
proof -
  have "min (Suc (dm_pending m)) (2 ^ 64 - 1) = Suc (dm_pending m)" using assms(2) by simp
  with assms(1) show ?thesis using mod_less_eq_dividend[of "max_pending_before_wake (dm_config m) * 2" "2 ^ 64"]
    by (simp add: add_pending_def Let_def del: mod_less_eq_dividend)
qed

lemma overfull_device_sleeps_on:
  "dm_state (fold duty_step
     [(0, DutyAdd), (0, DutyAdd), (secs 10, DutyTick), (secs 15, DutyTick), (secs 16, DutyAdd)]
     (new_duty 0 (low_power\<lparr>max_pending_before_wake := 1\<rparr>))) = Sleeping"
  by (simp add: new_duty_def low_power_def add_pending_def tick_def transition_to_def secs_def Let_def)

end
