(* ===== verification/Content_Index.thy ===== *)
theory Content_Index
  imports Prelude "HOL-Library.Char_ord"
begin

text \<open>
  Content-addressed indexes, \<open>indras-sync-engine/src/content_addr.rs\<close>: the map from logical paths to
  content addresses that is the state of a vault, the delta between two of them and their
  three-way merge; and the list form of an index, \<open>PatchManifest\<close> of \<open>braid/changeset.rs\<close>. A
  \<open>BTreeMap\<close> is a map whose entries are listed in the order of the keys.
\<close>

section \<open>Indexes\<close>

type_synonym logical_path = string

datatype content_addr = ContentAddr (ca_hash: bytes32) (ca_size: u64)

definition addr_from_bytes :: "(bytes \<Rightarrow> bytes32) \<Rightarrow> bytes \<Rightarrow> content_addr" where
  "addr_from_bytes b3 xs = ContentAddr (b3 xs) (of_nat (length xs))"

type_synonym symlink_index = "logical_path \<rightharpoonup> content_addr"

definition index_from_iter :: "(logical_path \<times> content_addr) list \<Rightarrow> symlink_index" where
  "index_from_iter xs = foldl (\<lambda>m (p, a). m(p \<mapsto> a)) Map.empty xs"

definition index_get :: "symlink_index \<Rightarrow> logical_path \<Rightarrow> content_addr option" where
  "index_get i p = i p"

definition index_set :: "logical_path \<Rightarrow> content_addr \<Rightarrow> symlink_index \<Rightarrow> symlink_index" where
  "index_set p a i = i(p \<mapsto> a)"

definition index_remove :: "logical_path \<Rightarrow> symlink_index \<Rightarrow> content_addr option \<times> symlink_index" where
  "index_remove p i = (i p, i(p := None))"

section \<open>Deltas\<close>

datatype delta_op = DeltaAdd content_addr | DeltaModify content_addr | DeltaDelete

type_synonym index_delta = "logical_path \<rightharpoonup> delta_op"

definition op_addr :: "delta_op \<Rightarrow> content_addr option" where
  "op_addr d = (case d of DeltaAdd a \<Rightarrow> Some a | DeltaModify a \<Rightarrow> Some a | DeltaDelete \<Rightarrow> None)"

text \<open>The two loops of \<open>diff\<close> insert operations at the paths of the new index and of the base.\<close>

definition index_diff :: "symlink_index \<Rightarrow> symlink_index \<Rightarrow> index_delta" where
  "index_diff new base p =
    (case new p of
       Some a \<Rightarrow> (case base p of None \<Rightarrow> Some (DeltaAdd a) | Some b \<Rightarrow> if b \<noteq> a then Some (DeltaModify a) else None)
     | None \<Rightarrow> (case base p of Some _ \<Rightarrow> Some DeltaDelete | None \<Rightarrow> None))"

definition index_apply :: "symlink_index \<Rightarrow> index_delta \<Rightarrow> symlink_index" where
  "index_apply i d p =
    (case d p of
       Some (DeltaAdd a) \<Rightarrow> Some a
     | Some (DeltaModify a) \<Rightarrow> Some a
     | Some DeltaDelete \<Rightarrow> None
     | None \<Rightarrow> i p)"

definition updated_addrs :: "index_delta \<Rightarrow> (logical_path \<times> content_addr) list" where
  "updated_addrs d = List.map_filter (\<lambda>(p, x). map_option (Pair p) (op_addr x)) (btree_entries d)"

definition deleted_paths :: "index_delta \<Rightarrow> logical_path list" where
  "deleted_paths d = List.map_filter (\<lambda>(p, x). if x = DeltaDelete then Some p else None) (btree_entries d)"

definition delta_from_root :: "symlink_index \<Rightarrow> index_delta" where
  "delta_from_root i p = map_option DeltaAdd (i p)"

section \<open>Three-way merge\<close>

record conflict =
  cf_path :: logical_path
  cf_ours :: content_addr
  cf_theirs :: content_addr
  cf_base :: "content_addr option"

definition deleted_sentinel :: content_addr where
  "deleted_sentinel = ContentAddr zeros32 0"

definition ours_deleted :: "conflict \<Rightarrow> bool" where
  "ours_deleted c \<longleftrightarrow> ca_hash (cf_ours c) = zeros32"

definition theirs_deleted :: "conflict \<Rightarrow> bool" where
  "theirs_deleted c \<longleftrightarrow> ca_hash (cf_theirs c) = zeros32"

text \<open>The arms of the match, in their order: what the merged index gets at a path, and the conflict.\<close>

definition merge_entry ::
  "logical_path \<Rightarrow> content_addr option \<Rightarrow> content_addr option \<Rightarrow> content_addr option \<Rightarrow> content_addr option \<times> conflict option" where
  "merge_entry p b ours theirs =
    (if b \<noteq> None \<and> ours = b \<and> theirs = b then (b, None)
     else if ours \<noteq> None \<and> theirs = b then (ours, None)
     else if theirs \<noteq> None \<and> ours = b then (theirs, None)
     else if ours \<noteq> None \<and> theirs \<noteq> None \<and> ours = theirs then (ours, None)
     else case (b, ours, theirs) of
       (_, None, None) \<Rightarrow> (None, None)
     | (_, Some ov, Some tv) \<Rightarrow> (Some tv, Some \<lparr>cf_path = p, cf_ours = ov, cf_theirs = tv, cf_base = b\<rparr>)
     | (Some _, None, Some tv) \<Rightarrow>
         (Some tv, Some \<lparr>cf_path = p, cf_ours = deleted_sentinel, cf_theirs = tv, cf_base = b\<rparr>)
     | (Some _, Some ov, None) \<Rightarrow>
         (Some ov, Some \<lparr>cf_path = p, cf_ours = ov, cf_theirs = deleted_sentinel, cf_base = b\<rparr>)
     | (None, Some ov, None) \<Rightarrow> (Some ov, None)
     | (None, None, Some tv) \<Rightarrow> (Some tv, None))"

definition three_way_merge :: "symlink_index \<Rightarrow> symlink_index \<Rightarrow> symlink_index \<Rightarrow> symlink_index \<times> conflict list" where
  "three_way_merge base ours theirs =
    ((\<lambda>p. fst (merge_entry p (base p) (ours p) (theirs p))),
     List.map_filter (\<lambda>p. snd (merge_entry p (base p) (ours p) (theirs p)))
       (sorted_list_of_set (dom base \<union> dom ours \<union> dom theirs)))"

section \<open>Manifests\<close>

record patch_file =
  pf_path :: string
  pf_hash :: bytes32
  pf_size :: u64

definition manifest_of_index :: "symlink_index \<Rightarrow> patch_file list" where
  "manifest_of_index i = map (\<lambda>(p, a). \<lparr>pf_path = p, pf_hash = ca_hash a, pf_size = ca_size a\<rparr>) (btree_entries i)"

definition index_of_manifest :: "patch_file list \<Rightarrow> symlink_index" where
  "index_of_manifest fs = index_from_iter (map (\<lambda>f. (pf_path f, ContentAddr (pf_hash f) (pf_size f))) fs)"

section \<open>Properties\<close>

text \<open>
  Deltas are exact: applying the difference between two indexes to the older one gives the
  newer one, the difference names exactly the paths whose content differs, and the difference
  from nothing rebuilds an index.
\<close>

theorem delta_roundtrip:
  "index_apply base (index_diff new base) = new \<and> dom (index_diff new base) = {p. new p \<noteq> base p} \<and>
    index_apply Map.empty (delta_from_root new) = new \<and> index_diff new Map.empty = delta_from_root new"
  by (auto simp: index_apply_def index_diff_def delta_from_root_def fun_eq_iff split: option.splits)

lemma index_from_iter_map_of: "index_from_iter xs = map_of (rev xs)"
proof -
  have "foldl (\<lambda>m (p, a). m(p \<mapsto> a)) m xs = m ++ map_of (rev xs)" for m
    by (induction xs arbitrary: m) (auto simp: map_add_def fun_eq_iff split: option.splits)
  from this[of Map.empty] show ?thesis by (simp add: index_from_iter_def)
qed

lemma map_of_rev_distinct: "distinct (map fst xs) \<Longrightarrow> map_of (rev xs) = map_of xs"
  using map_of_inject_set[of "rev xs" xs] by (simp add: rev_map[symmetric])

lemma manifest_roundtrip: "finite (dom i) \<Longrightarrow> index_of_manifest (manifest_of_index i) = i"
proof -
  assume fin: "finite (dom i)"
  have "map (\<lambda>f. (pf_path f, ContentAddr (pf_hash f) (pf_size f))) (manifest_of_index i) = btree_entries i"
    by (auto simp: manifest_of_index_def comp_def intro!: map_idI)
  moreover have "distinct (map fst (btree_entries i))" by (simp add: btree_entries_def comp_def)
  ultimately show ?thesis
    using fin by (simp add: index_of_manifest_def index_from_iter_map_of map_of_rev_distinct map_of_btree_entries)
qed

lemma set_map_filter: "set (List.map_filter f xs) = {y. \<exists>x \<in> set xs. f x = Some y}"
  by (induction xs) (auto simp: List.map_filter_def)

lemma merge_entry_path: "snd (merge_entry p b x y) = Some c \<Longrightarrow> cf_path c = p"
  by (auto simp: merge_entry_def split: if_splits option.splits)

lemma conflict_paths:
  "map cf_path (List.map_filter (\<lambda>p. snd (merge_entry p (f p) (g p) (h p))) ps) =
    filter (\<lambda>p. snd (merge_entry p (f p) (g p) (h p)) \<noteq> None) ps"
  by (induction ps) (auto simp: List.map_filter_def dest: merge_entry_path)

text \<open>
  C24: What a three-way merge does at each path. Where both sides have an entry, the side that
  differs from the base wins, and theirs when both do; where one side has none, the entry of
  the other is taken. The conflicts are listed in the order of the paths, each once: those
  where both sides changed the entry differently, and those of the base that exactly one side
  deleted, also when the other side left them alone.
\<close>

theorem three_way_merge_exact:
  assumes "finite (dom base)" and "finite (dom ours)" and "finite (dom theirs)"
    and "three_way_merge base ours theirs = (merged, conflicts)"
  shows "merged p = (if theirs p = None then ours p
      else if ours p = None \<or> theirs p \<noteq> base p then theirs p else ours p) \<and>
    sorted (map cf_path conflicts) \<and> distinct (map cf_path conflicts) \<and>
    (p \<in> set (map cf_path conflicts) \<longleftrightarrow> ours p \<noteq> theirs p \<and>
      (if ours p = None \<or> theirs p = None then base p \<noteq> None else ours p \<noteq> base p \<and> theirs p \<noteq> base p))"
proof -
  have m: "merged p = fst (merge_entry p (base p) (ours p) (theirs p))"
    and c: "map cf_path conflicts = filter (\<lambda>p. snd (merge_entry p (base p) (ours p) (theirs p)) \<noteq> None)
      (sorted_list_of_set (dom base \<union> dom ours \<union> dom theirs))"
    using assms(4) by (auto simp: three_way_merge_def conflict_paths)
  have "p \<in> set (map cf_path conflicts) \<longleftrightarrow>
      p \<in> dom base \<union> dom ours \<union> dom theirs \<and> snd (merge_entry p (base p) (ours p) (theirs p)) \<noteq> None"
    using assms(1-3) by (auto simp: c)
  moreover have "snd (merge_entry p (base p) (ours p) (theirs p)) \<noteq> None \<longleftrightarrow> ours p \<noteq> theirs p \<and>
      (if ours p = None \<or> theirs p = None then base p \<noteq> None else ours p \<noteq> base p \<and> theirs p \<noteq> base p)"
    by (cases "base p"; cases "ours p"; cases "theirs p") (auto simp: merge_entry_def)
  moreover have "merged p = (if theirs p = None then ours p
      else if ours p = None \<or> theirs p \<noteq> base p then theirs p else ours p)"
    unfolding m by (cases "base p"; cases "ours p"; cases "theirs p") (auto simp: merge_entry_def)
  moreover have "sorted (map cf_path conflicts)" "distinct (map cf_path conflicts)"
    unfolding c by (simp_all add: sorted_wrt_filter)
  ultimately show ?thesis by (auto split: if_splits)
qed

text \<open>A file that one side deleted and the other left alone comes back, with a conflict.\<close>

theorem three_way_merge_exact_witness:
  "\<exists>merged conflicts. three_way_merge [''a'' \<mapsto> ContentAddr [1] 1] Map.empty [''a'' \<mapsto> ContentAddr [1] 1] = (merged, conflicts) \<and>
    merged ''a'' = Some (ContentAddr [1] 1) \<and> ''a'' \<in> set (map cf_path conflicts)"
proof -
  let ?i = "[''a'' \<mapsto> ContentAddr [1] 1]"
  obtain merged conflicts where e: "three_way_merge ?i Map.empty ?i = (merged, conflicts)" by (cases "three_way_merge ?i Map.empty ?i")
  from three_way_merge_exact[OF _ _ _ e, of "''a''"] e show ?thesis by auto
qed

end
