(* ===== verification/Replication.thy ===== *)
theory Replication
  imports Prelude
begin

text \<open>
  The contract of replicated documents. \<open>DocumentSchema::merge\<close> of \<open>indras-network/src/document.rs\<close>
  merges the state of a peer into the own one; documents that override it are meant to converge,
  whatever the order and number of times in which states arrive. The locale states what
  \<open>merge\<close> has to satisfy on the states of one history and derives convergence; the documents
  interpret it. The section before it treats the two ways in which they merge maps.
\<close>

section \<open>Merging maps\<close>

text \<open>\<open>entry(k).or_insert(v)\<close> for every remote entry: the own entry stays.\<close>

definition merge_first :: "('k \<rightharpoonup> 'v) \<Rightarrow> ('k \<rightharpoonup> 'v) \<Rightarrow> 'k \<rightharpoonup> 'v" where
  "merge_first local remote k = (case local k of Some v \<Rightarrow> Some v | None \<Rightarrow> remote k)"

text \<open>Last writer wins: the remote entry replaces the own one if it is newer.\<close>

definition merge_newer :: "('v \<Rightarrow> 't :: linorder) \<Rightarrow> ('k \<rightharpoonup> 'v) \<Rightarrow> ('k \<rightharpoonup> 'v) \<Rightarrow> 'k \<rightharpoonup> 'v" where
  "merge_newer stamp local remote k =
    (case remote k of
       None \<Rightarrow> local k
     | Some r \<Rightarrow> (case local k of Some l \<Rightarrow> if stamp l \<ge> stamp r then Some l else Some r | None \<Rightarrow> Some r))"

text \<open>States of one history: a key names one entry, or one entry per time stamp.\<close>

definition entries_of :: "('k \<Rightarrow> 'v) \<Rightarrow> ('k \<rightharpoonup> 'v) \<Rightarrow> bool" where
  "entries_of U m \<longleftrightarrow> (\<forall>k v. m k = Some v \<longrightarrow> v = U k)"

definition writes_of :: "('k \<Rightarrow> 't \<Rightarrow> 'v) \<Rightarrow> ('v \<Rightarrow> 't) \<Rightarrow> ('k \<rightharpoonup> 'v) \<Rightarrow> bool" where
  "writes_of W stamp m \<longleftrightarrow> (\<forall>k v. m k = Some v \<longrightarrow> v = W k (stamp v))"

lemma entries_of_merge: "entries_of U a \<Longrightarrow> entries_of U b \<Longrightarrow> entries_of U (merge_first a b)"
  by (auto simp: entries_of_def merge_first_def split: option.splits)

lemma merge_first_laws:
  "merge_first a a = a" "merge_first (merge_first a b) c = merge_first a (merge_first b c)"
  by (auto simp: merge_first_def fun_eq_iff split: option.splits)

lemma merge_first_commute: "entries_of U a \<Longrightarrow> entries_of U b \<Longrightarrow> merge_first a b = merge_first b a"
  by (auto simp: entries_of_def merge_first_def fun_eq_iff split: option.splits)

lemma writes_of_merge: "writes_of W stamp a \<Longrightarrow> writes_of W stamp b \<Longrightarrow> writes_of W stamp (merge_newer stamp a b)"
  by (auto simp: writes_of_def merge_newer_def split: option.splits if_splits)

lemma merge_newer_laws:
  "merge_newer stamp a a = a" "merge_newer stamp (merge_newer stamp a b) c = merge_newer stamp a (merge_newer stamp b c)"
  by (auto simp: merge_newer_def fun_eq_iff split: option.splits)

lemma merge_newer_commute:
  assumes "writes_of W stamp a" and "writes_of W stamp b"
  shows "merge_newer stamp a b = merge_newer stamp b a"
proof
  fix k
  have "x = y" if "a k = Some x" "b k = Some y" "stamp x = stamp y" for x y
    using assms that by (metis writes_of_def)
  then show "merge_newer stamp a b k = merge_newer stamp b a k"
    by (auto simp: merge_newer_def split: option.splits)
qed

section \<open>Documents that converge\<close>

locale replicated_document =
  fixes merge :: "'d \<Rightarrow> 'd \<Rightarrow> 'd" and good :: "'d \<Rightarrow> bool"
  assumes merge_good: "good a \<Longrightarrow> good b \<Longrightarrow> good (merge a b)"
    and merge_idem: "good a \<Longrightarrow> merge a a = a"
    and merge_commute: "good a \<Longrightarrow> good b \<Longrightarrow> merge a b = merge b a"
    and merge_assoc: "good a \<Longrightarrow> good b \<Longrightarrow> good c \<Longrightarrow> merge (merge a b) c = merge a (merge b c)"
begin

lemma receive_good: "good d \<Longrightarrow> list_all good xs \<Longrightarrow> good (foldl merge d xs)"
  by (induction xs arbitrary: d) (auto simp: merge_good)

lemma keeps_own: "good d \<Longrightarrow> list_all good xs \<Longrightarrow> merge d (foldl merge d xs) = foldl merge d xs"
proof (induction xs rule: rev_induct)
  case (snoc x xs)
  then have "good (foldl merge d xs)" by (intro receive_good) auto
  with snoc merge_assoc[of d "foldl merge d xs" x] show ?case by simp
qed (simp add: merge_idem)

text \<open>A state that was received is contained in the result: merging it again changes nothing.\<close>

lemma absorbs: "good d \<Longrightarrow> list_all good xs \<Longrightarrow> x \<in> set xs \<Longrightarrow> merge x (foldl merge d xs) = foldl merge d xs"
proof (induction xs rule: rev_induct)
  case (snoc y xs)
  let ?f = "foldl merge d xs"
  have g: "good ?f" "good y" "good x" using snoc.prems receive_good[of d xs] by (auto simp: list_all_iff)
  show ?case
  proof (cases "x = y")
    case True
    with g have "merge y (merge ?f y) = merge (merge y ?f) y" by (simp add: merge_assoc)
    also have "\<dots> = merge (merge ?f y) y" using g by (simp add: merge_commute)
    also have "\<dots> = merge ?f (merge y y)" using g by (intro merge_assoc)
    finally show ?thesis using True g by (simp add: merge_idem)
  next
    case False
    with snoc have "merge x ?f = ?f" by auto
    with g merge_assoc[of x ?f y] show ?thesis by simp
  qed
qed simp

lemma least:
  "good d \<Longrightarrow> list_all good xs \<Longrightarrow> good z \<Longrightarrow> merge d z = z \<Longrightarrow> (\<And>x. x \<in> set xs \<Longrightarrow> merge x z = z) \<Longrightarrow>
    merge (foldl merge d xs) z = z"
proof (induction xs rule: rev_induct)
  case (snoc x xs)
  then have "good (foldl merge d xs)" "good x" using receive_good[of d xs] by auto
  with snoc merge_assoc[of "foldl merge d xs" x z] show ?case by auto
qed simp

text \<open>Replicas that have seen the same states, their own starts included, are equal.\<close>

lemma converge:
  assumes "good d" and "good e" and "list_all good xs" and "list_all good ys" and "insert d (set xs) = insert e (set ys)"
  shows "foldl merge d xs = foldl merge e ys"
proof -
  let ?x = "foldl merge d xs" and ?y = "foldl merge e ys"
  have g: "good ?x" "good ?y" using assms by (auto intro: receive_good)
  have x: "merge z ?x = ?x" if "z \<in> insert d (set xs)" for z
    using that assms(1,3) by (cases "z = d") (simp_all add: keeps_own absorbs)
  have y: "merge z ?y = ?y" if "z \<in> insert e (set ys)" for z
    using that assms(2,4) by (cases "z = e") (simp_all add: keeps_own absorbs)
  have "merge ?x ?y = ?y" using assms g y by (intro least) auto
  moreover have "merge ?y ?x = ?x" using assms g x by (intro least) auto
  ultimately show ?thesis using merge_commute[OF g] by simp
qed

end

end
