(* ===== verification/Braid.thy ===== *)
theory Braid
  imports Content_Index Replication Crypto
begin

text \<open>
  The braid, \<open>indras-sync-engine/src/braid\<close>: changesets (\<open>changeset.rs\<close>) and the DAG they form
  (\<open>dag.rs\<close>), the heads of a local repository (\<open>gate.rs\<close>) and the staged deletion of blobs
  (\<open>gc.rs\<close>). The \<open>postcard\<close> encoding of the fields that a changeset's identifier covers is a
  parameter, next to the cryptographic functions; the current time is an argument. Searches over
  the DAG are loops that might run for ever, so that not returning is the value \<open>None\<close>; what they
  compute on a finite DAG is proved, and that they return. Iterating over a \<open>HashMap\<close> to fill a
  queue takes its keys in the order \<open>ord\<close>.
\<close>

section \<open>Changesets\<close>

type_synonym user_id = bytes32
type_synonym change_id = bytes32

datatype evidence =
    EvidenceAgent bool "string list" bool nat user_id
  | EvidenceHuman user_id int "string option"

definition evidence_signed_by :: "evidence \<Rightarrow> user_id" where
  "evidence_signed_by e = (case e of EvidenceAgent _ _ _ _ u \<Rightarrow> u | EvidenceHuman u _ _ \<Rightarrow> u)"

definition evidence_human :: "int \<Rightarrow> user_id \<Rightarrow> string option \<Rightarrow> evidence" where
  "evidence_human now u message = EvidenceHuman u now message"

record changeset =
  cs_id :: change_id
  cs_author :: user_id
  cs_parents :: "change_id list"
  cs_intent :: string
  cs_index :: symlink_index
  cs_delta :: index_delta
  cs_evidence :: evidence
  cs_timestamp :: int
  cs_signature :: bytes

type_synonym change_payload = "user_id \<times> change_id list \<times> patch_file list \<times> string \<times> int"

record ('sk, 'pk) braid_lib = "('sk, 'pk) crypto_lib" +
  encode_change :: "change_payload \<Rightarrow> bytes"

definition compute_id ::
  "('sk, 'pk, 'x) braid_lib_scheme \<Rightarrow> user_id \<Rightarrow> change_id list \<Rightarrow> symlink_index \<Rightarrow> string \<Rightarrow> int \<Rightarrow> change_id" where
  "compute_id L author parents index intent timestamp =
    blake3 L (encode_change L (author, sort parents, manifest_of_index index, intent, timestamp))"

definition change_delta :: "symlink_index \<Rightarrow> symlink_index option \<Rightarrow> index_delta" where
  "change_delta index parent_index =
    (case parent_index of Some pi \<Rightarrow> index_diff index pi | None \<Rightarrow> delta_from_root index)"

definition with_index ::
  "('sk, 'pk, 'x) braid_lib_scheme \<Rightarrow> user_id \<Rightarrow> change_id list \<Rightarrow> string \<Rightarrow> symlink_index \<Rightarrow> symlink_index option \<Rightarrow>
    evidence \<Rightarrow> int \<Rightarrow> 'sk \<Rightarrow> changeset" where
  "with_index L author parents intent index parent_index evidence timestamp identity =
    (let parents = sort parents; i = compute_id L author parents index intent timestamp in
     \<lparr>cs_id = i, cs_author = author, cs_parents = parents, cs_intent = intent, cs_index = index,
      cs_delta = change_delta index parent_index, cs_evidence = evidence, cs_timestamp = timestamp,
      cs_signature = pq_sign L identity i\<rparr>)"

definition dummy_signature :: "('sk, 'pk, 'x) braid_lib_scheme \<Rightarrow> bytes" where
  "dummy_signature L = replicate (signature_bytes L) 0"

definition new_unsigned ::
  "('sk, 'pk, 'x) braid_lib_scheme \<Rightarrow> user_id \<Rightarrow> change_id list \<Rightarrow> string \<Rightarrow> symlink_index \<Rightarrow> symlink_index option \<Rightarrow>
    evidence \<Rightarrow> int \<Rightarrow> changeset" where
  "new_unsigned L author parents intent index parent_index evidence timestamp =
    (let parents = sort parents; i = compute_id L author parents index intent timestamp in
     \<lparr>cs_id = i, cs_author = author, cs_parents = parents, cs_intent = intent, cs_index = index,
      cs_delta = change_delta index parent_index, cs_evidence = evidence, cs_timestamp = timestamp,
      cs_signature = dummy_signature L\<rparr>)"

definition cs_verify_signature :: "('sk, 'pk, 'x) braid_lib_scheme \<Rightarrow> 'pk \<Rightarrow> changeset \<Rightarrow> bool" where
  "cs_verify_signature L pk c = pq_verify L pk (cs_id c) (cs_signature c)"

definition cs_is_signed :: "('sk, 'pk, 'x) braid_lib_scheme \<Rightarrow> changeset \<Rightarrow> bool" where
  "cs_is_signed L c \<longleftrightarrow> cs_signature c \<noteq> dummy_signature L"

section \<open>The DAG\<close>

record peer_head =
  ph_head :: change_id
  ph_index :: symlink_index
  ph_updated_ms :: int

record braid_dag =
  changesets :: "change_id \<rightharpoonup> changeset"
  peer_heads :: "user_id \<rightharpoonup> peer_head"

definition new_dag :: braid_dag where
  "new_dag = \<lparr>changesets = Map.empty, peer_heads = Map.empty\<rparr>"

definition dag_insert :: "changeset \<Rightarrow> braid_dag \<Rightarrow> braid_dag" where
  "dag_insert c d =
    (case changesets d (cs_id c) of Some _ \<Rightarrow> d | None \<Rightarrow> d\<lparr>changesets := (changesets d)(cs_id c \<mapsto> c)\<rparr>)"

definition dag_get :: "braid_dag \<Rightarrow> change_id \<Rightarrow> changeset option" where
  "dag_get d i = changesets d i"

definition dag_len :: "braid_dag \<Rightarrow> nat" where
  "dag_len d = card (dom (changesets d))"

definition dag_contains :: "braid_dag \<Rightarrow> change_id \<Rightarrow> bool" where
  "dag_contains d i \<longleftrightarrow> i \<in> dom (changesets d)"

definition dag_heads :: "braid_dag \<Rightarrow> change_id set" where
  "dag_heads d =
    (let all_parents = (\<Union>c \<in> ran (changesets d). set (cs_parents c)) in
     {i \<in> dom (changesets d). i \<notin> all_parents})"

definition update_peer_head :: "int \<Rightarrow> user_id \<Rightarrow> change_id \<Rightarrow> symlink_index \<Rightarrow> braid_dag \<Rightarrow> braid_dag" where
  "update_peer_head now u head index d =
    d\<lparr>peer_heads := (peer_heads d)(u \<mapsto> \<lparr>ph_head = head, ph_index = index, ph_updated_ms = now\<rparr>)\<rparr>"

text \<open>The loop of \<open>ancestors\<close>: a queue and the set of identifiers seen.\<close>

definition parents_of :: "braid_dag \<Rightarrow> change_id \<Rightarrow> change_id list" where
  "parents_of d i = (case changesets d i of Some c \<Rightarrow> cs_parents c | None \<Rightarrow> [])"

partial_function (option) ancestors_loop ::
  "braid_dag \<Rightarrow> change_id list \<Rightarrow> change_id set \<Rightarrow> change_id set option" where
  "ancestors_loop d queue seen =
    (case queue of
       [] \<Rightarrow> Some seen
     | x # queue \<Rightarrow>
         if x \<in> seen then ancestors_loop d queue seen
         else ancestors_loop d (queue @ filter (\<lambda>p. p \<notin> insert x seen) (parents_of d x)) (insert x seen))"

definition ancestors :: "braid_dag \<Rightarrow> change_id \<Rightarrow> change_id set option" where
  "ancestors d i = ancestors_loop d (parents_of d i) {}"

definition all_referenced_addrs :: "braid_dag \<Rightarrow> content_addr set" where
  "all_referenced_addrs d = (\<Union>h \<in> ran (peer_heads d). ran (ph_index h)) \<union> (\<Union>c \<in> ran (changesets d). ran (cs_index c))"

definition live_addrs :: "braid_dag \<Rightarrow> content_addr set" where
  "live_addrs d = (\<Union>h \<in> ran (peer_heads d). ran (ph_index h))"

text \<open>
  The reverse index of \<open>descendants_inclusive\<close> and its loop; a changeset is listed once for every
  time it names the parent.
\<close>

definition children_of :: "change_id list \<Rightarrow> braid_dag \<Rightarrow> change_id \<Rightarrow> change_id list" where
  "children_of ord d p =
    concat (map (\<lambda>i. case changesets d i of
        Some c \<Rightarrow> map (\<lambda>_. cs_id c) (filter (\<lambda>q. q = p) (cs_parents c)) | None \<Rightarrow> []) ord)"

text \<open>The inner loop over the children, which queues those not seen before.\<close>

fun visit_children :: "change_id list \<Rightarrow> change_id set \<Rightarrow> change_id list \<Rightarrow> change_id set \<times> change_id list" where
  "visit_children [] seen queue = (seen, queue)"
| "visit_children (k # kids) seen queue =
    (if k \<in> seen then visit_children kids seen queue else visit_children kids (insert k seen) (queue @ [k]))"

partial_function (option) descendants_loop ::
  "(change_id \<Rightarrow> change_id list) \<Rightarrow> change_id list \<Rightarrow> change_id set \<Rightarrow> change_id set option" where
  "descendants_loop children queue seen =
    (case queue of
       [] \<Rightarrow> Some seen
     | x # queue \<Rightarrow> (case visit_children (children x) seen queue of (seen, queue) \<Rightarrow> descendants_loop children queue seen))"

definition descendants_inclusive :: "change_id list \<Rightarrow> braid_dag \<Rightarrow> change_id \<Rightarrow> change_id set option" where
  "descendants_inclusive ord d i = descendants_loop (children_of ord d) [i] {i}"

definition rollup :: "change_id list \<Rightarrow> change_id \<Rightarrow> braid_dag \<Rightarrow> (content_addr set \<times> braid_dag) option" where
  "rollup ord checkpoint d =
    (let before = all_referenced_addrs d in
     map_option (\<lambda>keep.
        let d' = d\<lparr>changesets := (\<lambda>i. if i \<in> keep then changesets d i else None)\<rparr>
        in (before - all_referenced_addrs d', d')) (descendants_inclusive ord d checkpoint))"

text \<open>\<open>DocumentSchema::merge\<close>: union of the changesets, last writer wins for the heads.\<close>

definition dag_merge :: "braid_dag \<Rightarrow> braid_dag \<Rightarrow> braid_dag" where
  "dag_merge d remote =
    \<lparr>changesets = merge_first (changesets d) (changesets remote),
     peer_heads = merge_newer ph_updated_ms (peer_heads d) (peer_heads remote)\<rparr>"

definition head_ids :: "braid_dag \<Rightarrow> change_id list" where
  "head_ids d = sorted_list_of_set (dag_heads d)"

section \<open>Staged deletion\<close>

record staged_deletion =
  sd_addr :: content_addr
  sd_staged_at :: int
  sd_grace :: int

definition saturating_sub_i64 :: "int \<Rightarrow> int \<Rightarrow> int" where
  "saturating_sub_i64 a b = max (- (2 ^ 63)) (min (2 ^ 63 - 1) (a - b))"

definition is_ready :: "int \<Rightarrow> staged_deletion \<Rightarrow> bool" where
  "is_ready now s \<longleftrightarrow> saturating_sub_i64 now (sd_staged_at s) \<ge> sd_grace s"

definition DEFAULT_GRACE_PERIOD_MS :: int where
  "DEFAULT_GRACE_PERIOD_MS = 7 * 24 * 60 * 60 * 1000"

type_synonym staged_set = "content_addr \<rightharpoonup> staged_deletion"

definition stage :: "content_addr \<Rightarrow> int \<Rightarrow> int \<Rightarrow> staged_set \<Rightarrow> staged_set" where
  "stage a now grace s =
    (case s a of Some _ \<Rightarrow> s | None \<Rightarrow> s(a \<mapsto> \<lparr>sd_addr = a, sd_staged_at = now, sd_grace = grace\<rparr>))"

definition unstage :: "content_addr \<Rightarrow> staged_set \<Rightarrow> staged_deletion option \<times> staged_set" where
  "unstage a s = (s a, s(a := None))"

definition take_ready_for_deletion :: "int \<Rightarrow> staged_set \<Rightarrow> staged_deletion set \<times> staged_set" where
  "take_ready_for_deletion now s =
    ({e. \<exists>a. s a = Some e \<and> is_ready now e},
     (\<lambda>a. case s a of Some e \<Rightarrow> if is_ready now e then None else Some e | None \<Rightarrow> None))"

section \<open>Ancestors\<close>

definition parent_rel :: "braid_dag \<Rightarrow> (change_id \<times> change_id) set" where
  "parent_rel d = {(i, p). p \<in> set (parents_of d i)}"

lemma parents_of_dom: "p \<in> set (parents_of d x) \<Longrightarrow> x \<in> dom (changesets d)"
  by (cases "changesets d x") (auto simp: parents_of_def)

lemma parents_of_known: "finite (dom (changesets d)) \<Longrightarrow> finite (\<Union>x. set (parents_of d x))"
proof -
  assume "finite (dom (changesets d))"
  then have "finite (\<Union>x \<in> dom (changesets d). set (parents_of d x))" by simp
  moreover have "(\<Union>x. set (parents_of d x)) \<subseteq> (\<Union>x \<in> dom (changesets d). set (parents_of d x))"
  proof
    fix p assume "p \<in> (\<Union>x. set (parents_of d x))"
    then obtain x where "p \<in> set (parents_of d x)" by auto
    with parents_of_dom[OF this] show "p \<in> (\<Union>x \<in> dom (changesets d). set (parents_of d x))" by auto
  qed
  ultimately show ?thesis by (rule finite_subset[rotated])
qed

lemma reach_closed: "(\<And>x y. x \<in> S \<Longrightarrow> (x, y) \<in> r \<Longrightarrow> y \<in> S) \<Longrightarrow> {x. \<exists>y \<in> S. (y, x) \<in> r\<^sup>*} = S"
proof -
  assume step: "\<And>x y. x \<in> S \<Longrightarrow> (x, y) \<in> r \<Longrightarrow> y \<in> S"
  have "(y, x) \<in> r\<^sup>* \<Longrightarrow> y \<in> S \<Longrightarrow> x \<in> S" for x y by (induction rule: rtrancl_induct) (auto intro: step)
  then show ?thesis by auto
qed

lemma reach_extend:
  assumes "S \<subseteq> T" and "\<And>z. z \<in> T \<Longrightarrow> \<exists>y \<in> S. (y, z) \<in> r\<^sup>*"
  shows "{x. \<exists>y \<in> T. (y, x) \<in> r\<^sup>*} = {x. \<exists>y \<in> S. (y, x) \<in> r\<^sup>*}"
  using assms by (blast intro: rtrancl_trans)

lemma ancestors_loop_reaches:
  assumes "finite U" and closed: "\<And>x. set (parents_of d x) \<subseteq> U"
    and "set queue \<subseteq> U" and "\<And>x. x \<in> seen \<Longrightarrow> set (parents_of d x) \<subseteq> seen \<union> set queue"
  shows "ancestors_loop d queue seen = Some {x. \<exists>y \<in> seen \<union> set queue. (y, x) \<in> (parent_rel d)\<^sup>*}"
  using assms(3,4)
proof (induction "card (U - seen)" arbitrary: queue seen rule: less_induct)
  case outer: less
  from outer.prems show ?case
  proof (induction queue)
    case Nil
    have "{x. \<exists>y \<in> seen. (y, x) \<in> (parent_rel d)\<^sup>*} = seen"
      using Nil by (intro reach_closed) (auto simp: parent_rel_def)
    then show ?case by (simp add: ancestors_loop.simps[of d "[]"])
  next
    case (Cons x queue)
    show ?case
    proof (cases "x \<in> seen")
      case True
      then have "seen \<union> set (x # queue) = seen \<union> set queue" by auto
      with Cons True show ?thesis by (simp add: ancestors_loop.simps[of d "x # queue"] insert_absorb)
    next
      case False
      let ?queue = "queue @ filter (\<lambda>p. p \<notin> insert x seen) (parents_of d x)"
      have lt: "card (U - insert x seen) < card (U - seen)"
        using False Cons.prems(1) assms(1) by (intro psubset_card_mono) auto
      have "ancestors_loop d ?queue (insert x seen) =
          Some {z. \<exists>y \<in> insert x seen \<union> set ?queue. (y, z) \<in> (parent_rel d)\<^sup>*}"
        using Cons.prems closed by (intro outer.hyps[OF lt]) fastforce+
      also have "{z. \<exists>y \<in> insert x seen \<union> set ?queue. (y, z) \<in> (parent_rel d)\<^sup>*} =
          {z. \<exists>y \<in> seen \<union> set (x # queue). (y, z) \<in> (parent_rel d)\<^sup>*}"
        by (rule reach_extend) (auto simp: parent_rel_def)
      finally show ?thesis using False by (simp add: ancestors_loop.simps[of d "x # queue"])
    qed
  qed
qed

lemma ancestors_exact: "finite (dom (changesets d)) \<Longrightarrow> ancestors d i = Some {x. (i, x) \<in> (parent_rel d)\<^sup>+}"
proof -
  assume fin: "finite (dom (changesets d))"
  have "ancestors d i = Some {x. \<exists>y \<in> {} \<union> set (parents_of d i). (y, x) \<in> (parent_rel d)\<^sup>*}"
    unfolding ancestors_def by (rule ancestors_loop_reaches[OF parents_of_known[OF fin]]) auto
  also have "{x. \<exists>y \<in> {} \<union> set (parents_of d i). (y, x) \<in> (parent_rel d)\<^sup>*} = {x. (i, x) \<in> (parent_rel d)\<^sup>+}"
    by (auto simp: trancl_unfold_left parent_rel_def)
  finally show ?thesis .
qed

section \<open>Descendants\<close>

lemma visit_children_result:
  "\<exists>new. visit_children kids seen queue = (seen \<union> set kids, queue @ new) \<and> distinct new \<and> set new = set kids - seen"
proof (induction kids arbitrary: seen queue)
  case (Cons k kids)
  show ?case
  proof (cases "k \<in> seen")
    case True
    with Cons[of seen queue] show ?thesis by (auto simp: insert_absorb)
  next
    case False
    from Cons[of "insert k seen" "queue @ [k]"] obtain new where
      "visit_children kids (insert k seen) (queue @ [k]) = (insert k seen \<union> set kids, (queue @ [k]) @ new)"
      "distinct new" "set new = set kids - insert k seen" by blast
    with False show ?thesis by (intro exI[of _ "k # new"]) auto
  qed
qed simp

lemma descendants_loop_reaches:
  assumes "finite U" and closed: "\<And>x. set (children x) \<subseteq> U"
    and "set queue \<subseteq> seen" and "seen \<subseteq> U" and "\<And>x. x \<in> seen \<Longrightarrow> x \<notin> set queue \<Longrightarrow> set (children x) \<subseteq> seen"
  shows "descendants_loop children queue seen = Some {x. \<exists>y \<in> seen. (y, x) \<in> {(a, b). b \<in> set (children a)}\<^sup>*}"
  using assms(3-5)
proof (induction "card (U - seen) + length queue" arbitrary: queue seen rule: less_induct)
  case less
  let ?r = "{(a, b). b \<in> set (children a)}"
  show ?case
  proof (cases queue)
    case Nil
    have "{x. \<exists>y \<in> seen. (y, x) \<in> ?r\<^sup>*} = seen" using less.prems Nil by (intro reach_closed) auto
    then show ?thesis by (simp add: Nil descendants_loop.simps[of children "[]"])
  next
    case (Cons x rest)
    obtain new where v: "visit_children (children x) seen rest = (seen \<union> set (children x), rest @ new)"
      and new: "distinct new" "set new = set (children x) - seen" using visit_children_result by blast
    have "U - seen = (U - (seen \<union> set (children x))) \<union> set new" using closed[of x] new(2) by auto
    moreover have "(U - (seen \<union> set (children x))) \<inter> set new = {}" using new(2) by auto
    ultimately have "card (U - seen) = card (U - (seen \<union> set (children x))) + length new"
      using assms(1) new(1) by (simp add: card_Un_disjoint distinct_card)
    then have lt: "card (U - (seen \<union> set (children x))) + length (rest @ new) < card (U - seen) + length queue"
      by (simp add: Cons)
    have "descendants_loop children (rest @ new) (seen \<union> set (children x)) =
        Some {z. \<exists>y \<in> seen \<union> set (children x). (y, z) \<in> ?r\<^sup>*}"
    proof (rule less.hyps[OF lt])
      show "set (rest @ new) \<subseteq> seen \<union> set (children x)" using less.prems(1) new(2) by (auto simp: Cons)
      show "seen \<union> set (children x) \<subseteq> U" using less.prems(2) closed[of x] by auto
      fix z assume z: "z \<in> seen \<union> set (children x)" "z \<notin> set (rest @ new)"
      then have "z \<in> seen" using new(2) by auto
      with z less.prems(3)[of z] show "set (children z) \<subseteq> seen \<union> set (children x)" by (cases "z = x") (auto simp: Cons)
    qed
    also have "{z. \<exists>y \<in> seen \<union> set (children x). (y, z) \<in> ?r\<^sup>*} = {z. \<exists>y \<in> seen. (y, z) \<in> ?r\<^sup>*}"
      using less.prems(1) by (intro reach_extend) (auto simp: Cons)
    finally show ?thesis by (simp add: Cons descendants_loop.simps[of children "x # rest"] v)
  qed
qed

text \<open>A DAG as the operations build it: every changeset is stored under its identifier.\<close>

definition dag_ok :: "braid_dag \<Rightarrow> bool" where
  "dag_ok d \<longleftrightarrow> finite (dom (changesets d)) \<and> key_matches cs_id (changesets d)"

lemma set_children_of:
  assumes "dag_ok d" and "set ord = dom (changesets d)"
  shows "set (children_of ord d p) = {i. p \<in> set (parents_of d i)}"
proof -
  have "cs_id c = i" if "changesets d i = Some c" for i c using assms(1) that by (auto simp: dag_ok_def key_matches_def)
  then show ?thesis
    using assms(2) by (auto simp: children_of_def parents_of_def split: option.splits if_splits) (force simp: domIff)+
qed

lemma descendants_exact:
  assumes "dag_ok d" and "set ord = dom (changesets d)"
  shows "descendants_inclusive ord d i = Some {x. (x, i) \<in> (parent_rel d)\<^sup>*}"
proof -
  let ?r = "{(a, b). b \<in> set (children_of ord d a)}"
  have r: "?r = (parent_rel d)\<inverse>" by (auto simp: set_children_of[OF assms] parent_rel_def)
  have sub: "set (children_of ord d x) \<subseteq> insert i (dom (changesets d))" for x
    using parents_of_dom by (auto simp: set_children_of[OF assms])
  have "descendants_inclusive ord d i = Some {x. \<exists>y \<in> {i}. (y, x) \<in> ?r\<^sup>*}"
    unfolding descendants_inclusive_def
    by (rule descendants_loop_reaches[where U = "insert i (dom (changesets d))"]) (use assms(1) sub in \<open>auto simp: dag_ok_def\<close>)
  also have "{x. \<exists>y \<in> {i}. (y, x) \<in> ?r\<^sup>*} = {x. (x, i) \<in> (parent_rel d)\<^sup>*}" by (simp add: r rtrancl_converse)
  finally show ?thesis .
qed

section \<open>Properties of the DAG\<close>

text \<open>
  The searches over the braid return, and find what they should: on a finite DAG \<open>ancestors\<close>
  is the set of changesets reached over one or more parent links, missing parents included
  but not followed, and \<open>descendants_inclusive\<close> is the set of changesets from which the given
  one is reached, together with it; also when the parent links form cycles.
\<close>

theorem searches_exact:
  assumes "dag_ok d" and "set ord = dom (changesets d)"
  shows "ancestors d i = Some {x. (i, x) \<in> {(c, p). p \<in> set (parents_of d c)}\<^sup>+} \<and>
    descendants_inclusive ord d i = Some {x. (x, i) \<in> {(c, p). p \<in> set (parents_of d c)}\<^sup>*}"
  using ancestors_exact[of d i] descendants_exact[OF assms, of i] assms(1) by (simp add: dag_ok_def parent_rel_def)

text \<open>A braid: two changesets on one root, and a merge of both.\<close>

definition sample_change :: "u8 \<Rightarrow> u8 list \<Rightarrow> changeset" where
  "sample_change i ps =
    \<lparr>cs_id = [i], cs_author = [1], cs_parents = map (\<lambda>p. [p]) ps, cs_intent = '''', cs_index = [''f'' \<mapsto> ContentAddr [i] 1],
     cs_delta = Map.empty, cs_evidence = EvidenceHuman [1] 0 None, cs_timestamp = 0, cs_signature = []\<rparr>"

definition sample_dag :: braid_dag where
  "sample_dag = fold dag_insert [sample_change 1 [], sample_change 2 [1], sample_change 3 [1], sample_change 4 [2, 3]] new_dag"

lemma sample_dag_eq:
  "sample_dag = \<lparr>changesets = [[1] \<mapsto> sample_change 1 [], [2] \<mapsto> sample_change 2 [1], [3] \<mapsto> sample_change 3 [1],
      [4] \<mapsto> sample_change 4 [2, 3]], peer_heads = Map.empty\<rparr>"
  by (simp add: sample_dag_def dag_insert_def new_dag_def sample_change_def)

lemma sample_dag_ok: "dag_ok sample_dag" "set [[1], [2], [3], [4]] = dom (changesets sample_dag)"
  by (auto simp: dag_ok_def sample_dag_eq key_matches_def sample_change_def split: if_splits)

theorem searches_exact_witness:
  "ancestors sample_dag [4] = Some {x. ([4], x) \<in> {(c, p). p \<in> set (parents_of sample_dag c)}\<^sup>+} \<and>
   ancestors sample_dag [4] = Some {[1], [2], [3]}"
proof
  show "ancestors sample_dag [4] = Some {x. ([4], x) \<in> {(c, p). p \<in> set (parents_of sample_dag c)}\<^sup>+}"
    using searches_exact[OF sample_dag_ok, of "[4]"] by blast
  show "ancestors sample_dag [4] = Some {[1], [2], [3]}"
    by (simp add: ancestors_def ancestors_loop.simps parents_of_def sample_dag_eq sample_change_def) auto
qed

lemma dag_insert_ok: "dag_ok d \<Longrightarrow> dag_ok (dag_insert c d)"
  by (auto simp: dag_ok_def dag_insert_def split: option.splits)

lemma dag_merge_ok: "dag_ok a \<Longrightarrow> dag_ok b \<Longrightarrow> dag_ok (dag_merge a b)"
proof -
  assume "dag_ok a" "dag_ok b"
  moreover have "dom (changesets (dag_merge a b)) = dom (changesets a) \<union> dom (changesets b)"
    by (auto simp: dag_merge_def merge_first_def dom_def split: option.splits)
  ultimately show ?thesis
    by (auto simp: dag_ok_def key_matches_def dag_merge_def merge_first_def split: option.splits)
qed

lemma in_dag_heads:
  "h \<in> dag_heads d \<longleftrightarrow> (\<exists>x. changesets d h = Some x) \<and> \<not> (\<exists>k x. changesets d k = Some x \<and> h \<in> set (cs_parents x))"
  by (auto simp: dag_heads_def ran_def)

text \<open>
  C23: Rolling up a braid at a checkpoint keeps exactly the changesets that descend from it and
  keeps every head that does; peer heads are untouched; the addresses reported as free were
  referenced before and are referenced by nothing that is left, and no other address is lost.
\<close>

theorem rollup_keeps_descendants:
  assumes "dag_ok d" and "set ord = dom (changesets d)"
  shows "\<exists>freed d'. rollup ord c d = Some (freed, d') \<and> dag_ok d' \<and> peer_heads d' = peer_heads d \<and>
    (\<forall>i. changesets d' i = (if i = c \<or> c \<in> the (ancestors d i) then changesets d i else None)) \<and>
    dag_heads d' = {h \<in> dag_heads d. h = c \<or> c \<in> the (ancestors d h)} \<and>
    freed \<union> all_referenced_addrs d' = all_referenced_addrs d \<and> freed \<inter> all_referenced_addrs d' = {}"
proof -
  define keep where "keep = {x. (x, c) \<in> (parent_rel d)\<^sup>*}"
  define d' where "d' = d\<lparr>changesets := (\<lambda>i. if i \<in> keep then changesets d i else None)\<rparr>"
  have cs: "changesets d' k = Some x \<longleftrightarrow> changesets d k = Some x \<and> k \<in> keep" for k x by (simp add: d'_def)
  have fin: "finite (dom (changesets d))" using assms(1) by (simp add: dag_ok_def)
  have anc: "i \<in> keep \<longleftrightarrow> i = c \<or> c \<in> the (ancestors d i)" for i
    by (auto simp: keep_def ancestors_exact[OF fin] rtrancl_eq_or_trancl)
  have "dom (changesets d') \<subseteq> dom (changesets d)" using cs by blast
  then have ok: "dag_ok d'"
    using assms(1) finite_subset[OF _ fin] cs by (auto simp: dag_ok_def key_matches_def)
  have up: "k \<in> keep" if "changesets d k = Some x" "h \<in> set (cs_parents x)" "h \<in> keep" for k x h
  proof -
    have "(k, h) \<in> parent_rel d" using that by (simp add: parent_rel_def parents_of_def)
    with that(3) show ?thesis by (auto simp: keep_def intro: converse_rtrancl_into_rtrancl)
  qed
  have heads: "h \<in> dag_heads d' \<longleftrightarrow> h \<in> dag_heads d \<and> h \<in> keep" for h
  proof
    assume "h \<in> dag_heads d'"
    then show "h \<in> dag_heads d \<and> h \<in> keep" unfolding in_dag_heads cs using up by blast
  next
    assume "h \<in> dag_heads d \<and> h \<in> keep"
    then show "h \<in> dag_heads d'" unfolding in_dag_heads cs by blast
  qed
  have sub: "all_referenced_addrs d' \<subseteq> all_referenced_addrs d"
  proof -
    have "ran (changesets d') \<subseteq> ran (changesets d)" unfolding ran_def cs by blast
    moreover have "peer_heads d' = peer_heads d" by (simp add: d'_def)
    ultimately show ?thesis unfolding all_referenced_addrs_def by auto
  qed
  show ?thesis
  proof (intro exI conjI allI)
    show "rollup ord c d = Some (all_referenced_addrs d - all_referenced_addrs d', d')"
      by (simp add: rollup_def descendants_exact[OF assms] Let_def d'_def keep_def)
    show "changesets d' i = (if i = c \<or> c \<in> the (ancestors d i) then changesets d i else None)" for i
      unfolding anc[symmetric] by (simp add: d'_def)
    show "dag_heads d' = {h \<in> dag_heads d. h = c \<or> c \<in> the (ancestors d h)}"
      unfolding anc[symmetric] using heads by blast
    show "(all_referenced_addrs d - all_referenced_addrs d') \<union> all_referenced_addrs d' = all_referenced_addrs d"
      using sub by blast
    show "(all_referenced_addrs d - all_referenced_addrs d') \<inter> all_referenced_addrs d' = {}" by blast
    show "dag_ok d'" by (rule ok)
    show "peer_heads d' = peer_heads d" by (simp add: d'_def)
  qed
qed

theorem rollup_keeps_descendants_witness:
  "\<exists>freed d'. rollup [[1], [2], [3], [4]] [2] sample_dag = Some (freed, d') \<and> peer_heads d' = peer_heads sample_dag \<and>
    freed \<inter> all_referenced_addrs d' = {}"
  using rollup_keeps_descendants[OF sample_dag_ok, of "[2]"] by (elim exE conjE) (intro exI conjI)

section \<open>Convergence\<close>

text \<open>States of one braid: an identifier names one changeset, and a peer writes one head per instant.\<close>

definition coherent :: "(change_id \<Rightarrow> changeset) \<Rightarrow> (user_id \<Rightarrow> int \<Rightarrow> peer_head) \<Rightarrow> braid_dag \<Rightarrow> bool" where
  "coherent U W d \<longleftrightarrow> entries_of U (changesets d) \<and> writes_of W ph_updated_ms (peer_heads d)"

interpretation braid_document: replicated_document dag_merge "coherent U W" for U W
proof
  fix a b c
  show "coherent U W a \<Longrightarrow> coherent U W b \<Longrightarrow> coherent U W (dag_merge a b)"
    by (simp add: coherent_def dag_merge_def entries_of_merge writes_of_merge)
  show "dag_merge a a = a" by (simp add: dag_merge_def merge_first_laws merge_newer_laws)
  show "coherent U W a \<Longrightarrow> coherent U W b \<Longrightarrow> dag_merge a b = dag_merge b a"
    by (simp add: coherent_def dag_merge_def) (metis merge_first_commute merge_newer_commute)
  show "dag_merge (dag_merge a b) c = dag_merge a (dag_merge b c)"
    by (simp add: dag_merge_def merge_first_laws merge_newer_laws)
qed

text \<open>
  C16: Replicas of a braid converge: two peers that have seen the same states, their own
  included, in any order and any number of times, hold the same changesets and heads, provided
  that an identifier names one changeset and that nobody writes two heads at the same instant.
\<close>

theorem braid_converges:
  assumes "coherent U W d" and "coherent U W e" and "list_all (coherent U W) xs" and "list_all (coherent U W) ys"
    and "insert d (set xs) = insert e (set ys)"
  shows "foldl dag_merge d xs = foldl dag_merge e ys"
  using assms by (rule braid_document.converge)

lemma new_dag_coherent: "coherent U W new_dag"
  by (simp add: coherent_def new_dag_def entries_of_def writes_of_def)

theorem braid_converges_witness:
  "let d = update_peer_head 1 [1] [2] (cs_index (sample_change 2 [1])) sample_dag;
       e = update_peer_head 2 [1] [4] (cs_index (sample_change 4 [2, 3])) sample_dag
   in d \<noteq> e \<and> foldl dag_merge d [e] = foldl dag_merge e [d, e]"
proof -
  define d where "d = update_peer_head 1 [1] [2] (cs_index (sample_change 2 [1])) sample_dag"
  define e where "e = update_peer_head 2 [1] [4] (cs_index (sample_change 4 [2, 3])) sample_dag"
  define W where "W = (\<lambda>u :: user_id. \<lambda>t :: int. if t = 1 then \<lparr>ph_head = [2], ph_index = cs_index (sample_change 2 [1]), ph_updated_ms = t\<rparr>
    else \<lparr>ph_head = [4], ph_index = cs_index (sample_change 4 [2, 3]), ph_updated_ms = t\<rparr>)"
  let ?U = "\<lambda>i. the (changesets sample_dag i)"
  have c: "coherent ?U W d" "coherent ?U W e"
    by (auto simp: coherent_def entries_of_def writes_of_def d_def e_def W_def update_peer_head_def sample_dag_eq)
  have "peer_heads d [1] \<noteq> peer_heads e [1]" by (simp add: d_def e_def update_peer_head_def)
  moreover have "foldl dag_merge d [e] = foldl dag_merge e [d, e]"
    by (rule braid_converges[where U = ?U and W = W]) (use c in auto)
  ultimately show ?thesis unfolding Let_def d_def[symmetric] e_def[symmetric] by auto
qed
text \<open>Two heads written at the same instant: each replica keeps its own, and merging again changes nothing.\<close>

lemma simultaneous_heads_diverge:
  assumes "a \<noteq> b" and "x = update_peer_head t u a i new_dag" and "y = update_peer_head t u b j new_dag"
  shows "dag_merge x y = x \<and> dag_merge y x = y \<and> x \<noteq> y"
proof -
  have "peer_heads x u \<noteq> peer_heads y u" using assms by (simp add: update_peer_head_def)
  then show ?thesis
    by (auto simp: assms(2,3) dag_merge_def update_peer_head_def new_dag_def merge_first_def merge_newer_def fun_eq_iff
        split: option.splits)
qed

section \<open>Staged deletions\<close>

datatype staging_call = Stage content_addr int int | Unstage content_addr | TakeReady int

fun staging_run :: "staging_call \<Rightarrow> staged_set \<Rightarrow> staged_set" where
  "staging_run (Stage a now g) s = stage a now g s"
| "staging_run (Unstage a) s = snd (unstage a s)"
| "staging_run (TakeReady now) s = snd (take_ready_for_deletion now s)"

definition staged_by :: "staging_call list \<Rightarrow> staged_deletion \<Rightarrow> bool" where
  "staged_by calls e \<longleftrightarrow> (\<exists>pre post. calls = pre @ Stage (sd_addr e) (sd_staged_at e) (sd_grace e) # post \<and>
     Unstage (sd_addr e) \<notin> set post)"

lemma staging_run_log:
  "fold staging_run calls Map.empty a = Some e \<Longrightarrow> sd_addr e = a \<and> staged_by calls e"
proof (induction calls arbitrary: a e rule: rev_induct)
  case (snoc c calls)
  have old: "sd_addr x = b \<and> staged_by (calls @ [c]) x" if "fold staging_run calls Map.empty b = Some x" "c \<noteq> Unstage b" for b x
  proof -
    from snoc.IH[OF that(1)] obtain pre post where b: "sd_addr x = b"
      and "calls = pre @ Stage b (sd_staged_at x) (sd_grace x) # post" "Unstage b \<notin> set post" by (auto simp: staged_by_def)
    with that(2) have "calls @ [c] = pre @ Stage b (sd_staged_at x) (sd_grace x) # (post @ [c]) \<and> Unstage b \<notin> set (post @ [c])" by auto
    with b show ?thesis unfolding staged_by_def by blast
  qed
  show ?case
  proof (cases c)
    case (Stage b now g)
    show ?thesis
    proof (cases "fold staging_run calls Map.empty a = Some e")
      case False
      with snoc.prems Stage have "a = b" "e = \<lparr>sd_addr = a, sd_staged_at = now, sd_grace = g\<rparr>"
        by (auto simp: stage_def split: option.splits if_splits)
      with Stage show ?thesis unfolding staged_by_def by (intro conjI exI[of _ calls] exI[of _ "[]"]) simp_all
    qed (use old Stage in blast)
  qed (use snoc.prems old in \<open>auto simp: unstage_def take_ready_for_deletion_def split: option.splits if_splits\<close>)
qed simp

text \<open>
  No blob is deleted early. A blob taken for deletion was staged, has not been unstaged
  since, and its grace period has elapsed since it was first staged; staging it again does not
  postpone it. What is not taken keeps its entry.
\<close>

theorem grace_period_respected:
  assumes "s = fold staging_run calls Map.empty" and "take_ready_for_deletion now s = (ready, s')" and "e \<in> ready"
    and "in_i64 now" and "in_i64 (sd_staged_at e)" and "in_i64 (now - sd_staged_at e)"
  shows "staged_by calls e \<and> now - sd_staged_at e \<ge> sd_grace e \<and> s' (sd_addr e) = None \<and>
    (\<forall>a. s' a = (if \<exists>x \<in> ready. sd_addr x = a then None else s a))"
proof -
  from assms(2,3) obtain a where a: "s a = Some e" "is_ready now e" by (auto simp: take_ready_for_deletion_def)
  have log: "sd_addr x = b" "staged_by calls x" if "s b = Some x" for b x
    using staging_run_log[of calls b x] that assms(1) by simp_all
  have "now - sd_staged_at e \<ge> sd_grace e" using a(2) assms(6) by (auto simp: is_ready_def saturating_sub_i64_def in_i64_def)
  moreover have s': "s' b = (if \<exists>x \<in> ready. sd_addr x = b then None else s b)" for b
  proof (cases "s b")
    case (Some x)
    then have "sd_addr x = b" by (rule log(1))
    moreover have "y = x" if "y \<in> ready" "sd_addr y = b" for y
    proof -
      from assms(2) that(1) obtain k where k: "s k = Some y" by (auto simp: take_ready_for_deletion_def)
      with log(1)[OF k] that(2) Some show ?thesis by simp
    qed
    ultimately have "(\<exists>y \<in> ready. sd_addr y = b) \<longleftrightarrow> is_ready now x"
      using assms(2) Some by (auto simp: take_ready_for_deletion_def)
    with assms(2) Some show ?thesis by (auto simp: take_ready_for_deletion_def)
  qed (use assms(2) in \<open>auto simp: take_ready_for_deletion_def\<close>)
  moreover have "s' (sd_addr e) = None" using s' assms(3) by auto
  ultimately show ?thesis using log(2)[OF a(1)] by blast
qed

theorem grace_period_respected_witness:
  "let a = ContentAddr [1] 1; e = \<lparr>sd_addr = a, sd_staged_at = 1000, sd_grace = 500\<rparr> in
   e \<in> fst (take_ready_for_deletion 1600 (fold staging_run [Stage a 1000 500, Stage a 1400 500] Map.empty)) \<and>
   staged_by [Stage a 1000 500, Stage a 1400 500] e"
proof -
  let ?a = "ContentAddr [1] 1" and ?e = "\<lparr>sd_addr = ContentAddr [1] 1, sd_staged_at = 1000, sd_grace = 500\<rparr>"
  let ?calls = "[Stage ?a 1000 500, Stage ?a 1400 500]"
  let ?s = "fold staging_run ?calls Map.empty"
  obtain ready s' where t: "take_ready_for_deletion 1600 ?s = (ready, s')" by (cases "take_ready_for_deletion 1600 ?s")
  then have e: "?e \<in> ready"
    by (auto simp: take_ready_for_deletion_def stage_def is_ready_def saturating_sub_i64_def)
  from grace_period_respected[OF refl t e] e t show ?thesis by (simp add: in_i64_def Let_def)
qed

end
