(* ===== verification/Agent_Braid.thy ===== *)
theory Agent_Braid
  imports Braid Formatting
begin

text \<open>
  The inner braid, \<open>indras-sync-engine/src/braid/agent_braid.rs\<close>: agents of one user land changesets on
  chains of their own, and the user merges their heads. Every reading of the clock is an argument.
  Also the landing of verified changes in the shared braid (\<open>realm_braid.rs\<close>) and the
  repair tasks of \<open>heal.rs\<close>; the result of the verification subprocess is an argument.
\<close>

section \<open>Model\<close>

type_synonym logical_agent_id = string

definition derive_agent_id :: "('sk, 'pk, 'x) crypto_lib_scheme \<Rightarrow> user_id \<Rightarrow> string \<Rightarrow> user_id" where
  "derive_agent_id L u name = blake3 L (u @ as_bytes ''agent'' @ as_bytes name)"

record merge_result =
  mr_change_id :: change_id
  mr_index :: symlink_index
  mr_conflicts :: "conflict list"

record agent_braid =
  ab_dag :: braid_dag
  ab_user :: user_id

definition new_agent_braid :: "user_id \<Rightarrow> agent_braid" where
  "new_agent_braid u = \<lparr>ab_dag = new_dag, ab_user = u\<rparr>"

definition agent_user_id :: "('sk, 'pk, 'x) crypto_lib_scheme \<Rightarrow> agent_braid \<Rightarrow> logical_agent_id \<Rightarrow> user_id" where
  "agent_user_id L ab agent = derive_agent_id L (ab_user ab) agent"

text \<open>Insert a changeset and make it the head of \<open>u\<close>, as every commit does.\<close>

definition commit_change :: "int \<Rightarrow> user_id \<Rightarrow> changeset \<Rightarrow> braid_dag \<Rightarrow> braid_dag" where
  "commit_change now u c d = update_peer_head now u (cs_id c) (cs_index c) (dag_insert c d)"

definition agent_changeset ::
  "('sk, 'pk, 'x) braid_lib_scheme \<Rightarrow> int \<Rightarrow> logical_agent_id \<Rightarrow> string \<Rightarrow> symlink_index \<Rightarrow> evidence \<Rightarrow>
    agent_braid \<Rightarrow> changeset" where
  "agent_changeset L timestamp agent intent index evidence ab =
    (let a = agent_user_id L ab agent; head = peer_heads (ab_dag ab) a in
     new_unsigned L a (case head of Some ps \<Rightarrow> [ph_head ps] | None \<Rightarrow> []) intent index
       (map_option ph_index head) evidence timestamp)"

definition agent_land ::
  "('sk, 'pk, 'x) braid_lib_scheme \<Rightarrow> int \<Rightarrow> int \<Rightarrow> logical_agent_id \<Rightarrow> string \<Rightarrow> symlink_index \<Rightarrow> evidence \<Rightarrow>
    agent_braid \<Rightarrow> change_id \<times> agent_braid" where
  "agent_land L timestamp now agent intent index evidence ab =
    (let c = agent_changeset L timestamp agent intent index evidence ab
     in (cs_id c, ab\<lparr>ab_dag := commit_change now (agent_user_id L ab agent) c (ab_dag ab)\<rparr>))"

definition agent_forks ::
  "('sk, 'pk, 'x) crypto_lib_scheme \<Rightarrow> agent_braid \<Rightarrow> logical_agent_id list \<Rightarrow> (logical_agent_id \<times> peer_head) list" where
  "agent_forks L ab roster =
    List.map_filter (\<lambda>agent. case peer_heads (ab_dag ab) (agent_user_id L ab agent) of
        None \<Rightarrow> None
      | Some ps \<Rightarrow>
          if (case peer_heads (ab_dag ab) (ab_user ab) of None \<Rightarrow> True | Some uh \<Rightarrow> ph_head ps \<noteq> ph_head uh)
          then Some (agent, ps) else None) roster"

definition diff_agent :: "('sk, 'pk, 'x) crypto_lib_scheme \<Rightarrow> agent_braid \<Rightarrow> logical_agent_id \<Rightarrow> index_delta" where
  "diff_agent L ab agent =
    (case peer_heads (ab_dag ab) (agent_user_id L ab agent) of
       None \<Rightarrow> Map.empty
     | Some ps \<Rightarrow> (case peer_heads (ab_dag ab) (ab_user ab) of
         None \<Rightarrow> delta_from_root (ph_index ps)
       | Some uh \<Rightarrow> index_diff (ph_index ps) (ph_index uh)))"

text \<open>
  \<open>Iterator::max_by_key\<close> takes the last of several maxima. The common ancestors are taken in the
  order \<open>ord\<close>; identifiers that are not stored make no difference.
\<close>

definition latest :: "changeset list \<Rightarrow> changeset option" where
  "latest cs = foldl (\<lambda>best c. case best of
      None \<Rightarrow> Some c | Some b \<Rightarrow> if cs_timestamp c \<ge> cs_timestamp b then Some c else Some b) None cs"

definition find_merge_base ::
  "change_id list \<Rightarrow> braid_dag \<Rightarrow> peer_head \<Rightarrow> peer_head option \<Rightarrow> symlink_index option" where
  "find_merge_base ord d agent_state user_state =
    (case user_state of
       None \<Rightarrow> Some Map.empty
     | Some us \<Rightarrow>
         Option.bind (ancestors d (ph_head agent_state)) (\<lambda>agent_ancestors.
         Option.bind (ancestors d (ph_head us)) (\<lambda>user_ancestors.
         Some (if ph_head us \<in> agent_ancestors then ph_index us
          else if ph_head agent_state \<in> user_ancestors then ph_index agent_state
          else case latest (List.map_filter (dag_get d) (filter (\<lambda>i. i \<in> agent_ancestors \<inter> user_ancestors) ord)) of
              Some c \<Rightarrow> cs_index c
            | None \<Rightarrow> Map.empty))))"

text \<open>The merged changeset that \<open>merge_agent\<close> builds for the agent's head, and the conflicts.\<close>

definition prepare_merge ::
  "('sk, 'pk, 'x) braid_lib_scheme \<Rightarrow> change_id list \<Rightarrow> int \<Rightarrow> int \<Rightarrow> logical_agent_id \<Rightarrow> peer_head \<Rightarrow>
    agent_braid \<Rightarrow> (changeset \<times> conflict list) option" where
  "prepare_merge L ord approved timestamp agent agent_state ab =
    (let user_state = peer_heads (ab_dag ab) (ab_user ab) in
     Option.bind (find_merge_base ord (ab_dag ab) agent_state user_state) (\<lambda>base.
     let user_index = (case user_state of Some us \<Rightarrow> ph_index us | None \<Rightarrow> Map.empty);
         (merged, conflicts) = three_way_merge base user_index (ph_index agent_state);
         parents = ph_head agent_state # (case user_state of Some us \<Rightarrow> [ph_head us] | None \<Rightarrow> [])
     in Some (new_unsigned L (ab_user ab) parents (''merge from agent '' @ agent) merged (Some user_index)
            (evidence_human approved (ab_user ab) (Some (''merge agent '' @ agent))) timestamp, conflicts)))"

definition merge_agent ::
  "('sk, 'pk, 'x) braid_lib_scheme \<Rightarrow> change_id list \<Rightarrow> int \<Rightarrow> int \<Rightarrow> int \<Rightarrow> logical_agent_id \<Rightarrow>
    agent_braid \<Rightarrow> (merge_result option \<times> agent_braid) option" where
  "merge_agent L ord approved timestamp now agent ab =
    (case peer_heads (ab_dag ab) (agent_user_id L ab agent) of
       None \<Rightarrow> Some (None, ab)
     | Some agent_state \<Rightarrow>
         map_option (\<lambda>(c, conflicts).
             (Some \<lparr>mr_change_id = cs_id c, mr_index = cs_index c, mr_conflicts = conflicts\<rparr>,
              ab\<lparr>ab_dag := commit_change now (ab_user ab) c (ab_dag ab)\<rparr>))
           (prepare_merge L ord approved timestamp agent agent_state ab))"

text \<open>The loop of \<open>merge_all_agents\<close>; \<open>env k\<close> gives the order and the clock readings of the \<open>k\<close>-th merge.\<close>

fun merge_each ::
  "('sk, 'pk, 'x) braid_lib_scheme \<Rightarrow> (nat \<Rightarrow> change_id list \<times> int \<times> int \<times> int) \<Rightarrow> nat \<Rightarrow> logical_agent_id list \<Rightarrow>
    merge_result option \<Rightarrow> agent_braid \<Rightarrow> (merge_result option \<times> agent_braid) option" where
  "merge_each L env k [] result ab = Some (result, ab)"
| "merge_each L env k (agent # rest) result ab =
    (case env k of (ord, approved, timestamp, now) \<Rightarrow>
      Option.bind (merge_agent L ord approved timestamp now agent ab) (\<lambda>(result, ab).
        merge_each L env (k + 1) rest result ab))"

definition merge_all_agents ::
  "('sk, 'pk, 'x) braid_lib_scheme \<Rightarrow> (nat \<Rightarrow> change_id list \<times> int \<times> int \<times> int) \<Rightarrow> logical_agent_id list \<Rightarrow>
    agent_braid \<Rightarrow> (merge_result option \<times> agent_braid) option" where
  "merge_all_agents L env roster ab = merge_each L env 0 (map fst (agent_forks L ab roster)) None ab"

definition user_head :: "agent_braid \<Rightarrow> peer_head option" where
  "user_head ab = peer_heads (ab_dag ab) (ab_user ab)"

definition rollup_to_user_head :: "change_id list \<Rightarrow> agent_braid \<Rightarrow> (content_addr set \<times> agent_braid) option" where
  "rollup_to_user_head ord ab =
    (case peer_heads (ab_dag ab) (ab_user ab) of
       None \<Rightarrow> Some ({}, ab)
     | Some ps \<Rightarrow>
         let d = (ab_dag ab)\<lparr>peer_heads := (peer_heads (ab_dag ab)) |` {ab_user ab}\<rparr>
         in map_option (\<lambda>(freed, d). (freed, ab\<lparr>ab_dag := d\<rparr>)) (rollup ord (ph_head ps) d))"

definition inner_referenced_addrs :: "agent_braid \<Rightarrow> content_addr set" where
  "inner_referenced_addrs ab =
    (\<Union>h \<in> ran (peer_heads (ab_dag ab)). ran (ph_index h)) \<union> (\<Union>c \<in> ran (changesets (ab_dag ab)). ran (cs_index c))"

section \<open>Heads and the changesets behind them\<close>

text \<open>
  A head is backed: its changeset is stored, has the index the head carries and was authored by
  the head's owner.
\<close>

definition backed :: "braid_dag \<Rightarrow> bool" where
  "backed d \<longleftrightarrow> dag_ok d \<and> (\<forall>i c. changesets d i = Some c \<longrightarrow> finite (dom (cs_index c))) \<and>
    (\<forall>u h. peer_heads d u = Some h \<longrightarrow>
      (\<exists>c. changesets d (ph_head h) = Some c \<and> cs_index c = ph_index h \<and> cs_author c = u))"

text \<open>No collision: a stored changeset with the identifier of a new one agrees with it on what is hashed.\<close>

definition no_collision :: "braid_dag \<Rightarrow> changeset \<Rightarrow> bool" where
  "no_collision d c \<longleftrightarrow> (\<forall>x. changesets d (cs_id c) = Some x \<longrightarrow>
    cs_author x = cs_author c \<and> cs_parents x = cs_parents c \<and> cs_index x = cs_index c)"

lemma new_dag_backed [simp]: "backed new_dag"
  by (simp add: backed_def new_dag_def dag_ok_def key_matches_def)

lemma changesets_commit:
  "changesets (commit_change now u c d) i =
    (if i = cs_id c then (case changesets d i of Some x \<Rightarrow> Some x | None \<Rightarrow> Some c) else changesets d i)"
  by (auto simp: commit_change_def update_peer_head_def dag_insert_def split: option.splits)

lemma peer_heads_commit:
  "peer_heads (commit_change now u c d) v =
    (if v = u then Some \<lparr>ph_head = cs_id c, ph_index = cs_index c, ph_updated_ms = now\<rparr> else peer_heads d v)"
  by (auto simp: commit_change_def update_peer_head_def dag_insert_def split: option.splits)

lemma commit_stored:
  assumes "no_collision d c"
  shows "\<exists>x. changesets (commit_change now u c d) (cs_id c) = Some x \<and>
    cs_author x = cs_author c \<and> cs_parents x = cs_parents c \<and> cs_index x = cs_index c"
  using assms by (cases "changesets d (cs_id c)") (auto simp: changesets_commit no_collision_def)

lemma commit_ok: "dag_ok d \<Longrightarrow> dag_ok (commit_change now u c d)"
  using dag_insert_ok[of d c] by (simp add: commit_change_def update_peer_head_def dag_ok_def)

lemma backed_head: "backed d \<Longrightarrow> peer_heads d u = Some h \<Longrightarrow>
    \<exists>c. changesets d (ph_head h) = Some c \<and> cs_index c = ph_index h \<and> cs_author c = u"
  unfolding backed_def by blast

lemma backed_index: "backed d \<Longrightarrow> changesets d i = Some c \<Longrightarrow> finite (dom (cs_index c))"
  unfolding backed_def by blast

lemma commit_backed:
  assumes "backed d" and "no_collision d c" and "finite (dom (cs_index c))" and "cs_author c = u"
  shows "backed (commit_change now u c d)"
  unfolding backed_def
proof (intro conjI allI impI)
  show "dag_ok (commit_change now u c d)" using assms(1) by (simp add: backed_def commit_ok)
  show "finite (dom (cs_index x))" if "changesets (commit_change now u c d) i = Some x" for i x
    using that assms(1,3) by (auto simp: changesets_commit backed_def split: if_splits option.splits)
  fix v h assume h: "peer_heads (commit_change now u c d) v = Some h"
  show "\<exists>x. changesets (commit_change now u c d) (ph_head h) = Some x \<and> cs_index x = ph_index h \<and> cs_author x = v"
  proof (cases "v = u")
    case True
    with h commit_stored[OF assms(2), of now u] assms(4) show ?thesis by (auto simp: peer_heads_commit)
  next
    case False
    with h have "peer_heads d v = Some h" by (simp add: peer_heads_commit)
    from backed_head[OF assms(1) this] obtain x where "changesets d (ph_head h) = Some x" "cs_index x = ph_index h" "cs_author x = v"
      by (elim exE conjE)
    then show ?thesis by (auto simp: changesets_commit)
  qed
qed

lemma new_unsigned_sel [simp]:
  "cs_author (new_unsigned L u ps i ix px e t) = u" "cs_index (new_unsigned L u ps i ix px e t) = ix"
  "cs_parents (new_unsigned L u ps i ix px e t) = sort ps"
  by (simp_all add: new_unsigned_def Let_def)

lemma with_index_sel [simp]:
  "cs_author (with_index L u ps i ix px e t k) = u" "cs_index (with_index L u ps i ix px e t k) = ix"
  "cs_parents (with_index L u ps i ix px e t k) = sort ps"
  by (simp_all add: with_index_def Let_def)

lemma backed_finite_index: "backed d \<Longrightarrow> peer_heads d u = Some h \<Longrightarrow> finite (dom (ph_index h))"
  using backed_head[of d u h] backed_index[of d "ph_head h"] by fastforce

lemma ancestors_returns: "backed d \<Longrightarrow> ancestors d i = Some {x. (i, x) \<in> (parent_rel d)\<^sup>+}"
  by (simp add: backed_def dag_ok_def ancestors_exact)

lemma latest_member: "latest cs = Some c \<Longrightarrow> c \<in> set cs"
proof -
  have "foldl (\<lambda>best c. case best of None \<Rightarrow> Some c | Some b \<Rightarrow> if cs_timestamp c \<ge> cs_timestamp b then Some c else Some b) a cs = Some c
      \<Longrightarrow> c \<in> set cs \<or> a = Some c" for a
    by (induction cs arbitrary: a) (fastforce split: option.splits if_splits)+
  then show "latest cs = Some c \<Longrightarrow> c \<in> set cs" unfolding latest_def by blast
qed

text \<open>The merge base is the index of a changeset both heads descend from, or nothing.\<close>

lemma find_merge_base_common:
  assumes "backed d" and "peer_heads d a = Some ast"
    and "case ust of None \<Rightarrow> True | Some us \<Rightarrow> peer_heads d u = Some us"
  shows "\<exists>base. find_merge_base ord d ast ust = Some base \<and> finite (dom base) \<and>
    (base = Map.empty \<or> (\<exists>us i c. ust = Some us \<and> changesets d i = Some c \<and> cs_index c = base \<and>
      (ph_head ast, i) \<in> (parent_rel d)\<^sup>* \<and> (ph_head us, i) \<in> (parent_rel d)\<^sup>*))"
proof (cases ust)
  case (Some us)
  with assms(3) have us: "peer_heads d u = Some us" by simp
  define A where "A = {x. (ph_head ast, x) \<in> (parent_rel d)\<^sup>+}"
  define U where "U = {x. (ph_head us, x) \<in> (parent_rel d)\<^sup>+}"
  have A: "x \<in> A \<Longrightarrow> (ph_head ast, x) \<in> (parent_rel d)\<^sup>*" for x by (auto simp: A_def)
  have U: "x \<in> U \<Longrightarrow> (ph_head us, x) \<in> (parent_rel d)\<^sup>*" for x by (auto simp: U_def)
  obtain c1 where c1: "changesets d (ph_head us) = Some c1" "cs_index c1 = ph_index us" using backed_head[OF assms(1) us] by auto
  obtain c2 where c2: "changesets d (ph_head ast) = Some c2" "cs_index c2 = ph_index ast" using backed_head[OF assms(1,2)] by auto
  have e: "find_merge_base ord d ast ust =
    Some (if ph_head us \<in> A then ph_index us else if ph_head ast \<in> U then ph_index ast
      else case latest (List.map_filter (dag_get d) (filter (\<lambda>i. i \<in> A \<inter> U) ord)) of Some c \<Rightarrow> cs_index c | None \<Rightarrow> Map.empty)"
    by (simp add: find_merge_base_def Some ancestors_returns[OF assms(1)] A_def U_def)
  consider "ph_head us \<in> A" | "ph_head us \<notin> A" "ph_head ast \<in> U"
    | "ph_head us \<notin> A" "ph_head ast \<notin> U" by blast
  then show ?thesis
  proof cases
    case 1
    with A c1 e Some backed_finite_index[OF assms(1) us] show ?thesis by auto
  next
    case 2
    with U c2 e Some backed_finite_index[OF assms(1,2)] show ?thesis by auto
  next
    case 3
    define l where "l = latest (List.map_filter (dag_get d) (filter (\<lambda>i. i \<in> A \<inter> U) ord))"
    have e3: "find_merge_base ord d ast ust = Some (case l of Some c \<Rightarrow> cs_index c | None \<Rightarrow> Map.empty)"
      using 3 by (simp add: e l_def)
    show ?thesis
    proof (cases l)
      case None
      then show ?thesis by (simp add: e3)
    next
      case (Some c)
      then have "c \<in> set (List.map_filter (dag_get d) (filter (\<lambda>i. i \<in> A \<inter> U) ord))" by (simp add: l_def latest_member)
      then obtain i where i: "i \<in> A" "i \<in> U" "changesets d i = Some c" by (auto simp: set_map_filter dag_get_def)
      with assms(1) have "finite (dom (cs_index c))" by (auto simp: backed_def)
      with i A[of i] U[of i] \<open>ust = Some us\<close> Some show ?thesis unfolding e3 by auto
    qed
  qed
qed (simp add: find_merge_base_def)

section \<open>Runs of the inner braid\<close>

datatype agent_call =
    AgentLand int int logical_agent_id string symlink_index evidence
  | MergeAgent "change_id list" int int int logical_agent_id
  | RollupToUserHead "change_id list"

fun agent_run :: "('sk, 'pk, 'x) braid_lib_scheme \<Rightarrow> agent_call \<Rightarrow> agent_braid \<Rightarrow> agent_braid option" where
  "agent_run L (AgentLand ts now agent intent index evidence) ab = Some (snd (agent_land L ts now agent intent index evidence ab))"
| "agent_run L (MergeAgent ord approved ts now agent) ab = map_option snd (merge_agent L ord approved ts now agent ab)"
| "agent_run L (RollupToUserHead ord) ab = map_option snd (rollup_to_user_head ord ab)"

text \<open>The changeset a call commits, if any.\<close>

fun built_by :: "('sk, 'pk, 'x) braid_lib_scheme \<Rightarrow> agent_call \<Rightarrow> agent_braid \<Rightarrow> changeset option" where
  "built_by L (AgentLand ts now agent intent index evidence) ab = Some (agent_changeset L ts agent intent index evidence ab)"
| "built_by L (MergeAgent ord approved ts now agent) ab =
    Option.bind (peer_heads (ab_dag ab) (agent_user_id L ab agent)) (\<lambda>st. map_option fst (prepare_merge L ord approved ts agent st ab))"
| "built_by L (RollupToUserHead ord) ab = None"

text \<open>What a call is given: a finite index, and an iteration order over the stored changesets.\<close>

fun call_ok :: "agent_call \<Rightarrow> agent_braid \<Rightarrow> bool" where
  "call_ok (AgentLand ts now agent intent index evidence) ab \<longleftrightarrow> finite (dom index)"
| "call_ok (MergeAgent ord approved ts now agent) ab \<longleftrightarrow> set ord = dom (changesets (ab_dag ab))"
| "call_ok (RollupToUserHead ord) ab \<longleftrightarrow> set ord = dom (changesets (ab_dag ab))"

inductive agent_reach :: "('sk, 'pk, 'x) braid_lib_scheme \<Rightarrow> user_id \<Rightarrow> agent_braid \<Rightarrow> bool" for L u where
  start: "agent_reach L u (new_agent_braid u)"
| step: "agent_reach L u ab \<Longrightarrow> call_ok call ab \<Longrightarrow> pred_option (no_collision (ab_dag ab)) (built_by L call ab) \<Longrightarrow>
    agent_run L call ab = Some ab' \<Longrightarrow> agent_reach L u ab'"

lemma merged_domain: "dom (fst (three_way_merge base ours theirs)) = dom ours \<union> dom theirs"
proof (rule set_eqI)
  fix p show "p \<in> dom (fst (three_way_merge base ours theirs)) \<longleftrightarrow> p \<in> dom ours \<union> dom theirs"
    by (cases "base p"; cases "ours p"; cases "theirs p") (auto simp: three_way_merge_def merge_entry_def)
qed

lemma merged_entry:
  "fst (three_way_merge base ours theirs) p =
    (if theirs p = None then ours p else if ours p = None \<or> theirs p \<noteq> base p then theirs p else ours p)"
  by (cases "base p"; cases "ours p"; cases "theirs p") (auto simp: three_way_merge_def merge_entry_def)

text \<open>What \<open>prepare_merge\<close> builds on a backed braid.\<close>

lemma prepare_merge_backed:
  assumes "backed (ab_dag ab)" and "peer_heads (ab_dag ab) a = Some st"
  defines "ust \<equiv> peer_heads (ab_dag ab) (ab_user ab)"
  defines "ours \<equiv> (case ust of Some us \<Rightarrow> ph_index us | None \<Rightarrow> Map.empty)"
  shows "\<exists>c conflicts base. prepare_merge L ord ap ts agent st ab = Some (c, conflicts) \<and>
    find_merge_base ord (ab_dag ab) st ust = Some base \<and> finite (dom base) \<and>
    three_way_merge base ours (ph_index st) = (cs_index c, conflicts) \<and>
    cs_author c = ab_user ab \<and>
    cs_parents c = sort (ph_head st # (case ust of Some us \<Rightarrow> [ph_head us] | None \<Rightarrow> [])) \<and> finite (dom (cs_index c))"
proof -
  have "case ust of None \<Rightarrow> True | Some us \<Rightarrow> peer_heads (ab_dag ab) (ab_user ab) = Some us"
    by (simp add: ust_def split: option.splits)
  from find_merge_base_common[OF assms(1,2) this, of ord] obtain base where
    base: "find_merge_base ord (ab_dag ab) st ust = Some base" "finite (dom base)" by blast
  obtain merged conflicts where m: "three_way_merge base ours (ph_index st) = (merged, conflicts)" by fastforce
  have "finite (dom ours)" using backed_finite_index[OF assms(1)] by (auto simp: ours_def ust_def split: option.splits)
  with merged_domain[of base ours "ph_index st"] m backed_finite_index[OF assms(1,2)] have "finite (dom merged)" by simp
  then show ?thesis using base m by (simp add: prepare_merge_def ust_def[symmetric] ours_def[symmetric] Let_def)
qed

lemma agent_changeset_sel [simp]:
  "cs_author (agent_changeset L ts agent intent index ev ab) = agent_user_id L ab agent"
  "cs_index (agent_changeset L ts agent intent index ev ab) = index"
  by (simp_all add: agent_changeset_def Let_def)

lemma rollup_backed:
  assumes "backed d" and "set ord = dom (changesets d)" and "peer_heads d u = Some ps"
    and "rollup ord (ph_head ps) (d\<lparr>peer_heads := peer_heads d |` {u}\<rparr>) = Some (freed, d')"
  shows "backed d' \<and> peer_heads d' = [u \<mapsto> ps] \<and>
    (\<forall>i. changesets d' i = (if (i, ph_head ps) \<in> (parent_rel d)\<^sup>* then changesets d i else None))"
proof -
  let ?d = "d\<lparr>peer_heads := peer_heads d |` {u}\<rparr>"
  have ok: "dag_ok ?d" "set ord = dom (changesets ?d)" using assms(1,2) by (simp_all add: backed_def dag_ok_def)
  have rel: "parent_rel ?d = parent_rel d" by (simp add: parent_rel_def parents_of_def)
  have h: "peer_heads d' = peer_heads d |` {u}"
    and c: "changesets d' i = (if (i, ph_head ps) \<in> (parent_rel d)\<^sup>* then changesets d i else None)" for i
    using assms(4) by (auto simp: rollup_def Let_def descendants_exact[OF ok] rel)
  have one: "peer_heads d' = [u \<mapsto> ps]" using assms(3) by (auto simp: h restrict_map_def fun_eq_iff)
  have "dom (changesets d') \<subseteq> dom (changesets d)" by (auto simp: c split: if_splits)
  with assms(1) have "dag_ok d'"
    by (auto simp: backed_def dag_ok_def key_matches_def c intro: finite_subset split: if_splits)
  moreover have "finite (dom (cs_index x))" if "changesets d' i = Some x" for i x
    using that backed_index[OF assms(1), of i x] by (simp add: c split: if_splits)
  moreover have "\<exists>x. changesets d' (ph_head h) = Some x \<and> cs_index x = ph_index h \<and> cs_author x = v"
    if "peer_heads d' v = Some h" for v h
  proof -
    from that one have "v = u" "h = ps" by (auto split: if_splits)
    with backed_head[OF assms(1,3)] show ?thesis by (simp add: c)
  qed
  ultimately show ?thesis using one c unfolding backed_def by blast
qed

lemma agent_run_backed:
  assumes "backed (ab_dag ab)" and "call_ok call ab" and "pred_option (no_collision (ab_dag ab)) (built_by L call ab)"
  shows "\<exists>ab'. agent_run L call ab = Some ab' \<and> backed (ab_dag ab') \<and> ab_user ab' = ab_user ab"
proof (cases call)
  case (AgentLand ts now agent intent index ev)
  with assms show ?thesis by (simp add: agent_land_def Let_def commit_backed)
next
  case (MergeAgent ord ap ts now agent)
  show ?thesis
  proof (cases "peer_heads (ab_dag ab) (agent_user_id L ab agent)")
    case None
    with MergeAgent assms show ?thesis by (simp add: merge_agent_def)
  next
    case (Some st)
    from prepare_merge_backed[OF assms(1) this, of L ord ap ts agent] obtain c conflicts where
      p: "prepare_merge L ord ap ts agent st ab = Some (c, conflicts)" "cs_author c = ab_user ab" "finite (dom (cs_index c))" by blast
    with MergeAgent Some assms(3) have "no_collision (ab_dag ab) c" by simp
    with p Some MergeAgent assms(1) show ?thesis by (simp add: merge_agent_def commit_backed)
  qed
next
  case (RollupToUserHead ord)
  show ?thesis
  proof (cases "peer_heads (ab_dag ab) (ab_user ab)")
    case None
    with RollupToUserHead assms show ?thesis by (simp add: rollup_to_user_head_def)
  next
    case (Some ps)
    let ?d = "(ab_dag ab)\<lparr>peer_heads := peer_heads (ab_dag ab) |` {ab_user ab}\<rparr>"
    have ord: "set ord = dom (changesets (ab_dag ab))" using assms(2) RollupToUserHead by simp
    then have "dag_ok ?d" "set ord = dom (changesets ?d)" using assms(1) by (simp_all add: backed_def dag_ok_def)
    from descendants_exact[OF this, of "ph_head ps"] obtain freed d' where
      r: "rollup ord (ph_head ps) ?d = Some (freed, d')" by (auto simp: rollup_def Let_def)
    from rollup_backed[OF assms(1) ord Some r] r Some RollupToUserHead show ?thesis by (simp add: rollup_to_user_head_def Let_def)
  qed
qed

lemma agent_reach_backed: "agent_reach L u ab \<Longrightarrow> backed (ab_dag ab) \<and> ab_user ab = u"
proof (induction rule: agent_reach.induct)
  case start
  show ?case by (simp add: new_agent_braid_def)
next
  case (step ab call ab')
  with agent_run_backed[of ab call L] show ?case by auto
qed

text \<open>
  C25: The inner braid stays consistent whatever its callers do: after any sequence of landings, merges
  and rollups the head of every agent and of the user names a stored changeset of its own,
  with the index the head carries, and every further call returns; provided that no two
  changesets with different content have the same identifier.
\<close>

theorem inner_heads_backed:
  assumes "agent_reach L u ab" and "call_ok call ab"
  shows "ab_user ab = u \<and> finite (dom (changesets (ab_dag ab))) \<and>
    (\<forall>v h. peer_heads (ab_dag ab) v = Some h \<longrightarrow>
      (\<exists>c. changesets (ab_dag ab) (ph_head h) = Some c \<and> cs_id c = ph_head h \<and> cs_index c = ph_index h \<and> cs_author c = v)) \<and>
    agent_run L call ab \<noteq> None"
proof -
  note b = agent_reach_backed[OF assms(1)]
  have "agent_run L call ab \<noteq> None"
  proof (cases call)
    case (MergeAgent ord ap ts now agent)
    show ?thesis
    proof (cases "peer_heads (ab_dag ab) (agent_user_id L ab agent)")
      case (Some st)
      from prepare_merge_backed[OF conjunct1[OF b] this, of L ord ap ts agent] obtain c conflicts where
        "prepare_merge L ord ap ts agent st ab = Some (c, conflicts)" by blast
      then show ?thesis by (simp add: MergeAgent merge_agent_def Some)
    qed (simp add: MergeAgent merge_agent_def)
  next
    case (RollupToUserHead ord)
    with agent_run_backed[of ab call L] b assms(2) show ?thesis by auto
  qed simp
  moreover have "\<exists>c. changesets (ab_dag ab) (ph_head h) = Some c \<and> cs_id c = ph_head h \<and> cs_index c = ph_index h \<and> cs_author c = v"
    if "peer_heads (ab_dag ab) v = Some h" for v h
    using backed_head[OF conjunct1[OF b] that] b by (auto simp: backed_def dag_ok_def key_matches_def)
  ultimately show ?thesis using b by (auto simp: backed_def dag_ok_def)
qed

definition user_index :: "agent_braid \<Rightarrow> symlink_index" where
  "user_index ab = (case user_head ab of Some h \<Rightarrow> ph_index h | None \<Rightarrow> Map.empty)"

lemma find_merge_base_returns: "finite (dom (changesets d)) \<Longrightarrow> \<exists>base. find_merge_base ord d st ust = Some base"
  by (cases ust) (simp_all add: find_merge_base_def ancestors_exact)

lemma merge_agent_effect:
  assumes "dag_ok (ab_dag ab)" and "peer_heads (ab_dag ab) (agent_user_id L ab agent) = Some st"
  shows "\<exists>r ab' base. merge_agent L ord ap ts now agent ab = Some (Some r, ab') \<and> dag_ok (ab_dag ab') \<and> ab_user ab' = ab_user ab \<and>
    user_index ab' = fst (three_way_merge base (user_index ab) (ph_index st)) \<and>
    (\<forall>v. v \<noteq> ab_user ab \<longrightarrow> peer_heads (ab_dag ab') v = peer_heads (ab_dag ab) v)"
proof -
  let ?ust = "peer_heads (ab_dag ab) (ab_user ab)"
  have "finite (dom (changesets (ab_dag ab)))" using assms(1) by (simp add: dag_ok_def)
  then obtain base where base: "find_merge_base ord (ab_dag ab) st ?ust = Some base"
    using find_merge_base_returns by blast
  obtain merged conflicts where m: "three_way_merge base (user_index ab) (ph_index st) = (merged, conflicts)" by fastforce
  let ?c = "new_unsigned L (ab_user ab) (ph_head st # (case ?ust of Some us \<Rightarrow> [ph_head us] | None \<Rightarrow> []))
      (''merge from agent '' @ agent) merged (Some (user_index ab))
      (evidence_human ap (ab_user ab) (Some (''merge agent '' @ agent))) ts"
  have "prepare_merge L ord ap ts agent st ab = Some (?c, conflicts)"
    using m by (simp add: prepare_merge_def base Let_def user_index_def user_head_def)
  then have "merge_agent L ord ap ts now agent ab =
    Some (Some \<lparr>mr_change_id = cs_id ?c, mr_index = merged, mr_conflicts = conflicts\<rparr>,
      ab\<lparr>ab_dag := commit_change now (ab_user ab) ?c (ab_dag ab)\<rparr>)"
    by (simp add: merge_agent_def assms(2))
  moreover have "user_index (ab\<lparr>ab_dag := commit_change now (ab_user ab) ?c (ab_dag ab)\<rparr>) =
      fst (three_way_merge base (user_index ab) (ph_index st))"
    by (simp add: user_index_def[of "ab\<lparr>ab_dag := _\<rparr>"] user_head_def peer_heads_commit m)
  ultimately show ?thesis using assms(1) by (auto simp: commit_ok peer_heads_commit)
qed

lemma merge_each_effect:
  assumes "dag_ok (ab_dag ab)"
    and "list_all (\<lambda>a. agent_user_id L ab a \<noteq> ab_user ab \<and> peer_heads (ab_dag ab) (agent_user_id L ab a) \<noteq> None) agents"
  defines "theirs \<equiv> \<lambda>a. ph_index (the (peer_heads (ab_dag ab) (agent_user_id L ab a)))"
  shows "\<exists>r' ab'. merge_each L env k agents r ab = Some (r', ab') \<and> (agents = [] \<or> r' \<noteq> None) \<and>
    dom (user_index ab') = dom (user_index ab) \<union> (\<Union>a \<in> set agents. dom (theirs a)) \<and>
    (\<forall>p x. user_index ab' p = Some x \<longrightarrow> user_index ab p = Some x \<or> (\<exists>a \<in> set agents. theirs a p = Some x)) \<and>
    (\<forall>v. v \<noteq> ab_user ab \<longrightarrow> peer_heads (ab_dag ab') v = peer_heads (ab_dag ab) v)"
  using assms(1,2) unfolding theirs_def
proof (induction agents arbitrary: ab k r)
  case (Cons a agents)
  obtain st where st: "peer_heads (ab_dag ab) (agent_user_id L ab a) = Some st" using Cons.prems by auto
  obtain ord ap ts now where env: "env k = (ord, ap, ts, now)" by (cases "env k") auto
  from merge_agent_effect[OF Cons.prems(1) st, of ord ap ts now] obtain r1 ab1 base where
    m: "merge_agent L ord ap ts now a ab = Some (Some r1, ab1)" and ok: "dag_ok (ab_dag ab1)" and u: "ab_user ab1 = ab_user ab"
    and ix: "user_index ab1 = fst (three_way_merge base (user_index ab) (ph_index st))"
    and same: "\<forall>v. v \<noteq> ab_user ab \<longrightarrow> peer_heads (ab_dag ab1) v = peer_heads (ab_dag ab) v" by (elim exE conjE)
  have ids: "agent_user_id L ab1 b = agent_user_id L ab b" for b by (simp add: agent_user_id_def u)
  have keep: "peer_heads (ab_dag ab1) (agent_user_id L ab b) = peer_heads (ab_dag ab) (agent_user_id L ab b)" if "b \<in> set agents" for b
    using that Cons.prems(2) by (intro same[rule_format]) (auto simp: list_all_iff)
  have all: "list_all (\<lambda>b. agent_user_id L ab1 b \<noteq> ab_user ab1 \<and> peer_heads (ab_dag ab1) (agent_user_id L ab1 b) \<noteq> None) agents"
    using Cons.prems(2) keep by (auto simp: list_all_iff ids u)
  from Cons.IH[OF ok all, of "k + 1" "Some r1"] obtain r' ab' where
    e: "merge_each L env (k + 1) agents (Some r1) ab1 = Some (r', ab')" "agents = [] \<or> r' \<noteq> None"
    and d: "dom (user_index ab') = dom (user_index ab1) \<union> (\<Union>b \<in> set agents. dom (ph_index (the (peer_heads (ab_dag ab1) (agent_user_id L ab1 b)))))"
    and p: "\<forall>p x. user_index ab' p = Some x \<longrightarrow> user_index ab1 p = Some x \<or>
      (\<exists>b \<in> set agents. ph_index (the (peer_heads (ab_dag ab1) (agent_user_id L ab1 b))) p = Some x)"
    and s: "\<forall>v. v \<noteq> ab_user ab1 \<longrightarrow> peer_heads (ab_dag ab') v = peer_heads (ab_dag ab1) v" by (elim exE conjE)
  have r': "r' \<noteq> None" using e by (cases agents) auto
  have d': "dom (user_index ab') = dom (user_index ab) \<union>
      (\<Union>b \<in> set (a # agents). dom (ph_index (the (peer_heads (ab_dag ab) (agent_user_id L ab b)))))"
    using d by (simp add: ix merged_domain ids keep st Un_assoc)
  have p': "user_index ab q = Some x \<or> (\<exists>b \<in> set (a # agents). ph_index (the (peer_heads (ab_dag ab) (agent_user_id L ab b))) q = Some x)"
    if "user_index ab' q = Some x" for q x
  proof -
    from p that have "user_index ab1 q = Some x \<or>
      (\<exists>b \<in> set agents. ph_index (the (peer_heads (ab_dag ab1) (agent_user_id L ab1 b))) q = Some x)" by simp
    then show ?thesis using keep by (auto simp: ix merged_entry ids st split: if_splits)
  qed
  have "merge_each L env k (a # agents) r ab = Some (r', ab')" using e(1) by (simp add: env m)
  with r' d' p' s same u show ?case by (intro exI[of _ r'] exI[of _ ab'] conjI allI impI) simp_all
qed simp

lemma agent_forks_set:
  "(a, h) \<in> set (agent_forks L ab roster) \<longleftrightarrow> a \<in> set roster \<and> peer_heads (ab_dag ab) (agent_user_id L ab a) = Some h \<and>
    (case user_head ab of None \<Rightarrow> True | Some uh \<Rightarrow> ph_head h \<noteq> ph_head uh)"
  by (auto simp: agent_forks_def set_map_filter user_head_def split: option.splits if_splits)

text \<open>
  C26: Merging a roster of agents keeps everybody's files: it returns, the user's index then has exactly the
  paths that the user or an agent with unmerged work had, each with a content that one of them
  gave it, so that a file only one of them has is taken over unchanged; and the agents'
  own heads do not move.
\<close>

theorem merge_all_keeps_files:
  assumes "dag_ok (ab_dag ab)" and "list_all (\<lambda>a. derive_agent_id L (ab_user ab) a \<noteq> ab_user ab) roster"
  shows "\<exists>r ab'. merge_all_agents L env roster ab = Some (r, ab') \<and> (r = None \<longleftrightarrow> agent_forks L ab roster = []) \<and>
    dom (user_index ab') = dom (user_index ab) \<union> (\<Union>(a, h) \<in> set (agent_forks L ab roster). dom (ph_index h)) \<and>
    (\<forall>p x. user_index ab' p = Some x \<longrightarrow>
      user_index ab p = Some x \<or> (\<exists>(a, h) \<in> set (agent_forks L ab roster). ph_index h p = Some x)) \<and>
    (\<forall>v. v \<noteq> ab_user ab \<longrightarrow> peer_heads (ab_dag ab') v = peer_heads (ab_dag ab) v)"
proof -
  let ?forks = "agent_forks L ab roster"
  have f: "a \<in> set roster" "peer_heads (ab_dag ab) (agent_user_id L ab a) = Some h" if "(a, h) \<in> set ?forks" for a h
    using that by (simp_all add: agent_forks_set)
  have "list_all (\<lambda>a. agent_user_id L ab a \<noteq> ab_user ab \<and> peer_heads (ab_dag ab) (agent_user_id L ab a) \<noteq> None) (map fst ?forks)"
    using f assms(2) by (fastforce simp: list_all_iff agent_user_id_def)
  from merge_each_effect[OF assms(1) this, of env 0 None] obtain r ab' where
    m: "merge_all_agents L env roster ab = Some (r, ab')" "?forks = [] \<or> r \<noteq> None"
    and d: "dom (user_index ab') = dom (user_index ab) \<union>
      (\<Union>a \<in> set (map fst ?forks). dom (ph_index (the (peer_heads (ab_dag ab) (agent_user_id L ab a)))))"
    and p: "\<And>p x. user_index ab' p = Some x \<Longrightarrow> user_index ab p = Some x \<or>
      (\<exists>a \<in> set (map fst ?forks). ph_index (the (peer_heads (ab_dag ab) (agent_user_id L ab a))) p = Some x)"
    and s: "\<And>v. v \<noteq> ab_user ab \<Longrightarrow> peer_heads (ab_dag ab') v = peer_heads (ab_dag ab) v"
    by (auto simp: merge_all_agents_def)
  have h: "ph_index (the (peer_heads (ab_dag ab) (agent_user_id L ab (fst x)))) = ph_index (snd x)" if "x \<in> set ?forks" for x
    using f(2)[of "fst x" "snd x"] that by simp
  have d': "dom (user_index ab') = dom (user_index ab) \<union> (\<Union>(a, h) \<in> set ?forks. dom (ph_index h))"
    unfolding d by (simp add: h case_prod_beta)
  have p': "user_index ab q = Some x \<or> (\<exists>(a, h) \<in> set ?forks. ph_index h q = Some x)" if "user_index ab' q = Some x" for q x
    using p[OF that] by (auto simp: h case_prod_beta)
  have "r = None \<longleftrightarrow> ?forks = []" using m by (auto simp: merge_all_agents_def)
  with m(1) d' p' s show ?thesis by (intro exI[of _ r] exI[of _ ab'] conjI allI impI) simp_all
qed

text \<open>A library whose hash keeps what it is given, and a braid in which one agent has landed a file.\<close>

definition sample_braid_lib :: "(unit, unit) braid_lib" where
  "sample_braid_lib = \<lparr>blake3 = id, signature_bytes = 1, detached_sign = (\<lambda>m sk. [1]), detached_ok = (\<lambda>s. True),
    verify_detached = (\<lambda>s m pk. True),
    encode_change = (\<lambda>(author, parents, files, intent, ts). author @ concat parents @ as_bytes intent)\<rparr>"

definition sample_inner :: agent_braid where
  "sample_inner = snd (agent_land sample_braid_lib 5 6 ''a'' ''add'' [''f'' \<mapsto> ContentAddr [9] 1] (EvidenceHuman [1] 4 None)
    (new_agent_braid [1]))"

lemma sample_inner_reach: "agent_reach sample_braid_lib [1] sample_inner"
proof (rule agent_reach.step[OF agent_reach.start])
  show "agent_run sample_braid_lib (AgentLand 5 6 ''a'' ''add'' [''f'' \<mapsto> ContentAddr [9] 1] (EvidenceHuman [1] 4 None))
      (new_agent_braid [1]) = Some sample_inner" by (simp add: sample_inner_def)
qed (simp_all add: no_collision_def new_agent_braid_def new_dag_def)

lemma sample_inner_dag:
  "changesets (ab_dag sample_inner) = [cs_id (agent_changeset sample_braid_lib 5 ''a'' ''add'' [''f'' \<mapsto> ContentAddr [9] 1]
      (EvidenceHuman [1] 4 None) (new_agent_braid [1])) \<mapsto>
    agent_changeset sample_braid_lib 5 ''a'' ''add'' [''f'' \<mapsto> ContentAddr [9] 1] (EvidenceHuman [1] 4 None) (new_agent_braid [1])]"
  by (auto simp: sample_inner_def agent_land_def Let_def changesets_commit new_agent_braid_def new_dag_def fun_eq_iff)

theorem inner_heads_backed_witness:
  "\<exists>ord. agent_reach sample_braid_lib [1] sample_inner \<and>
    agent_run sample_braid_lib (MergeAgent ord 7 8 9 ''a'') sample_inner \<noteq> None \<and>
    peer_heads (ab_dag sample_inner) (derive_agent_id sample_braid_lib [1] ''a'') \<noteq> None"
proof -
  obtain ord where ord: "set ord = dom (changesets (ab_dag sample_inner))"
    using finite_list[of "dom (changesets (ab_dag sample_inner))"] by (auto simp: sample_inner_dag)
  have ok: "call_ok (MergeAgent ord 7 8 9 ''a'') sample_inner" by (simp add: ord)
  have "peer_heads (ab_dag sample_inner) (derive_agent_id sample_braid_lib [1] ''a'') \<noteq> None"
    by (simp add: sample_inner_def agent_land_def Let_def peer_heads_commit agent_user_id_def new_agent_braid_def)
  with inner_heads_backed[OF sample_inner_reach ok] sample_inner_reach show ?thesis by blast
qed

theorem merge_all_keeps_files_witness:
  "\<exists>r ab'. merge_all_agents sample_braid_lib (\<lambda>k. ([], 7, 8, 9)) [''a''] sample_inner = Some (r, ab') \<and>
    r \<noteq> None \<and> dom (user_index ab') = {''f''}"
proof -
  obtain h where h: "agent_forks sample_braid_lib sample_inner [''a''] = [(''a'', h)]" "dom (ph_index h) = {''f''}" "user_index sample_inner = Map.empty"
    by (simp add: sample_inner_def agent_land_def Let_def peer_heads_commit agent_user_id_def new_agent_braid_def user_head_def user_index_def
        agent_forks_def List.map_filter_def new_dag_def derive_agent_id_def sample_braid_lib_def as_bytes_def)
  have ok: "dag_ok (ab_dag sample_inner)" using agent_reach_backed[OF sample_inner_reach] by (simp add: backed_def)
  have ids: "list_all (\<lambda>a. derive_agent_id sample_braid_lib (ab_user sample_inner) a \<noteq> ab_user sample_inner) [''a'']"
    by (simp add: derive_agent_id_def sample_braid_lib_def as_bytes_def)
  from merge_all_keeps_files[OF ok ids, of "\<lambda>k. ([], 7, 8, 9)"] obtain r ab' where "merge_all_agents sample_braid_lib (\<lambda>k. ([], 7, 8, 9)) [''a''] sample_inner = Some (r, ab')"
    "r = None \<longleftrightarrow> agent_forks sample_braid_lib sample_inner [''a''] = []"
    "dom (user_index ab') = dom (user_index sample_inner) \<union> (\<Union>(a, h) \<in> set (agent_forks sample_braid_lib sample_inner [''a'']). dom (ph_index h))"
    by (elim exE conjE)
  then show ?thesis by (simp add: h)
qed

text \<open>An agent whose head has just been merged is reported as a fork all the same, and merged again by \<open>merge_all_agents\<close>.\<close>

lemma merged_agent_still_fork:
  assumes "merge_agent L ord ap ts now agent ab = Some (Some r, ab')" and "agent_user_id L ab agent \<noteq> ab_user ab"
    and "peer_heads (ab_dag ab) (agent_user_id L ab agent) = Some st" and "mr_change_id r \<noteq> ph_head st"
  shows "agent_forks L ab' [agent] = [(agent, st)]"
proof -
  from assms(1,3) obtain c conflicts where "ab' = ab\<lparr>ab_dag := commit_change now (ab_user ab) c (ab_dag ab)\<rparr>" "mr_change_id r = cs_id c"
    by (auto simp: merge_agent_def)
  then show ?thesis using assms(2-4)
    by (simp add: agent_forks_def List.map_filter_def peer_heads_commit agent_user_id_def)
qed

text \<open>
  After a rollup an agent lands a new root, and its merge with the user's head has no base: the
  search for one finds nothing although both continue the same work.
\<close>

lemma rollup_loses_merge_base:
  assumes "backed (ab_dag ab)" and "set ord = dom (changesets (ab_dag ab))" and "user_head ab = Some ps"
    and roll: "rollup_to_user_head ord ab = Some (freed, ab1)"
    and land: "agent_land L ts now agent intent index ev ab1 = (i, ab2)" and "agent_user_id L ab agent \<noteq> ab_user ab"
    and fresh: "changesets (ab_dag ab1) i = None" "(ph_head ps, i) \<notin> (parent_rel (ab_dag ab2))\<^sup>+"
  shows "\<exists>st. peer_heads (ab_dag ab2) (agent_user_id L ab agent) = Some st \<and> ph_index st = index \<and>
    find_merge_base ord' (ab_dag ab2) st (user_head ab2) = Some Map.empty"
proof -
  have head: "peer_heads (ab_dag ab) (ab_user ab) = Some ps" using assms(3) by (simp add: user_head_def)
  from roll head obtain d1 where r: "rollup ord (ph_head ps) ((ab_dag ab)\<lparr>peer_heads := peer_heads (ab_dag ab) |` {ab_user ab}\<rparr>) = Some (freed, d1)"
    and ab1: "ab1 = ab\<lparr>ab_dag := d1\<rparr>" by (auto simp: rollup_to_user_head_def Let_def)
  from rollup_backed[OF assms(1,2) head r] have d1: "backed d1" "peer_heads d1 = [ab_user ab \<mapsto> ps]" by blast+
  let ?a = "agent_user_id L ab agent" and ?c = "agent_changeset L ts agent intent index ev ab1"
  have a: "agent_user_id L ab1 agent = ?a" by (simp add: agent_user_id_def ab1)
  have i: "i = cs_id ?c" and ab2: "ab2 = ab1\<lparr>ab_dag := commit_change now ?a ?c d1\<rparr>"
    using land by (auto simp: agent_land_def Let_def ab1 agent_user_id_def)
  have no: "cs_parents ?c = []" using d1(2) assms(6) by (simp add: agent_changeset_def Let_def a) (simp add: ab1)
  have "dag_ok (commit_change now ?a ?c d1)" using d1(1) by (simp add: backed_def commit_ok)
  then have fin: "finite (dom (changesets (ab_dag ab2)))" by (simp add: ab2 dag_ok_def)
  have c: "changesets (ab_dag ab2) i = Some ?c" using fresh(1) by (simp add: ab2 i changesets_commit ab1)
  have "(i, x) \<notin> parent_rel (ab_dag ab2)" for x using c no by (simp add: parent_rel_def parents_of_def)
  then have "(i, x) \<notin> (parent_rel (ab_dag ab2))\<^sup>+" for x by (blast dest: tranclD)
  then have anc: "ancestors (ab_dag ab2) i = Some {}" by (simp add: ancestors_exact[OF fin])
  have "user_head ab2 = Some ps" using d1(2) assms(6) by (auto simp: user_head_def ab2 ab1 peer_heads_commit)
  moreover have "peer_heads (ab_dag ab2) ?a = Some \<lparr>ph_head = i, ph_index = index, ph_updated_ms = now\<rparr>"
    by (simp add: ab2 peer_heads_commit i)
  ultimately show ?thesis using anc fresh(2)
    by (simp add: find_merge_base_def ancestors_exact[OF fin] List.map_filter_def latest_def)
qed

end
