(* ===== verification/Landing.thy ===== *)
theory Landing
  imports Agent_Braid "HOL-Library.Multiset"
begin

text \<open>
  Landing verified changes in the shared braid: the quality gate of \<open>braid/verification.rs\<close>, \<open>try_land\<close> of
  \<open>realm_braid.rs\<close> and the repair tasks of \<open>heal.rs\<close>, all of \<open>indras-sync-engine/src\<close>. The \<open>cargo\<close> subprocess is a
  parameter: the result of running it with given arguments for the crate at a given position, as
  an I/O error or the exit status with the text of both outputs.
\<close>

section \<open>The quality gate\<close>

record verification_request =
  vr_crates :: "string list"
  vr_workspace_root :: string
  vr_agent :: user_id
  vr_run_clippy :: bool
  vr_run_tests :: bool

definition new_request :: "string list \<Rightarrow> string \<Rightarrow> user_id \<Rightarrow> verification_request" where
  "new_request crates root agent =
    \<lparr>vr_crates = crates, vr_workspace_root = root, vr_agent = agent, vr_run_clippy = True, vr_run_tests = True\<rparr>"

definition without_clippy :: "verification_request \<Rightarrow> verification_request" where
  "without_clippy req = req\<lparr>vr_run_clippy := False\<rparr>"

definition without_tests :: "verification_request \<Rightarrow> verification_request" where
  "without_tests req = req\<lparr>vr_run_tests := False\<rparr>"

datatype verification_failure =
    BuildFailed string string
  | TestFailed string string
  | ClippyFailed string string
  | SpawnError string

record command_output =
  out_success :: bool
  out_stdout :: string
  out_stderr :: string

type_synonym cargo = "nat \<Rightarrow> string list \<Rightarrow> string + command_output"

definition build_args :: "string \<Rightarrow> string list" where
  "build_args crate = [''build'', ''-p'', crate]"

definition test_args :: "string \<Rightarrow> string list" where
  "test_args crate = [''test'', ''-p'', crate]"

definition clippy_args :: "string \<Rightarrow> string list" where
  "clippy_args crate = [''clippy'', ''-p'', crate, ''--all-targets'', ''--'', ''-D'', ''warnings'']"

text \<open>One round of the loop: the crates whose tests passed after it, or the failure returned.\<close>

definition verify_crate ::
  "cargo \<Rightarrow> verification_request \<Rightarrow> nat \<Rightarrow> string \<Rightarrow> string list \<Rightarrow> verification_failure + string list" where
  "verify_crate cargo req k crate passed =
    (case cargo k (build_args crate) of
       Inl e \<Rightarrow> Inl (SpawnError e)
     | Inr build \<Rightarrow>
    if \<not> out_success build then Inl (BuildFailed crate (out_stderr build))
    else case (if vr_run_tests req then
           (case cargo k (test_args crate) of
              Inl e \<Rightarrow> Inl (SpawnError e)
            | Inr test \<Rightarrow> if out_success test then Inr (passed @ [crate]) else Inl (TestFailed crate (out_stdout test)))
         else Inr passed) of
       Inl e \<Rightarrow> Inl e
     | Inr passed \<Rightarrow>
    if vr_run_clippy req then
      (case cargo k (clippy_args crate) of
         Inl e \<Rightarrow> Inl (SpawnError e)
       | Inr clippy \<Rightarrow> if out_success clippy then Inr passed else Inl (ClippyFailed crate (out_stderr clippy)))
    else Inr passed)"

fun verify_crates ::
  "cargo \<Rightarrow> verification_request \<Rightarrow> nat \<Rightarrow> string list \<Rightarrow> string list \<Rightarrow> verification_failure + string list" where
  "verify_crates cargo req k [] passed = Inr passed"
| "verify_crates cargo req k (crate # crates) passed =
    (case verify_crate cargo req k crate passed of
       Inl e \<Rightarrow> Inl e
     | Inr passed \<Rightarrow> verify_crates cargo req (k + 1) crates passed)"

definition run_verification :: "cargo \<Rightarrow> nat \<Rightarrow> verification_request \<Rightarrow> verification_failure + evidence" where
  "run_verification cargo runtime_ms req =
    (case verify_crates cargo req 0 (vr_crates req) [] of
       Inl e \<Rightarrow> Inl e
     | Inr passed \<Rightarrow> Inr (EvidenceAgent True passed (vr_run_clippy req) runtime_ms (vr_agent req)))"

definition verify_only :: "cargo \<Rightarrow> nat \<Rightarrow> string list \<Rightarrow> string \<Rightarrow> user_id \<Rightarrow> verification_failure + evidence" where
  "verify_only cargo runtime_ms crates root agent = run_verification cargo runtime_ms (new_request crates root agent)"

section \<open>Landing\<close>

datatype try_land_error = NothingToLand | LandVerification verification_failure | LandIo string | LandNetwork string

definition land_changeset ::
  "('sk, 'pk, 'x) braid_lib_scheme \<Rightarrow> int \<Rightarrow> string \<Rightarrow> symlink_index \<Rightarrow> user_id \<Rightarrow> 'sk \<Rightarrow> evidence \<Rightarrow> braid_dag \<Rightarrow> changeset" where
  "land_changeset L timestamp intent index agent identity evidence d =
    with_index L agent (sorted_list_of_set (dag_heads d)) intent index None evidence timestamp identity"

text \<open>
  The document of the braid may fail to open, and its update may fail to be serialised or saved (the messages
  \<open>opened\<close> and \<open>saved\<close>); the update has changed the document in memory by then.
\<close>

definition try_land ::
  "('sk, 'pk, 'x) braid_lib_scheme \<Rightarrow> cargo \<Rightarrow> string option \<Rightarrow> string option \<Rightarrow> nat \<Rightarrow> int \<Rightarrow> string \<Rightarrow> symlink_index \<Rightarrow>
    string list \<Rightarrow> string \<Rightarrow> user_id \<Rightarrow> 'sk \<Rightarrow> (braid_dag, try_land_error, change_id) op" where
  "try_land L cargo opened saved runtime_ms timestamp intent index crates root agent identity d =
    (if dom index = {} then (Inl NothingToLand, d)
     else case verify_only cargo runtime_ms crates root agent of
       Inl e \<Rightarrow> (Inl (LandVerification e), d)
     | Inr evidence \<Rightarrow>
        (case opened of
           Some m \<Rightarrow> (Inl (LandNetwork m), d)
         | None \<Rightarrow>
            let c = land_changeset L timestamp intent index agent identity evidence d
            in (case saved of Some m \<Rightarrow> Inl (LandNetwork m) | None \<Rightarrow> Inr (cs_id c), dag_insert c d)))"

section \<open>Repair tasks\<close>

definition is_white :: "char \<Rightarrow> bool" where
  "is_white c \<longleftrightarrow> of_char c \<in> {9 :: nat, 10, 11, 12, 13, 32}"

definition trim :: "string \<Rightarrow> string" where
  "trim s = rev (dropWhile is_white (rev (dropWhile is_white s)))"

text \<open>\<open>str::lines\<close>: pieces between line feeds without a final carriage return; no empty last piece.\<close>

fun split_lines :: "string \<Rightarrow> string \<Rightarrow> string list" where
  "split_lines piece [] = (if piece = [] then [] else [rev piece])"
| "split_lines piece (c # s) =
    (if c = CHR 0x0A then rev (case piece of d # p \<Rightarrow> if d = CHR 0x0D then p else piece | [] \<Rightarrow> []) # split_lines [] s
     else split_lines (c # piece) s)"

definition first_line :: "string \<Rightarrow> string" where
  "first_line s = trim (case List.find (\<lambda>l. trim l \<noteq> []) (split_lines [] s) of Some l \<Rightarrow> l | None \<Rightarrow> s)"

record repair_task =
  rt_merged_heads :: "change_id list"
  rt_failure :: string
  rt_failing_crates :: "string list"
  rt_suggested_intent :: string

fun failure_summary :: "verification_failure \<Rightarrow> string \<times> string list" where
  "failure_summary (BuildFailed crate err) = (''build failed for crate `'' @ crate @ ''`: '' @ first_line err, [crate])"
| "failure_summary (TestFailed crate out) = (''tests failed for crate `'' @ crate @ ''`: '' @ first_line out, [crate])"
| "failure_summary (ClippyFailed crate err) = (''clippy failed for crate `'' @ crate @ ''`: '' @ first_line err, [crate])"
| "failure_summary (SpawnError e) = (''spawn error running cargo: '' @ e, [])"

definition join :: "string \<Rightarrow> string list \<Rightarrow> string" where
  "join sep xs = (case xs of [] \<Rightarrow> [] | x # xs \<Rightarrow> x @ concat (map (\<lambda>y. sep @ y) xs))"

definition detect_heal_needed ::
  "change_id list \<Rightarrow> change_id list \<Rightarrow> verification_failure + evidence \<Rightarrow> repair_task option" where
  "detect_heal_needed pre post verification =
    (case verification of
       Inr _ \<Rightarrow> None
     | Inl e \<Rightarrow>
        if sort pre = sort post then None
        else let (failure, failing_crates) = failure_summary e in
          Some \<lparr>rt_merged_heads = post, rt_failure = failure, rt_failing_crates = failing_crates,
            rt_suggested_intent = (if failing_crates = [] then ''heal: reconcile after merging from peers''
              else ''heal: reconcile '' @ join '', '' failing_crates @ '' after merging from peers'')\<rparr>)"

definition describe_heal :: "braid_dag \<Rightarrow> change_id list \<Rightarrow> verification_failure + evidence \<Rightarrow> repair_task option" where
  "describe_heal d pre verification = detect_heal_needed pre (head_ids d) verification"

section \<open>Properties\<close>

definition cargo_ok :: "cargo \<Rightarrow> nat \<Rightarrow> string list \<Rightarrow> bool" where
  "cargo_ok cargo k args \<longleftrightarrow> (\<exists>out. cargo k args = Inr out \<and> out_success out)"

lemma verify_crate_passes:
  "verify_crate cargo req k crate passed = Inr passed' \<longleftrightarrow> cargo_ok cargo k (build_args crate) \<and>
    (vr_run_tests req \<longrightarrow> cargo_ok cargo k (test_args crate)) \<and> (vr_run_clippy req \<longrightarrow> cargo_ok cargo k (clippy_args crate)) \<and>
    passed' = (if vr_run_tests req then passed @ [crate] else passed)"
  by (auto simp: verify_crate_def cargo_ok_def split: sum.splits if_splits)

lemma verify_crates_passes:
  "verify_crates cargo req k crates passed = Inr passed' \<longleftrightarrow>
    (\<forall>i < length crates. cargo_ok cargo (k + i) (build_args (crates ! i)) \<and>
      (vr_run_tests req \<longrightarrow> cargo_ok cargo (k + i) (test_args (crates ! i))) \<and>
      (vr_run_clippy req \<longrightarrow> cargo_ok cargo (k + i) (clippy_args (crates ! i)))) \<and>
    passed' = (if vr_run_tests req then passed @ crates else passed)"
proof (induction crates arbitrary: k passed)
  case (Cons crate crates)
  show ?case
  proof (cases "verify_crate cargo req k crate passed")
    case (Inl e)
    then have "\<not> (cargo_ok cargo k (build_args crate) \<and> (vr_run_tests req \<longrightarrow> cargo_ok cargo k (test_args crate)) \<and>
        (vr_run_clippy req \<longrightarrow> cargo_ok cargo k (clippy_args crate)))"
      using verify_crate_passes[of cargo req k crate passed "if vr_run_tests req then passed @ [crate] else passed"] by auto
    with Inl show ?thesis by (auto simp: All_less_Suc2)
  next
    case (Inr p)
    then have p: "cargo_ok cargo k (build_args crate) \<and> (vr_run_tests req \<longrightarrow> cargo_ok cargo k (test_args crate)) \<and>
        (vr_run_clippy req \<longrightarrow> cargo_ok cargo k (clippy_args crate))" "p = (if vr_run_tests req then passed @ [crate] else passed)"
      using verify_crate_passes by blast+
    show ?thesis using p(1) by (simp add: Inr Cons.IH All_less_Suc2 p(2))
  qed
qed auto

text \<open>A changeset on top of all heads is the only head.\<close>

lemma insert_on_heads:
  assumes "cs_parents c = sorted_list_of_set (dag_heads d)" and "finite (dom (changesets d))"
    and "changesets d (cs_id c) = None" and "\<And>i x. changesets d i = Some x \<Longrightarrow> cs_id c \<notin> set (cs_parents x)"
  shows "dag_heads (dag_insert c d) = {cs_id c}"
proof -
  have "finite (dag_heads d)" using assms(2) by (auto simp: dag_heads_def Let_def)
  then have ps: "set (cs_parents c) = dag_heads d" using assms(1) by simp
  have ch: "changesets (dag_insert c d) = (changesets d)(cs_id c \<mapsto> c)" using assms(3) by (simp add: dag_insert_def)
  show ?thesis
  proof (rule set_eqI, rule iffI)
    fix h assume "h \<in> dag_heads (dag_insert c d)"
    then have h: "\<exists>x. changesets (dag_insert c d) h = Some x" "\<not> (\<exists>k x. changesets (dag_insert c d) k = Some x \<and> h \<in> set (cs_parents x))"
      by (simp_all add: in_dag_heads)
    show "h \<in> {cs_id c}"
    proof (rule ccontr)
      assume "h \<notin> {cs_id c}"
      moreover have "h \<notin> set (cs_parents x)" if "changesets d k = Some x" for k x
      proof -
        have "changesets (dag_insert c d) k = Some x" using that assms(3) by (auto simp: ch)
        with h(2) show ?thesis by blast
      qed
      ultimately have "h \<in> dag_heads d" unfolding in_dag_heads using h(1) by (auto simp: ch)
      then have "changesets (dag_insert c d) (cs_id c) = Some c" "h \<in> set (cs_parents c)" by (simp_all add: ch ps)
      with h(2) show False by blast
    qed
  next
    fix h assume "h \<in> {cs_id c}"
    have "cs_id c \<notin> dag_heads d" using assms(3) by (simp add: in_dag_heads)
    with \<open>h \<in> {cs_id c}\<close> ps assms(4) show "h \<in> dag_heads (dag_insert c d)"
      unfolding in_dag_heads[of h] by (auto simp: ch split: if_splits)
  qed
qed

text \<open>
  C27: Only verified work lands. When \<open>try_land\<close> changes the braid, the index was not empty and every crate
  declared was built, tested and linted without failure, which is what the evidence of the new
  changeset says; the changeset has all former heads as parents and is the only head afterwards, and no peer's head
  moves. The call then succeeds with the changeset's identifier, unless the changed document could not be saved. In all other cases it
  fails and the braid is as before. The identifier of the new changeset is taken to be new to the braid.
\<close>

theorem landing_verified:
  assumes "try_land L cargo opened saved ms ts intent index crates root agent identity d = (r, d')" and "dag_ok d"
    and "\<And>ev i. i = cs_id (land_changeset L ts intent index agent identity ev d) \<Longrightarrow>
      changesets d i = None \<and> (\<forall>j x. changesets d j = Some x \<longrightarrow> i \<notin> set (cs_parents x))"
  shows "isl r \<and> d' = d \<or>
    (\<exists>i. r = (case saved of None \<Rightarrow> Inr i | Some m \<Rightarrow> Inl (LandNetwork m)) \<and> dom index \<noteq> {} \<and>
        (\<forall>k < length crates. cargo_ok cargo k (build_args (crates ! k)) \<and> cargo_ok cargo k (test_args (crates ! k)) \<and>
          cargo_ok cargo k (clippy_args (crates ! k))) \<and>
        (\<exists>c. changesets d' = (changesets d)(i \<mapsto> c) \<and> cs_author c = agent \<and> cs_index c = index \<and>
          set (cs_parents c) = dag_heads d \<and> cs_evidence c = EvidenceAgent True crates True ms agent) \<and>
        dag_heads d' = {i} \<and> peer_heads d' = peer_heads d)"
proof (cases "dom index \<noteq> {} \<and> opened = None \<and> \<not> isl (verify_only cargo ms crates root agent)")
  case False
  then have "isl r \<and> d' = d" using assms(1) by (auto simp: try_land_def split: if_splits sum.splits option.splits)
  then show ?thesis by blast
next
  case True
  then obtain ev where ne: "dom index \<noteq> {}" and ev: "verify_only cargo ms crates root agent = Inr ev" and op: "opened = None"
    by (cases "verify_only cargo ms crates root agent") auto
  let ?c = "land_changeset L ts intent index agent identity ev d"
  note fresh = assms(3)[OF refl, of ev]
  have r: "r = (case saved of None \<Rightarrow> Inr (cs_id ?c) | Some m \<Rightarrow> Inl (LandNetwork m))" and d': "d' = dag_insert ?c d"
    using assms(1) ne ev op by (auto simp: try_land_def Let_def split: option.splits)
  have v: "verify_crates cargo (new_request crates root agent) 0 crates [] = Inr crates" and
    e: "ev = EvidenceAgent True crates True ms agent"
    using ev verify_crates_passes[of cargo "new_request crates root agent" 0 crates "[]"]
    by (auto simp: verify_only_def run_verification_def new_request_def split: sum.splits)
  have "finite (dag_heads d)" using assms(2) by (auto simp: dag_heads_def Let_def dag_ok_def)
  then have ps: "cs_parents ?c = sorted_list_of_set (dag_heads d)" "set (cs_parents ?c) = dag_heads d"
    by (simp_all add: land_changeset_def sort_key_id_if_sorted)
  have "dag_heads d' = {cs_id ?c}" using insert_on_heads[OF ps(1)] fresh assms(2) by (simp add: d' dag_ok_def)
  moreover have "changesets d' = (changesets d)(cs_id ?c \<mapsto> ?c)" "peer_heads d' = peer_heads d"
    using fresh by (simp_all add: d' dag_insert_def)
  moreover have "\<forall>k < length crates. cargo_ok cargo k (build_args (crates ! k)) \<and> cargo_ok cargo k (test_args (crates ! k)) \<and>
      cargo_ok cargo k (clippy_args (crates ! k))"
    using v by (simp add: verify_crates_passes new_request_def)
  moreover have "cs_evidence ?c = EvidenceAgent True crates True ms agent" "cs_author ?c = agent" "cs_index ?c = index"
    by (simp_all add: land_changeset_def with_index_def Let_def e)
  ultimately show ?thesis using ne ps(2) r by blast
qed

theorem landing_verified_witness:
  "\<exists>i d'. try_land sample_braid_lib (\<lambda>k args. Inr \<lparr>out_success = True, out_stdout = [], out_stderr = []\<rparr>) None None 3 4 ''fix''
      [''f'' \<mapsto> ContentAddr [9] 1] [''core''] ''/w'' [1] () new_dag = (Inr i, d') \<and> dag_heads d' = {i}"
proof -
  let ?t = "try_land sample_braid_lib (\<lambda>k args. Inr \<lparr>out_success = True, out_stdout = [], out_stderr = []\<rparr>) None None 3 4 ''fix''
      [''f'' \<mapsto> ContentAddr [9] 1] [''core''] ''/w'' [1] () new_dag"
  obtain i d' where e: "?t = (Inr i, d')"
    by (simp add: try_land_def verify_only_def run_verification_def new_request_def verify_crate_def Let_def)
  from landing_verified[OF e] e show ?thesis by (auto simp: new_dag_def dag_ok_def key_matches_def)
qed

text \<open>A repair task is due exactly when verification failed after the heads changed, and then names the new heads.\<close>

lemma heal_exactly_when_broken:
  "(detect_heal_needed pre post verification \<noteq> None \<longleftrightarrow> isl verification \<and> mset pre \<noteq> mset post) \<and>
   (\<forall>t. detect_heal_needed pre post verification = Some t \<longrightarrow> rt_merged_heads t = post)"
proof -
  have "sort pre = sort post \<longleftrightarrow> mset pre = mset post"
  proof
    assume "sort pre = sort post"
    then have "mset (sort pre) = mset (sort post)" by (rule arg_cong)
    then show "mset pre = mset post" by simp
  next
    assume "mset pre = mset post"
    then show "sort pre = sort post" by (intro properties_for_sort[symmetric]) simp_all
  qed
  then show ?thesis by (auto simp: detect_heal_needed_def split: sum.splits if_splits prod.splits)
qed

end
