(* ===== verification/Blob_Store.thy ===== *)
theory Blob_Store
  imports Content_Index
begin

text \<open>
  The content-addressed blob store, \<open>indras-storage/src/blobs/store.rs\<close> with \<open>content_ref.rs\<close>. A blob is a file named
  by the hexadecimal digits of its hash, so the directory is a map from hashes to contents;
  a \<open>ContentRef\<close> is a \<open>content_addr\<close>. File operations of this directory succeed.
\<close>

section \<open>Model\<close>

record blob_store =
  bs_files :: "bytes32 \<rightharpoonup> bytes"
  bs_max_blob_size :: nat

datatype blob_error = BlobCapacityExceeded | BlobNotFound bytes32 | BlobHashMismatch

definition content_equals :: "content_addr \<Rightarrow> content_addr \<Rightarrow> bool" where
  "content_equals a b \<longleftrightarrow> ca_hash a = ca_hash b"

definition blob_exists :: "content_addr \<Rightarrow> blob_store \<Rightarrow> bool" where
  "blob_exists a s \<longleftrightarrow> ca_hash a \<in> dom (bs_files s)"

definition blob_put :: "(bytes \<Rightarrow> bytes32) \<Rightarrow> bytes \<Rightarrow> (blob_store, blob_error, content_addr) op" where
  "blob_put b3 data s =
    (if length data > bs_max_blob_size s then (Inl BlobCapacityExceeded, s)
     else let a = addr_from_bytes b3 data in
       if blob_exists a s then (Inr a, s)
       else (Inr a, s\<lparr>bs_files := (bs_files s)(ca_hash a \<mapsto> data)\<rparr>))"

definition blob_load :: "(bytes \<Rightarrow> bytes32) \<Rightarrow> content_addr \<Rightarrow> blob_store \<Rightarrow> blob_error + bytes" where
  "blob_load b3 a s =
    (case bs_files s (ca_hash a) of
       None \<Rightarrow> Inl (BlobNotFound (ca_hash a))
     | Some data \<Rightarrow> if content_equals (addr_from_bytes b3 data) a then Inr data else Inl BlobHashMismatch)"

definition blob_delete :: "content_addr \<Rightarrow> blob_store \<Rightarrow> bool \<times> blob_store" where
  "blob_delete a s = (blob_exists a s, s\<lparr>bs_files := (bs_files s)(ca_hash a := None)\<rparr>)"

text \<open>What \<open>list_all\<close> finds: the hash of each file with the file's length.\<close>

definition list_blobs :: "blob_store \<Rightarrow> content_addr set" where
  "list_blobs s = {ContentAddr h (of_nat (length data)) | h data. bs_files s h = Some data}"

record gc_result =
  deleted_count :: nat
  retained_count :: nat
  bytes_freed :: nat

definition blob_gc :: "(content_addr \<Rightarrow> bool) \<Rightarrow> blob_store \<Rightarrow> gc_result \<times> blob_store" where
  "blob_gc is_referenced s =
    (let garbage = {a \<in> list_blobs s. \<not> is_referenced a} in
     (\<lparr>deleted_count = card garbage, retained_count = card (list_blobs s - garbage),
       bytes_freed = (\<Sum>a \<in> garbage. unat (ca_size a))\<rparr>,
      s\<lparr>bs_files := bs_files s |` (- ca_hash ` garbage)\<rparr>))"

section \<open>The contract of a content-addressed store\<close>

locale content_storage =
  fixes hash :: "bytes \<Rightarrow> bytes32"
    and put :: "bytes \<Rightarrow> ('s, 'e, content_addr) op"
    and get :: "content_addr \<Rightarrow> 's \<Rightarrow> 'f + bytes"
    and sound :: "'s \<Rightarrow> bool"
  assumes get_hash: "get a s = Inr data \<Longrightarrow> hash data = ca_hash a"
    and put_sound: "sound s \<Longrightarrow> put data s = (r, t) \<Longrightarrow> sound t"
    and put_get: "sound s \<Longrightarrow> put data s = (Inr a, t) \<Longrightarrow> ca_hash a = hash data \<and> (\<exists>stored. get a t = Inr stored)"
    and put_keeps: "put data s = (r, t) \<Longrightarrow> get a s = Inr stored \<Longrightarrow> get a t = Inr stored"
begin

text \<open>Absent collisions, what was stored is what is loaded, also after further stores.\<close>

lemma load_stored:
  assumes "sound s" and "put data s = (Inr a, t)" and "inj_on hash {data, stored}" and "get a t = Inr stored"
  shows "stored = data"
proof -
  have "hash stored = hash data" using put_get[OF assms(1,2)] get_hash[OF assms(4)] by simp
  then show ?thesis by (rule inj_onD[OF assms(3)]) simp_all
qed

fun put_all :: "bytes list \<Rightarrow> 's \<Rightarrow> 's" where
  "put_all [] s = s"
| "put_all (d # ds) s = put_all ds (snd (put d s))"

lemma put_all_keeps: "get a s = Inr stored \<Longrightarrow> get a (put_all ds s) = Inr stored"
proof (induction ds arbitrary: s)
  case (Cons d ds)
  obtain r t where "put d s = (r, t)" by fastforce
  with put_keeps[OF this Cons.prems] Cons.IH show ?case by simp
qed simp

end

definition blobs_sound :: "(bytes \<Rightarrow> bytes32) \<Rightarrow> blob_store \<Rightarrow> bool" where
  "blobs_sound b3 s \<longleftrightarrow> (\<forall>h data. bs_files s h = Some data \<longrightarrow> b3 data = h)"

lemma addr_from_bytes_hash [simp]: "ca_hash (addr_from_bytes b3 data) = b3 data"
  by (simp add: addr_from_bytes_def)

lemma blob_load_iff: "blob_load b3 a s = Inr data \<longleftrightarrow> bs_files s (ca_hash a) = Some data \<and> b3 data = ca_hash a"
  by (auto simp: blob_load_def content_equals_def split: option.splits)

interpretation blobs: content_storage b3 "blob_put b3" "blob_load b3" "blobs_sound b3" for b3
proof
  fix a s data r t stored
  show "blob_load b3 a s = Inr data \<Longrightarrow> b3 data = ca_hash a" by (simp add: blob_load_iff)
  show "blobs_sound b3 s \<Longrightarrow> blob_put b3 data s = (r, t) \<Longrightarrow> blobs_sound b3 t"
    by (auto simp: blobs_sound_def blob_put_def Let_def split: if_splits)
  show "blobs_sound b3 s \<Longrightarrow> blob_put b3 data s = (Inr a, t) \<Longrightarrow> ca_hash a = b3 data \<and> (\<exists>stored. blob_load b3 a t = Inr stored)"
    by (auto simp: blobs_sound_def blob_put_def Let_def blob_load_iff blob_exists_def split: if_splits)
  show "blob_put b3 data s = (r, t) \<Longrightarrow> blob_load b3 a s = Inr stored \<Longrightarrow> blob_load b3 a t = Inr stored"
    by (auto simp: blob_put_def Let_def blob_load_iff blob_exists_def split: if_splits)
qed

section \<open>Properties\<close>

lemma list_blobs_image: "list_blobs s = (\<lambda>h. ContentAddr h (of_nat (length (the (bs_files s h))))) ` dom (bs_files s)"
proof (rule set_eqI)
  fix a show "a \<in> list_blobs s \<longleftrightarrow> a \<in> (\<lambda>h. ContentAddr h (of_nat (length (the (bs_files s h))))) ` dom (bs_files s)"
    by (force simp: list_blobs_def)
qed

text \<open>Garbage collection removes exactly the blobs that are not referenced at their length, and counts them.\<close>

lemma blob_gc_exact:
  assumes "blob_gc P s = (g, t)"
  shows "bs_files t h = (case bs_files s h of None \<Rightarrow> None
      | Some data \<Rightarrow> if P (ContentAddr h (of_nat (length data))) then Some data else None)"
    and "finite (dom (bs_files s)) \<Longrightarrow> deleted_count g + retained_count g = card (dom (bs_files s)) \<and>
      retained_count g = card (dom (bs_files t))"
proof -
  let ?a = "\<lambda>h. ContentAddr h (of_nat (length (the (bs_files s h))))"
  have t: "bs_files t = bs_files s |` (- ca_hash ` {a \<in> list_blobs s. \<not> P a})" using assms by (auto simp: blob_gc_def Let_def)
  have in_garbage: "h \<in> ca_hash ` {a \<in> list_blobs s. \<not> P a} \<longleftrightarrow> h \<in> dom (bs_files s) \<and> \<not> P (?a h)" for h
    by (force simp: list_blobs_image)
  show files: "bs_files t h = (case bs_files s h of None \<Rightarrow> None
      | Some data \<Rightarrow> if P (ContentAddr h (of_nat (length data))) then Some data else None)" for h
  proof (cases "bs_files s h")
    case (Some data)
    with in_garbage[of h] show ?thesis by (auto simp: t restrict_map_def)
  qed (simp add: t restrict_map_def)
  assume fin: "finite (dom (bs_files s))"
  have inj: "inj_on ?a A" for A by (simp add: inj_on_def)
  have kept: "list_blobs s - {a \<in> list_blobs s. \<not> P a} = ?a ` dom (bs_files t)"
  proof -
    have "dom (bs_files t) = {h \<in> dom (bs_files s). P (?a h)}" using files by (auto split: option.splits if_splits)
    then show ?thesis by (auto simp: list_blobs_image)
  qed
  have "finite (list_blobs s)" using fin by (simp add: list_blobs_image)
  moreover have "card (list_blobs s) = card (dom (bs_files s))" unfolding list_blobs_image by (rule card_image[OF inj])
  moreover have "card (list_blobs s - {a \<in> list_blobs s. \<not> P a}) = card (dom (bs_files t))" unfolding kept by (rule card_image[OF inj])
  moreover have "card {a \<in> list_blobs s. \<not> P a} + card (list_blobs s - {a \<in> list_blobs s. \<not> P a}) = card (list_blobs s)"
    using calculation(1) by (subst card_Un_disjoint[symmetric]) (auto intro!: arg_cong[of _ _ card])
  moreover have "deleted_count g = card {a \<in> list_blobs s. \<not> P a}"
    "retained_count g = card (list_blobs s - {a \<in> list_blobs s. \<not> P a})" using assms by (auto simp: blob_gc_def Let_def)
  ultimately show "deleted_count g + retained_count g = card (dom (bs_files s)) \<and> retained_count g = card (dom (bs_files t))" by linarith
qed

end
