(* ===== verification/Sync_Vault.thy ===== *)
theory Sync_Vault
  imports Agent_Braid Blob_Store
begin

text \<open>
  The synchronised vault of \<open>indras-sync-engine/src/vault\<close>: the local file index (\<open>vault_document.rs\<close>, \<open>vault_file.rs\<close>),
  trust decisions (\<open>trust.rs\<close>), the file watcher (\<open>watcher.rs\<close>), the task that writes changes of peers to disk
  (\<open>sync_to_disk.rs\<close>) and the vault that ties them to the outer braid, the inner braid and the blob store
  (\<open>mod.rs\<close>). The directory is a map from relative paths to contents: a path stands for the file it names, so the
  paths of an index are taken to be normal (no \<open>..\<close>, not absolute) and different paths to be different files. Parameters stand for what is outside: a
  relay may bring blobs on each of its ten tries, writing a file may fail, the update of the braid's document may fail
  to be serialised or saved (after it has changed the document in memory), and clock
  readings are given per path. Pushing blobs to relays has no effect on the vault. The field for the relay is optional as in the
  source, although the constructors there always fill it.
\<close>

section \<open>Local files\<close>

record vault_file =
  vf_path :: string
  vf_hash :: bytes32
  vf_size :: u64
  vf_modified_ms :: int
  vf_author :: user_id
  vf_deleted :: bool

definition new_vault_file :: "int \<Rightarrow> string \<Rightarrow> bytes32 \<Rightarrow> u64 \<Rightarrow> user_id \<Rightarrow> vault_file" where
  "new_vault_file now path hash len author =
    \<lparr>vf_path = path, vf_hash = hash, vf_size = len, vf_modified_ms = now, vf_author = author, vf_deleted = False\<rparr>"

type_synonym vault_document = "string \<rightharpoonup> vault_file"

definition doc_upsert :: "vault_file \<Rightarrow> vault_document \<Rightarrow> vault_document" where
  "doc_upsert f d = d(vf_path f \<mapsto> f)"

definition doc_remove :: "int \<Rightarrow> string \<Rightarrow> user_id \<Rightarrow> vault_document \<Rightarrow> vault_document" where
  "doc_remove now path author d =
    (case d path of
       None \<Rightarrow> d
     | Some f \<Rightarrow> d(path \<mapsto> f\<lparr>vf_deleted := True, vf_modified_ms := now, vf_author := author\<rparr>))"

definition active_files :: "vault_document \<Rightarrow> vault_file list" where
  "active_files d = filter (\<lambda>f. \<not> vf_deleted f) (map snd (btree_entries d))"

section \<open>The vault\<close>

record 'sk sync_vault =
  sv_user :: user_id
  sv_identity :: 'sk
  sv_files :: vault_document
  sv_dag :: braid_dag
  sv_blobs :: blob_store
  sv_disk :: "string \<rightharpoonup> bytes"
  sv_suppressed :: "string \<rightharpoonup> nat"
  sv_known :: "string \<rightharpoonup> bytes32"
  sv_dirty :: "string set"
  sv_trust :: "user_id \<rightharpoonup> bool"
  sv_inner :: agent_braid
  sv_last_heads :: "user_id \<rightharpoonup> change_id"

datatype sync_error =
    NothingToSync | NoActiveFiles | PeerHasNoHead | NothingToPromote
  | UnknownChangeset change_id | BlobUnavailable string | DiskError string | BlobStoreError blob_error
  | DocumentError string

record sync_env =
  se_relay :: "(nat \<Rightarrow> blob_store \<Rightarrow> blob_store) option"
  se_writable :: "string \<Rightarrow> bool"
  se_instant :: "string \<Rightarrow> nat"
  se_clock :: "string \<Rightarrow> int"
  se_document :: "string option"

type_synonym ('sk, 'a) sync_op = "('sk sync_vault, sync_error, 'a) op"

definition setup_vault :: "user_id \<Rightarrow> 'sk \<Rightarrow> braid_dag \<Rightarrow> blob_store \<Rightarrow> (string \<rightharpoonup> bytes) \<Rightarrow> (user_id \<rightharpoonup> bool) \<Rightarrow> 'sk sync_vault" where
  "setup_vault u identity dag blobs disk trust =
    \<lparr>sv_user = u, sv_identity = identity, sv_files = Map.empty, sv_dag = dag, sv_blobs = blobs, sv_disk = disk,
     sv_suppressed = Map.empty, sv_known = Map.empty, sv_dirty = {}, sv_trust = trust,
     sv_inner = new_agent_braid u, sv_last_heads = Map.empty\<rparr>"

definition upsert_file :: "int \<Rightarrow> string \<Rightarrow> bytes32 \<Rightarrow> u64 \<Rightarrow> user_id \<Rightarrow> 'sk sync_vault \<Rightarrow> 'sk sync_vault" where
  "upsert_file now path hash len author v =
    v\<lparr>sv_files := doc_upsert (new_vault_file now path hash len author) (sv_files v)\<rparr>"

definition delete_file :: "int \<Rightarrow> string \<Rightarrow> user_id \<Rightarrow> 'sk sync_vault \<Rightarrow> 'sk sync_vault" where
  "delete_file now path author v = v\<lparr>sv_files := doc_remove now path author (sv_files v)\<rparr>"

definition store_blob :: "('sk, 'pk, 'x) crypto_lib_scheme \<Rightarrow> bytes \<Rightarrow> ('sk, content_addr) sync_op" where
  "store_blob L data v =
    (case blob_put (blake3 L) data (sv_blobs v) of
       (Inl e, s) \<Rightarrow> (Inl (BlobStoreError e), v\<lparr>sv_blobs := s\<rparr>)
     | (Inr a, s) \<Rightarrow> (Inr a, v\<lparr>sv_blobs := s\<rparr>))"

text \<open>Two seconds, in milliseconds, for which the watcher ignores a path.\<close>

definition SUPPRESS_MS :: nat where
  "SUPPRESS_MS = 2000"

definition suppress :: "nat \<Rightarrow> string \<Rightarrow> 'sk sync_vault \<Rightarrow> 'sk sync_vault" where
  "suppress inst path v = v\<lparr>sv_suppressed := (sv_suppressed v)(path \<mapsto> inst + SUPPRESS_MS)\<rparr>"

definition record_hash :: "string \<Rightarrow> bytes32 \<Rightarrow> 'sk sync_vault \<Rightarrow> 'sk sync_vault" where
  "record_hash path hash v = v\<lparr>sv_known := (sv_known v)(path \<mapsto> hash)\<rparr>"

definition write_disk :: "sync_env \<Rightarrow> string \<Rightarrow> bytes \<Rightarrow> ('sk, unit) sync_op" where
  "write_disk E path data v =
    (if se_writable E path then (Inr (), v\<lparr>sv_disk := (sv_disk v)(path \<mapsto> data)\<rparr>) else (Inl (DiskError path), v))"

definition write_file_content :: "('sk, 'pk, 'x) crypto_lib_scheme \<Rightarrow> sync_env \<Rightarrow> string \<Rightarrow> bytes \<Rightarrow> ('sk, unit) sync_op" where
  "write_file_content L E path data =
    (let hash = blake3 L data; len = of_nat (length data) in
     andThen (modify (\<lambda>v. record_hash path hash (suppress (se_instant E path) path v))) (\<lambda>_.
     andThen (write_disk E path data) (\<lambda>_.
     andThen (store_blob L data) (\<lambda>_.
     modify (\<lambda>v. upsert_file (se_clock E path) path hash len (sv_user v) v)))))"

text \<open>The blob of an entry, with up to ten tries over the relay when it is not there.\<close>

fun retry_load ::
  "(bytes \<Rightarrow> bytes32) \<Rightarrow> (nat \<Rightarrow> blob_store \<Rightarrow> blob_store) \<Rightarrow> nat \<Rightarrow> content_addr \<Rightarrow> blob_store \<Rightarrow> bytes option \<times> blob_store" where
  "retry_load b3 pull 0 a s = (None, s)"
| "retry_load b3 pull (Suc n) a s =
    (let s = pull n s in
     case blob_load b3 a s of Inr data \<Rightarrow> (Some data, s) | Inl _ \<Rightarrow> retry_load b3 pull n a s)"

definition fetch_blob :: "('sk, 'pk, 'x) crypto_lib_scheme \<Rightarrow> sync_env \<Rightarrow> string \<Rightarrow> content_addr \<Rightarrow> ('sk, bytes) sync_op" where
  "fetch_blob L E path a v =
    (case blob_load (blake3 L) a (sv_blobs v) of
       Inr data \<Rightarrow> (Inr data, v)
     | Inl _ \<Rightarrow> (case se_relay E of
         None \<Rightarrow> (Inl (BlobUnavailable path), v)
       | Some pull \<Rightarrow> (case retry_load (blake3 L) pull 10 a (sv_blobs v) of
           (Some data, s) \<Rightarrow> (Inr data, v\<lparr>sv_blobs := s\<rparr>)
         | (None, s) \<Rightarrow> (Inl (BlobUnavailable path), v\<lparr>sv_blobs := s\<rparr>))))"

definition apply_index :: "('sk, 'pk, 'x) crypto_lib_scheme \<Rightarrow> sync_env \<Rightarrow> symlink_index \<Rightarrow> ('sk, unit) sync_op" where
  "apply_index L E index =
    andThen (forEach (btree_entries index) (\<lambda>(path, a).
      andThen (fetch_blob L E path a) (\<lambda>data. write_file_content L E path data))) (\<lambda>_. ok ())"

definition checkout :: "('sk, 'pk, 'x) crypto_lib_scheme \<Rightarrow> sync_env \<Rightarrow> change_id \<Rightarrow> ('sk, unit) sync_op" where
  "checkout L E i =
    andThen (reads (\<lambda>v. dag_get (sv_dag v) i)) (\<lambda>found.
    andThen (ok_or (UnknownChangeset i) found) (\<lambda>c. apply_index L E (cs_index c)))"

definition remove_disk :: "sync_env \<Rightarrow> string \<Rightarrow> ('sk, unit) sync_op" where
  "remove_disk E path v =
    (if sv_disk v path = None then (Inr (), v)
     else if se_writable E path then (Inr (), v\<lparr>sv_disk := (sv_disk v)(path := None)\<rparr>)
     else (Inl (DiskError path), v))"

definition delete_file_content :: "sync_env \<Rightarrow> string \<Rightarrow> ('sk, unit) sync_op" where
  "delete_file_content E path =
    andThen (modify (suppress (se_instant E path) path)) (\<lambda>_.
    andThen (remove_disk E path) (\<lambda>_.
    modify (\<lambda>v. delete_file (se_clock E path) path (sv_user v) v)))"

definition list_files :: "'sk sync_vault \<Rightarrow> vault_file list" where
  "list_files v = active_files (sv_files v)"

definition dirty_count :: "'sk sync_vault \<Rightarrow> nat" where
  "dirty_count v = card (sv_dirty v)"

section \<open>Committing\<close>

definition take_dirty :: "'sk sync_vault \<Rightarrow> string set \<times> 'sk sync_vault" where
  "take_dirty v = (sv_dirty v, v\<lparr>sv_dirty := {}\<rparr>)"

definition snapshot_index :: "vault_document \<Rightarrow> symlink_index" where
  "snapshot_index d = foldl (\<lambda>i f. index_set (vf_path f) (ContentAddr (vf_hash f) (vf_size f)) i) Map.empty (active_files d)"

text \<open>Insert a changeset into the outer braid and advance the own head.\<close>

definition commit_outer :: "int \<Rightarrow> changeset \<Rightarrow> 'sk sync_vault \<Rightarrow> 'sk sync_vault" where
  "commit_outer now c v = v\<lparr>sv_dag := commit_change now (sv_user v) c (sv_dag v)\<rparr>"

text \<open>The same through the braid's document, whose update may fail after the change.\<close>

definition update_dag :: "sync_env \<Rightarrow> int \<Rightarrow> changeset \<Rightarrow> ('sk, unit) sync_op" where
  "update_dag E now c v =
    (case se_document E of None \<Rightarrow> Inr () | Some m \<Rightarrow> Inl (DocumentError m), commit_outer now c v)"

definition sync_changeset ::
  "('sk, 'pk, 'x) braid_lib_scheme \<Rightarrow> int \<Rightarrow> int \<Rightarrow> string \<Rightarrow> string option \<Rightarrow> 'sk sync_vault \<Rightarrow> changeset" where
  "sync_changeset L approved timestamp intent message v =
    (let (parents, parent_index) = (case peer_heads (sv_dag v) (sv_user v) of
           Some ps \<Rightarrow> ([ph_head ps], Some (ph_index ps))
         | None \<Rightarrow> (sorted_list_of_set (dag_heads (sv_dag v)), None))
     in with_index L (sv_user v) parents intent (snapshot_index (sv_files v)) parent_index
          (evidence_human approved (sv_user v) message) timestamp (sv_identity v))"

definition sync_commit ::
  "('sk, 'pk, 'x) braid_lib_scheme \<Rightarrow> sync_env \<Rightarrow> int \<Rightarrow> int \<Rightarrow> int \<Rightarrow> string \<Rightarrow> string option \<Rightarrow> ('sk, change_id) sync_op" where
  "sync_commit L E approved timestamp now intent message v =
    (let (dirty, v) = take_dirty v in
     if dirty = {} then (Inl NothingToSync, v)
     else if dom (snapshot_index (sv_files v)) = {} then (Inl NoActiveFiles, v)
     else let c = sync_changeset L approved timestamp intent message v
       in andThen (update_dag E now c) (\<lambda>_. ok (cs_id c)) v)"

section \<open>Merging with peers\<close>

definition is_peer_trusted :: "user_id \<Rightarrow> 'sk sync_vault \<Rightarrow> bool" where
  "is_peer_trusted peer v = (case sv_trust v peer of Some t \<Rightarrow> t | None \<Rightarrow> False)"

definition pending_forks :: "'sk sync_vault \<Rightarrow> user_id \<rightharpoonup> peer_head" where
  "pending_forks v u =
    (case peer_heads (sv_dag v) u of
       None \<Rightarrow> None
     | Some ps \<Rightarrow>
        if u \<noteq> sv_user v \<and> (case peer_heads (sv_dag v) (sv_user v) of None \<Rightarrow> True | Some mh \<Rightarrow> ph_head ps \<noteq> ph_head mh)
        then Some ps else None)"

text \<open>The loop that adds the own entries the peer does not have.\<close>

definition fill_missing :: "symlink_index \<Rightarrow> symlink_index \<Rightarrow> symlink_index" where
  "fill_missing merged mine =
    foldl (\<lambda>m (p, a). if index_get m p = None then index_set p a m else m) merged (btree_entries mine)"

definition own_index :: "'sk sync_vault \<Rightarrow> symlink_index" where
  "own_index v = (case peer_heads (sv_dag v) (sv_user v) of Some ms \<Rightarrow> ph_index ms | None \<Rightarrow> Map.empty)"

definition peer_merge_changeset ::
  "('sk, 'pk, 'x) braid_lib_scheme \<Rightarrow> int \<Rightarrow> int \<Rightarrow> user_id \<Rightarrow> peer_head \<Rightarrow> 'sk sync_vault \<Rightarrow> changeset" where
  "peer_merge_changeset L approved timestamp peer peer_state v =
    with_index L (sv_user v)
      (ph_head peer_state # (case peer_heads (sv_dag v) (sv_user v) of Some ms \<Rightarrow> [ph_head ms] | None \<Rightarrow> []))
      (''merge from peer '' @ hex (take 4 peer)) (fill_missing (ph_index peer_state) (own_index v)) (Some (own_index v))
      (evidence_human approved (sv_user v) (Some ''merge'')) timestamp (sv_identity v)"

text \<open>\<open>let _ = ...\<close>: an error is ignored, the effects before it stay.\<close>

definition ignore_error :: "('s, 'e, 'a) op \<Rightarrow> ('s, 'f, unit) op" where
  "ignore_error m s = (Inr (), snd (m s))"

definition merge_from_peer ::
  "('sk, 'pk, 'x) braid_lib_scheme \<Rightarrow> sync_env \<Rightarrow> int \<Rightarrow> int \<Rightarrow> int \<Rightarrow> user_id \<Rightarrow> ('sk, change_id) sync_op" where
  "merge_from_peer L E approved timestamp now peer =
    andThen (reads id) (\<lambda>v.
    andThen (ok_or PeerHasNoHead (peer_heads (sv_dag v) peer)) (\<lambda>peer_state.
    let mine = own_index v;
        merged = fill_missing (ph_index peer_state) mine;
        c = peer_merge_changeset L approved timestamp peer peer_state v
    in andThen (update_dag E now c) (\<lambda>_.
       andThen (apply_index L E merged) (\<lambda>_.
       andThen (forEach (btree_entries mine) (\<lambda>(path, _).
         if index_get merged path = None then ignore_error (delete_file_content E path) else ok ())) (\<lambda>_.
       ok (cs_id c))))))"

definition set_peer_trust ::
  "('sk, 'pk, 'x) braid_lib_scheme \<Rightarrow> sync_env \<Rightarrow> int \<Rightarrow> int \<Rightarrow> int \<Rightarrow> user_id \<Rightarrow> bool \<Rightarrow> 'sk sync_vault \<Rightarrow> 'sk sync_vault" where
  "set_peer_trust L E approved timestamp now peer trusted v =
    (let v = v\<lparr>sv_trust := (sv_trust v)(peer \<mapsto> trusted)\<rparr>;
         has_fork = (case (peer_heads (sv_dag v) peer, peer_heads (sv_dag v) (sv_user v)) of
             (Some theirs, Some mine) \<Rightarrow> ph_head theirs \<noteq> ph_head mine
           | (Some _, None) \<Rightarrow> True
           | _ \<Rightarrow> False)
     in if trusted \<and> has_fork then snd (merge_from_peer L E approved timestamp now peer v) else v)"

definition diff_fork :: "user_id \<Rightarrow> 'sk sync_vault \<Rightarrow> index_delta" where
  "diff_fork peer v =
    (case peer_heads (sv_dag v) peer of
       None \<Rightarrow> Map.empty
     | Some ps \<Rightarrow> (case peer_heads (sv_dag v) (sv_user v) of
         None \<Rightarrow> delta_from_root (ph_index ps)
       | Some ms \<Rightarrow> index_diff (ph_index ps) (ph_index ms)))"

text \<open>The forks are taken in the order \<open>ord\<close>; \<open>clk\<close> gives the clock readings of each merge.\<close>

fun merge_trusted ::
  "('sk, 'pk, 'x) braid_lib_scheme \<Rightarrow> sync_env \<Rightarrow> (user_id \<Rightarrow> int \<times> int \<times> int) \<Rightarrow> user_id list \<Rightarrow> (user_id \<times> change_id) list \<Rightarrow>
    'sk sync_vault \<Rightarrow> (user_id \<times> change_id) list \<times> 'sk sync_vault" where
  "merge_trusted L E clk [] merged v = (merged, v)"
| "merge_trusted L E clk (peer # peers) merged v =
    (if is_peer_trusted peer v then
       (case clk peer of (approved, timestamp, now) \<Rightarrow>
         (case merge_from_peer L E approved timestamp now peer v of
            (Inr i, v) \<Rightarrow> merge_trusted L E clk peers (merged @ [(peer, i)]) v
          | (Inl _, v) \<Rightarrow> merge_trusted L E clk peers merged v))
     else merge_trusted L E clk peers merged v)"

definition auto_merge_trusted ::
  "('sk, 'pk, 'x) braid_lib_scheme \<Rightarrow> sync_env \<Rightarrow> (user_id \<Rightarrow> int \<times> int \<times> int) \<Rightarrow> user_id list \<Rightarrow> 'sk sync_vault \<Rightarrow>
    (user_id \<times> change_id) list \<times> 'sk sync_vault" where
  "auto_merge_trusted L E clk ord v =
    merge_trusted L E clk (filter (\<lambda>u. pending_forks v u \<noteq> None) ord) [] v"

section \<open>The inner braid and garbage collection\<close>

definition promote_changeset ::
  "('sk, 'pk, 'x) braid_lib_scheme \<Rightarrow> int \<Rightarrow> int \<Rightarrow> string \<Rightarrow> symlink_index \<Rightarrow> 'sk sync_vault \<Rightarrow> changeset" where
  "promote_changeset L approved timestamp intent index v =
    (let outer = peer_heads (sv_dag v) (sv_user v)
     in with_index L (sv_user v) (case outer of Some h \<Rightarrow> [ph_head h] | None \<Rightarrow> []) intent index (map_option ph_index outer)
          (evidence_human approved (sv_user v) (Some intent)) timestamp (sv_identity v))"

definition promote ::
  "('sk, 'pk, 'x) braid_lib_scheme \<Rightarrow> sync_env \<Rightarrow> change_id list \<Rightarrow> int \<Rightarrow> int \<Rightarrow> int \<Rightarrow> string \<Rightarrow> 'sk sync_vault \<Rightarrow>
    ((sync_error + change_id) \<times> 'sk sync_vault) option" where
  "promote L E ord approved timestamp now intent v =
    (case user_head (sv_inner v) of
       None \<Rightarrow> Some (Inl NothingToPromote, v)
     | Some h \<Rightarrow>
        let c = promote_changeset L approved timestamp intent (ph_index h) v
        in (case update_dag E now c v of
              (Inl e, v) \<Rightarrow> Some (Inl e, v)
            | (Inr _, v) \<Rightarrow>
               map_option (\<lambda>(_, inner). (Inr (cs_id c), v\<lparr>sv_inner := inner\<rparr>)) (rollup_to_user_head ord (sv_inner v))))"

definition gc_blobs :: "'sk sync_vault \<Rightarrow> gc_result \<times> 'sk sync_vault" where
  "gc_blobs v =
    (let all_refs = all_referenced_addrs (sv_dag v) \<union> inner_referenced_addrs (sv_inner v);
         (g, s) = blob_gc (\<lambda>a. a \<in> all_refs) (sv_blobs v)
     in (g, v\<lparr>sv_blobs := s\<rparr>))"

definition vault_agent_land ::
  "('sk, 'pk, 'x) braid_lib_scheme \<Rightarrow> int \<Rightarrow> int \<Rightarrow> logical_agent_id \<Rightarrow> string \<Rightarrow> symlink_index \<Rightarrow> evidence \<Rightarrow>
    'sk sync_vault \<Rightarrow> change_id \<times> 'sk sync_vault" where
  "vault_agent_land L timestamp now agent intent index evidence v =
    (let (i, inner) = agent_land L timestamp now agent intent index evidence (sv_inner v) in (i, v\<lparr>sv_inner := inner\<rparr>))"

definition vault_merge_agent ::
  "('sk, 'pk, 'x) braid_lib_scheme \<Rightarrow> change_id list \<Rightarrow> int \<Rightarrow> int \<Rightarrow> int \<Rightarrow> logical_agent_id \<Rightarrow>
    'sk sync_vault \<Rightarrow> (merge_result option \<times> 'sk sync_vault) option" where
  "vault_merge_agent L ord approved timestamp now agent v =
    map_option (\<lambda>(r, inner). (r, v\<lparr>sv_inner := inner\<rparr>)) (merge_agent L ord approved timestamp now agent (sv_inner v))"

section \<open>The file watcher\<close>

definition contains_str :: "string \<Rightarrow> string \<Rightarrow> bool" where
  "contains_str pat s \<longleftrightarrow> list_ex (\<lambda>k. starts_with pat (drop k s)) [0..<length s + 1]"

definition file_name :: "string \<Rightarrow> string" where
  "file_name path = rev (takeWhile (\<lambda>c. c \<noteq> CHR ''/'') (rev path))"

definition should_ignore :: "string \<Rightarrow> bool" where
  "should_ignore path \<longleftrightarrow>
    starts_with ''.git/'' path \<or> path = ''.git'' \<or> starts_with ''.trash/'' path \<or> path = ''.trash'' \<or>
    starts_with ''.indras/'' path \<or> path = ''.indras'' \<or>
    path = ''.obsidian/workspace.json'' \<or> path = ''.obsidian/workspace-mobile.json'' \<or>
    contains_str ''.conflict-'' path \<or>
    starts_with ''.'' (file_name path) \<and> \<not> starts_with ''.obsidian/'' path"

datatype fs_event = FsRemove | FsCreate | FsModify | FsOther

text \<open>\<open>is_suppressed\<close> drops an entry that has expired.\<close>

definition is_suppressed :: "nat \<Rightarrow> string \<Rightarrow> 'sk sync_vault \<Rightarrow> bool \<times> 'sk sync_vault" where
  "is_suppressed inst path v =
    (case sv_suppressed v path of
       None \<Rightarrow> (False, v)
     | Some until \<Rightarrow>
        if inst < until then (True, v) else (False, v\<lparr>sv_suppressed := (sv_suppressed v)(path := None)\<rparr>))"

definition mark_dirty :: "string \<Rightarrow> 'sk sync_vault \<Rightarrow> 'sk sync_vault" where
  "mark_dirty path v = v\<lparr>sv_dirty := insert path (sv_dirty v)\<rparr>"

definition watch_event ::
  "('sk, 'pk, 'x) crypto_lib_scheme \<Rightarrow> nat \<Rightarrow> int \<Rightarrow> string \<times> fs_event \<Rightarrow> 'sk sync_vault \<Rightarrow> 'sk sync_vault" where
  "watch_event L inst now = (\<lambda>(path, kind) v.
    if should_ignore path then v
    else let (suppressed, v) = is_suppressed inst path v in
    if suppressed then v
    else case kind of
      FsRemove \<Rightarrow> mark_dirty path (delete_file now path (sv_user v) v)
    | FsOther \<Rightarrow> v
    | _ \<Rightarrow>
       (case sv_disk v path of
          None \<Rightarrow> v
        | Some data \<Rightarrow>
           let hash = blake3 L data in
           if sv_known v path = Some hash then v
           else case store_blob L data v of
             (Inl _, v) \<Rightarrow> v
           | (Inr _, v) \<Rightarrow>
              mark_dirty path (record_hash path hash
                (upsert_file now path hash (of_nat (length data)) (sv_user v) v))))"

text \<open>
  The scan of an existing directory. A directory that is ignored is not entered, so a file is
  scanned when neither it nor a directory above it is ignored; the files come in the order \<open>ord\<close>.
\<close>

fun parent_dirs :: "string \<Rightarrow> string \<Rightarrow> string list" where
  "parent_dirs dir [] = []"
| "parent_dirs dir (c # s) = (if c = CHR ''/'' then [dir] else []) @ parent_dirs (dir @ [c]) s"

definition scanned :: "string \<Rightarrow> bool" where
  "scanned path \<longleftrightarrow> list_all (\<lambda>d. \<not> should_ignore d) (parent_dirs [] path) \<and> \<not> should_ignore path"

definition scan_file :: "('sk, 'pk, 'x) crypto_lib_scheme \<Rightarrow> sync_env \<Rightarrow> string \<Rightarrow> ('sk, nat) sync_op" where
  "scan_file L E path =
    andThen (reads (\<lambda>v. sv_disk v path)) (\<lambda>data.
    andThen (ok_or (DiskError path) data) (\<lambda>data.
    andThen (store_blob L data) (\<lambda>_.
    andThen (modify (\<lambda>v. upsert_file (se_clock E path) path (blake3 L data) (of_nat (length data)) (sv_user v) v)) (\<lambda>_.
    ok 1))))"

definition initial_scan :: "('sk, 'pk, 'x) crypto_lib_scheme \<Rightarrow> sync_env \<Rightarrow> string list \<Rightarrow> ('sk, nat) sync_op" where
  "initial_scan L E ord = andThen (forEach (filter scanned ord) (scan_file L E)) (\<lambda>counts. ok (sum_list counts))"

section \<open>Changes from peers\<close>

definition materialize_index :: "('sk, 'pk, 'x) crypto_lib_scheme \<Rightarrow> sync_env \<Rightarrow> symlink_index \<Rightarrow> ('sk, unit) sync_op" where
  "materialize_index L E index =
    andThen (forEach (btree_entries index) (\<lambda>(path, a).
      andThen (fetch_blob L E path a) (\<lambda>data.
      andThen (modify (suppress (se_instant E path) path)) (\<lambda>_.
      andThen (write_disk E path data) (\<lambda>_.
      modify (record_hash path (ca_hash a))))))) (\<lambda>_. ok ())"

definition auto_merge_changeset ::
  "('sk, 'pk, 'x) braid_lib_scheme \<Rightarrow> int \<Rightarrow> int \<Rightarrow> braid_dag \<Rightarrow> user_id \<Rightarrow> peer_head \<Rightarrow> 'sk sync_vault \<Rightarrow> changeset" where
  "auto_merge_changeset L approved timestamp new_state peer peer_state v =
    with_index L (sv_user v)
      (ph_head peer_state # (case peer_heads new_state (sv_user v) of Some mh \<Rightarrow> [ph_head mh] | None \<Rightarrow> []))
      (''auto-merge from '' @ hex (take 4 peer)) (ph_index peer_state) None
      (evidence_human approved (sv_user v) (Some ''auto-merge from trusted peer'')) timestamp (sv_identity v)"

fun adopt_heads ::
  "('sk, 'pk, 'x) braid_lib_scheme \<Rightarrow> sync_env \<Rightarrow> (user_id \<Rightarrow> int \<times> int \<times> int) \<Rightarrow> braid_dag \<Rightarrow> user_id list \<Rightarrow>
    'sk sync_vault \<Rightarrow> 'sk sync_vault" where
  "adopt_heads L E clk new_state [] v = v"
| "adopt_heads L E clk new_state (peer # peers) v =
    adopt_heads L E clk new_state peers
      (case peer_heads new_state peer of
         None \<Rightarrow> v
       | Some ps \<Rightarrow>
          if peer = sv_user v \<or> sv_last_heads v peer = Some (ph_head ps) \<or> \<not> is_peer_trusted peer v then v
          else let v = snd (materialize_index L E (ph_index ps) v); (approved, timestamp, now) = clk peer
            in commit_outer now (auto_merge_changeset L approved timestamp new_state peer ps v) v)"

definition on_dag_change ::
  "('sk, 'pk, 'x) braid_lib_scheme \<Rightarrow> sync_env \<Rightarrow> (user_id \<Rightarrow> int \<times> int \<times> int) \<Rightarrow> user_id list \<Rightarrow> bool \<Rightarrow> braid_dag \<Rightarrow>
    'sk sync_vault \<Rightarrow> 'sk sync_vault" where
  "on_dag_change L E clk ord is_remote new_state v =
    (let v = (if is_remote then adopt_heads L E clk new_state ord v else v)
     in v\<lparr>sv_last_heads := sv_last_heads v ++ (map_option ph_head \<circ> peer_heads new_state)\<rparr>)"

section \<open>Lemmas on indexes and files\<close>

lemma fill_missing_eq: "finite (dom mine) \<Longrightarrow> fill_missing merged mine = mine ++ merged"
proof -
  assume fin: "finite (dom mine)"
  have "foldl (\<lambda>m (p, a). if index_get m p = None then index_set p a m else m) m xs = map_of xs ++ m" for m xs
  proof (induction xs arbitrary: m)
    case (Cons x xs)
    obtain p a where x: "x = (p, a)" by fastforce
    have "(if index_get m p = None then index_set p a m else m) = [p \<mapsto> a] ++ m"
      by (cases "m p") (auto simp: index_get_def index_set_def map_add_def fun_eq_iff split: option.splits)
    then show ?case using Cons.IH[of "[p \<mapsto> a] ++ m"] by (simp add: x) (simp add: map_add_assoc map_add_upd_left fun_eq_iff map_add_def split: option.splits)
  qed simp
  then show ?thesis using fin by (simp add: fill_missing_def map_of_btree_entries)
qed

lemma snapshot_index_eq:
  assumes "key_matches vf_path d" and "finite (dom d)"
  shows "snapshot_index d p = (case d p of None \<Rightarrow> None
    | Some f \<Rightarrow> if vf_deleted f then None else Some (ContentAddr (vf_hash f) (vf_size f)))"
proof -
  let ?es = "filter (\<lambda>x. \<not> vf_deleted (snd x)) (btree_entries d)"
  let ?g = "\<lambda>f. ContentAddr (vf_hash f) (vf_size f)"
  have af: "active_files d = map snd ?es" by (simp add: active_files_def filter_map comp_def)
  have key: "vf_path (snd x) = fst x" if "x \<in> set ?es" for x
    using that assms set_btree_entries[OF assms(2), of "fst x" "snd x"] by (simp add: key_matches_def)
  have "foldl (\<lambda>i f. index_set (vf_path f) (?g f) i) m (map snd es) = m ++ map_of (rev (map (\<lambda>f. (vf_path f, ?g f)) (map snd es)))" for m es
    by (induction es arbitrary: m) (auto simp: index_set_def map_add_def fun_eq_iff split: option.splits)
  from this[of Map.empty ?es] have "snapshot_index d = map_of (rev (map (\<lambda>f. (vf_path f, ?g f)) (map snd ?es)))"
    unfolding snapshot_index_def af by simp
  also have "map (\<lambda>f. (vf_path f, ?g f)) (map snd ?es) = map (\<lambda>x. (fst x, ?g (snd x))) ?es" using key by simp
  also have "map_of (rev \<dots>) = map_of \<dots>"
  proof (rule map_of_rev_distinct)
    have "distinct (map fst ?es)" by (rule distinct_map_filter) simp
    then show "distinct (map fst (map (\<lambda>x. (fst x, ?g (snd x))) ?es))" by (simp add: comp_def)
  qed
  finally have "snapshot_index d = map_of (map (\<lambda>x. (fst x, ?g (snd x))) ?es)" .
  moreover have "map_of (map (\<lambda>x. (fst x, ?g (snd x))) ?es) p =
      map_option ?g (map_of ?es p)" using fun_cong[OF map_of_map[of ?g ?es], of p] by (simp add: case_prod_unfold)
  moreover have "map_of ?es p = (case d p of None \<Rightarrow> None | Some f \<Rightarrow> if vf_deleted f then None else Some f)"
  proof -
    have dist: "distinct (map fst ?es)" by (rule distinct_map_filter) simp
    have some: "map_of ?es p = Some f \<longleftrightarrow> d p = Some f \<and> \<not> vf_deleted f" for f
      unfolding map_of_eq_Some_iff[OF dist] by (simp add: set_btree_entries[OF assms(2)])
    show ?thesis
    proof (cases "map_of ?es p")
      case None
      with some have "\<not> (d p = Some f \<and> \<not> vf_deleted f)" for f by (metis option.distinct(1))
      with None show ?thesis by (simp split: option.splits)
    next
      case (Some f)
      with some[of f] show ?thesis by simp
    qed
  qed
  ultimately show ?thesis by (auto split: option.splits)
qed

section \<open>What the file operations leave alone\<close>

definition same_rest :: "'sk sync_vault \<Rightarrow> 'sk sync_vault \<Rightarrow> bool" where
  "same_rest v w \<longleftrightarrow> sv_user w = sv_user v \<and> sv_identity w = sv_identity v \<and> sv_dag w = sv_dag v \<and> sv_dirty w = sv_dirty v \<and>
    sv_trust w = sv_trust v \<and> sv_inner w = sv_inner v \<and> sv_last_heads w = sv_last_heads v"

lemma same_rest_refl [simp]: "same_rest v v"
  by (simp add: same_rest_def)

lemmas file_defs =
  upsert_file_def delete_file_def store_blob_def suppress_def record_hash_def write_disk_def remove_disk_def

lemma keeps_rest [keeps_intros]:
  "keeps (same_rest v) (fetch_blob L E p a)" "keeps (same_rest v) (write_disk E p data)" "keeps (same_rest v) (store_blob L data)"
  "keeps (same_rest v) (remove_disk E p)" "keeps (same_rest v) (modify (suppress inst p))"
  "keeps (same_rest v) (modify (record_hash p h))"
  by (auto simp: keeps_def fetch_blob_def file_defs same_rest_def modify_def split: sum.splits option.splits prod.splits)

lemma keeps_rest_write [keeps_intros]: "keeps (same_rest v) (write_file_content L E p data)"
  unfolding write_file_content_def Let_def
  by (intro keeps_intros keeps_modify) (auto simp: same_rest_def file_defs)

lemma keeps_rest_apply [keeps_intros]: "keeps (same_rest v) (apply_index L E index)"
  unfolding apply_index_def by (intro keeps_intros) (auto intro!: keeps_intros split: prod.splits)

lemma keeps_rest_materialize [keeps_intros]: "keeps (same_rest v) (materialize_index L E index)"
  unfolding materialize_index_def by (intro keeps_intros) (auto intro!: keeps_intros split: prod.splits)

lemma apply_rest: "same_rest v (snd (apply_index L E index v))"
  by (rule keepsD_snd[OF keeps_rest_apply]) simp

lemma materialize_rest: "same_rest v (snd (materialize_index L E index v))"
  by (rule keepsD_snd[OF keeps_rest_materialize]) simp

section \<open>Applying an index\<close>

text \<open>A path holds an address: the content on disk has its hash, and the local index says so.\<close>

definition holds_file :: "('sk, 'pk, 'x) crypto_lib_scheme \<Rightarrow> 'sk sync_vault \<Rightarrow> string \<Rightarrow> content_addr \<Rightarrow> bool" where
  "holds_file L v p a \<longleftrightarrow> (\<exists>data f. sv_disk v p = Some data \<and> blake3 L data = ca_hash a \<and>
    sv_files v p = Some f \<and> vf_path f = p \<and> vf_hash f = ca_hash a \<and> \<not> vf_deleted f)"

lemma retry_load_hash: "retry_load b3 pull n a s = (Some data, t) \<Longrightarrow> b3 data = ca_hash a"
  by (induction n arbitrary: s) (auto simp: Let_def blob_load_iff split: sum.splits)

lemma fetch_blob_hash: "fetch_blob L E p a v = (Inr data, w) \<Longrightarrow>
    blake3 L data = ca_hash a \<and> sv_disk w = sv_disk v \<and> sv_files w = sv_files v"
  by (auto simp: fetch_blob_def blob_load_iff split: sum.splits option.splits prod.splits dest: retry_load_hash)

lemma write_effect:
  assumes "write_file_content L E p data v = (Inr u, w)"
  shows "sv_disk w = (sv_disk v)(p \<mapsto> data) \<and>
    sv_files w = (sv_files v)(p \<mapsto> new_vault_file (se_clock E p) p (blake3 L data) (of_nat (length data)) (sv_user v))"
  using assms
  by (auto simp: write_file_content_def Let_def op_success file_defs doc_upsert_def new_vault_file_def split: if_splits sum.splits prod.splits)

lemma apply_entries:
  assumes "distinct (map fst xs)"
    and "forEach xs (\<lambda>(path, a). andThen (fetch_blob L E path a) (\<lambda>data. write_file_content L E path data)) v = (Inr ys, w)"
  shows "(\<forall>(p, a) \<in> set xs. holds_file L w p a) \<and>
    (\<forall>p. p \<notin> fst ` set xs \<longrightarrow> sv_disk w p = sv_disk v p \<and> sv_files w p = sv_files v p)"
  using assms
proof (induction xs arbitrary: v ys)
  case (Cons x xs)
  obtain p a where x: "x = (p, a)" by fastforce
  from Cons.prems(2) obtain data u1 u2 zs where f: "fetch_blob L E p a v = (Inr data, u1)"
    and wr: "write_file_content L E p data u1 = (Inr (), u2)"
    and rest: "forEach xs (\<lambda>(path, a). andThen (fetch_blob L E path a) (\<lambda>data. write_file_content L E path data)) u2 = (Inr zs, w)"
    by (auto simp: x op_success)
  note ih = Cons.IH[OF _ rest]
  note ef = fetch_blob_hash[OF f] and ew = write_effect[OF wr]
  have "p \<notin> fst ` set xs" using Cons.prems(1) by (auto simp: x)
  with ih Cons.prems(1) have "sv_disk w p = sv_disk u2 p" "sv_files w p = sv_files u2 p" by simp_all
  with ef ew have "holds_file L w p a" by (simp add: holds_file_def new_vault_file_def)
  moreover have "sv_disk w q = sv_disk v q \<and> sv_files w q = sv_files v q" if "q \<notin> fst ` set (x # xs)" for q
    using that ih Cons.prems(1) ef ew by (simp add: x)
  ultimately show ?case using ih Cons.prems(1) by (simp add: x)
qed simp

lemma apply_index_effect:
  assumes "finite (dom index)" and "apply_index L E index v = (Inr u, w)"
  shows "case index p of Some a \<Rightarrow> holds_file L w p a | None \<Rightarrow> sv_disk w p = sv_disk v p \<and> sv_files w p = sv_files v p"
proof -
  from assms(2) obtain ys where e: "forEach (btree_entries index)
      (\<lambda>(path, a). andThen (fetch_blob L E path a) (\<lambda>data. write_file_content L E path data)) v = (Inr ys, w)"
    by (auto simp: apply_index_def op_success)
  note ap = apply_entries[OF distinct_btree_keys this]
  show ?thesis
  proof (cases "index p")
    case None
    then have "p \<notin> fst ` set (btree_entries index)" by (simp add: btree_keys[OF assms(1)] domIff)
    with ap None show ?thesis by simp
  next
    case (Some a)
    then have "(p, a) \<in> set (btree_entries index)" by (simp add: set_btree_entries[OF assms(1)])
    with ap Some show ?thesis by fastforce
  qed
qed

text \<open>When the blobs are there and the files can be written, applying an index succeeds and stores nothing new.\<close>

definition blobs_fit :: "blob_store \<Rightarrow> bool" where
  "blobs_fit s \<longleftrightarrow> (\<forall>h data. bs_files s h = Some data \<longrightarrow> length data \<le> bs_max_blob_size s)"

definition available :: "('sk, 'pk, 'x) crypto_lib_scheme \<Rightarrow> content_addr \<Rightarrow> 'sk sync_vault \<Rightarrow> bool" where
  "available L a v \<longleftrightarrow> (\<exists>data. blob_load (blake3 L) a (sv_blobs v) = Inr data)"

lemma write_succeeds:
  assumes "blob_load (blake3 L) a (sv_blobs v) = Inr data" and "blobs_fit (sv_blobs v)" and "se_writable E p"
  shows "\<exists>w. write_file_content L E p data v = (Inr (), w) \<and> sv_blobs w = sv_blobs v"
proof -
  have stored: "bs_files (sv_blobs v) (blake3 L data) = Some data" using assms(1) by (simp add: blob_load_iff)
  with assms(2) have "length data \<le> bs_max_blob_size (sv_blobs v)" unfolding blobs_fit_def by blast
  with stored assms(3) show ?thesis
    by (simp add: write_file_content_def Let_def andThen_def modify_def file_defs blob_put_def blob_exists_def domIff)
qed

lemma apply_index_succeeds:
  assumes "list_all (\<lambda>(p, a). se_writable E p \<and> available L a v) xs" and "blobs_fit (sv_blobs v)"
  shows "\<exists>ys w. forEach xs (\<lambda>(path, a). andThen (fetch_blob L E path a) (\<lambda>data. write_file_content L E path data)) v = (Inr ys, w) \<and>
    sv_blobs w = sv_blobs v"
  using assms
proof (induction xs arbitrary: v)
  case (Cons x xs)
  obtain p a where x: "x = (p, a)" by fastforce
  from Cons.prems(1) obtain data where l: "blob_load (blake3 L) a (sv_blobs v) = Inr data" and wp: "se_writable E p"
    by (auto simp: x available_def)
  from write_succeeds[OF l Cons.prems(2) wp] obtain u where u: "write_file_content L E p data v = (Inr (), u)" "sv_blobs u = sv_blobs v" by blast
  have "list_all (\<lambda>(p, a). se_writable E p \<and> available L a u) xs" using Cons.prems(1) by (simp add: available_def u(2))
  from Cons.IH[OF this] Cons.prems(2) u obtain ys w where
    "forEach xs (\<lambda>(path, a). andThen (fetch_blob L E path a) (\<lambda>data. write_file_content L E path data)) u = (Inr ys, w)" "sv_blobs w = sv_blobs v"
    by auto
  moreover have "fetch_blob L E p a v = (Inr data, v)" by (simp add: fetch_blob_def l)
  ultimately show ?case using u(1) by (simp add: x andThen_def ok_def)
qed (simp add: ok_def)

section \<open>Properties\<close>

text \<open>
  C12: Checking out a changeset restores its files. If the changeset is in the braid, its blobs are in the
  store and its paths can be written, \<open>checkout\<close> succeeds; every path of the changeset then holds its
  address on disk and in the local index, every other file is left as it was, and nothing
  else of the vault changes, the blobs included.
\<close>

theorem checkout_restores:
  assumes "changesets (sv_dag v) i = Some c" and "finite (dom (cs_index c))" and "blobs_fit (sv_blobs v)"
    and "\<And>p a. cs_index c p = Some a \<Longrightarrow> se_writable E p \<and> available L a v"
  shows "\<exists>w. checkout L E i v = (Inr (), w) \<and> same_rest v w \<and> sv_blobs w = sv_blobs v \<and>
    (\<forall>p. case cs_index c p of Some a \<Rightarrow> holds_file L w p a
        | None \<Rightarrow> sv_disk w p = sv_disk v p \<and> sv_files w p = sv_files v p)"
proof -
  have "list_all (\<lambda>(p, a). se_writable E p \<and> available L a v) (btree_entries (cs_index c))"
    using assms(4) by (auto simp: list_all_iff set_btree_entries[OF assms(2)])
  from apply_index_succeeds[OF this assms(3)] obtain ys w where w: "apply_index L E (cs_index c) v = (Inr (), w)" "sv_blobs w = sv_blobs v"
    by (auto simp: apply_index_def andThen_def ok_def)
  have "checkout L E i v = (Inr (), w)" by (simp add: checkout_def andThen_def reads_def ok_or_def dag_get_def assms(1) w)
  with w apply_rest[of v L E "cs_index c"] apply_index_effect[OF assms(2) w(1)] show ?thesis by auto
qed

lemma keeps_rest_take: "same_rest v w \<Longrightarrow> own_index w = own_index v"
  by (simp add: same_rest_def own_index_def)

text \<open>
  C11: What a sync does, by cases. If nothing was marked as changed it fails with \<open>NothingToSync\<close> and changes nothing. If something was marked
  and no file is active it fails with \<open>NoActiveFiles\<close>, and the marks are gone. Otherwise a new changeset of the user
  carries the full snapshot of the files that are not deleted,
  continues the own head, or all heads if there is none, and becomes the own head; no other head moves, the files stay and the marks are
  cleared; the call returns the changeset's identifier, unless the document could not be saved. The local index has each file under
  its path, and the new identifier does not collide with another changeset.
\<close>

theorem sync_commits_snapshot:
  assumes "key_matches vf_path (sv_files v)" and "finite (dom (sv_files v))"
    and "sync_commit L E approved ts now intent message v = (r, w)" and "dag_ok (sv_dag v)"
    and "no_collision (sv_dag v) (sync_changeset L approved ts intent message v)"
  shows "if sv_dirty v = {} then r = Inl NothingToSync \<and> w = v
    else if \<forall>p f. sv_files v p = Some f \<longrightarrow> vf_deleted f then r = Inl NoActiveFiles \<and> w = v\<lparr>sv_dirty := {}\<rparr>
    else \<exists>i. r = (case se_document E of None \<Rightarrow> Inr i | Some m \<Rightarrow> Inl (DocumentError m)) \<and>
        sv_dirty w = {} \<and> sv_files w = sv_files v \<and> sv_disk w = sv_disk v \<and>
        (\<forall>p. own_index w p = (case sv_files v p of None \<Rightarrow> None
          | Some f \<Rightarrow> if vf_deleted f then None else Some (ContentAddr (vf_hash f) (vf_size f)))) \<and>
        (\<exists>c. changesets (sv_dag w) i = Some c \<and> cs_index c = own_index w \<and> cs_author c = sv_user v \<and>
          set (cs_parents c) = (case peer_heads (sv_dag v) (sv_user v) of Some ps \<Rightarrow> {ph_head ps} | None \<Rightarrow> dag_heads (sv_dag v))) \<and>
        (\<exists>ps. peer_heads (sv_dag w) (sv_user v) = Some ps \<and> ph_head ps = i) \<and>
        (\<forall>u. u \<noteq> sv_user v \<longrightarrow> peer_heads (sv_dag w) u = peer_heads (sv_dag v) u)"
proof -
  let ?v = "v\<lparr>sv_dirty := {}\<rparr>" and ?c = "sync_changeset L approved ts intent message v"
  have none: "dom (snapshot_index (sv_files v)) = {} \<longleftrightarrow> (\<forall>p f. sv_files v p = Some f \<longrightarrow> vf_deleted f)"
    unfolding dom_def by (auto simp: snapshot_index_eq[OF assms(1,2)] split: option.splits if_splits)
  have cs: "sync_changeset L approved ts intent message ?v = ?c" by (simp add: sync_changeset_def split: option.split)
  show ?thesis
  proof (cases "sv_dirty v = {} \<or> (\<forall>p f. sv_files v p = Some f \<longrightarrow> vf_deleted f)")
    case True
    then have "sv_dirty v = {} \<or> dom (snapshot_index (sv_files ?v)) = {}" using none by auto
    with assms(3) True none show ?thesis by (cases "sv_dirty v = {}") (auto simp: sync_commit_def take_dirty_def Let_def)
  next
    case False
    then have "sv_dirty v \<noteq> {}" "dom (snapshot_index (sv_files ?v)) \<noteq> {}" using none by auto
    with assms(3) have "(r, w) = andThen (update_dag E now ?c) (\<lambda>_. ok (cs_id ?c)) ?v"
      by (simp add: sync_commit_def take_dirty_def Let_def cs)
    then have r: "r = (case se_document E of None \<Rightarrow> Inr (cs_id ?c) | Some m \<Rightarrow> Inl (DocumentError m))"
      and w: "w = commit_outer now ?c ?v"
      by (auto simp: andThen_def ok_def update_dag_def split: option.splits)
    have sel: "cs_index ?c = snapshot_index (sv_files v)" "cs_author ?c = sv_user v"
      by (simp_all add: sync_changeset_def split: option.splits prod.splits)
    have "finite (dag_heads (sv_dag v))" using assms(4) by (auto simp: dag_heads_def Let_def dag_ok_def)
    then have ps: "set (cs_parents ?c) = (case peer_heads (sv_dag v) (sv_user v) of Some ps \<Rightarrow> {ph_head ps} | None \<Rightarrow> dag_heads (sv_dag v))"
      by (simp add: sync_changeset_def split: option.splits)
    have own: "own_index w = snapshot_index (sv_files v)" by (simp add: own_index_def w commit_outer_def peer_heads_commit sel)
    from commit_stored[OF assms(5), of now "sv_user v"] obtain x where
      "changesets (sv_dag w) (cs_id ?c) = Some x" "cs_author x = sv_user v" "cs_parents x = cs_parents ?c" "cs_index x = snapshot_index (sv_files v)"
      by (auto simp: w commit_outer_def sel)
    moreover have "\<forall>p. own_index w p = (case sv_files v p of None \<Rightarrow> None
        | Some f \<Rightarrow> if vf_deleted f then None else Some (ContentAddr (vf_hash f) (vf_size f)))"
      by (simp add: own snapshot_index_eq[OF assms(1,2)])
    moreover have "sv_files w = sv_files v" "sv_disk w = sv_disk v" "sv_dirty w = {}" by (simp_all add: w commit_outer_def)
    moreover have "\<exists>ps. peer_heads (sv_dag w) (sv_user v) = Some ps \<and> ph_head ps = cs_id ?c"
      "\<forall>u. u \<noteq> sv_user v \<longrightarrow> peer_heads (sv_dag w) u = peer_heads (sv_dag v) u"
      by (simp_all add: w commit_outer_def peer_heads_commit)
    ultimately show ?thesis using False ps own r by auto
  qed
qed

lemma forEach_skip: "(\<And>x. x \<in> set xs \<Longrightarrow> f x = ok ()) \<Longrightarrow> forEach xs f s = (Inr (map (\<lambda>_. ()) xs), s)"
  by (induction xs arbitrary: s) (simp_all add: andThen_def ok_def)

text \<open>
  C13: Merging a peer's head keeps the files of both sides: the own head then has every path of
  either, with the peer's content where both have one. If the merge succeeds, all these paths
  hold their address on disk; no file is deleted, since the loop that should carry out the
  peer's deletions never finds one. If a blob cannot be had the call fails with the head moved all
  the same.
\<close>

theorem merge_from_peer_union:
  assumes "merge_from_peer L E approved ts now peer v = (r, w)" and "peer_heads (sv_dag v) peer = Some ps"
    and "finite (dom (ph_index ps))" and "finite (dom (own_index v))"
  shows "own_index w = own_index v ++ ph_index ps \<and>
    (\<forall>u. u \<noteq> sv_user v \<longrightarrow> peer_heads (sv_dag w) u = peer_heads (sv_dag v) u) \<and>
    (case r of Inl e \<Rightarrow> True | Inr i \<Rightarrow>
      (\<exists>h. peer_heads (sv_dag w) (sv_user v) = Some h \<and> ph_head h = i) \<and>
      (\<forall>p. case (own_index v ++ ph_index ps) p of Some a \<Rightarrow> holds_file L w p a
        | None \<Rightarrow> sv_disk w p = sv_disk v p \<and> sv_files w p = sv_files v p))"
proof -
  let ?mine = "own_index v" and ?merged = "own_index v ++ ph_index ps"
  let ?c = "peer_merge_changeset L approved ts peer ps v" and ?del = "\<lambda>(path :: string, _ :: content_addr).
    (if index_get (own_index v ++ ph_index ps) path = None then ignore_error (delete_file_content E path) else ok ()) :: ('a, unit) sync_op"
  have m: "fill_missing (ph_index ps) ?mine = ?merged" by (rule fill_missing_eq[OF assms(4)])
  have ix: "cs_index ?c = ?merged" by (simp add: peer_merge_changeset_def m)
  obtain q u where a: "apply_index L E ?merged (commit_outer now ?c v) = (q, u)" by fastforce
  have skip: "forEach (btree_entries ?mine) ?del s = (Inr (map (\<lambda>_. ()) (btree_entries ?mine)), s)" for s :: "'a sync_vault"
    by (rule forEach_skip) (auto simp: set_btree_entries[OF assms(4)] index_get_def map_add_def split: option.splits)
  have run: "(r, w) = (case se_document E of
      Some e \<Rightarrow> (Inl (DocumentError e), commit_outer now ?c v)
    | None \<Rightarrow> (case q of Inl e \<Rightarrow> (Inl e, u) | Inr _ \<Rightarrow> (Inr (cs_id ?c), u)))"
    using assms(1) a skip[of u]
    by (simp add: merge_from_peer_def Let_def andThen_def reads_def ok_or_def update_dag_def assms(2) m ok_def split: sum.splits option.splits)
  then have w: "w = u \<or> isl r \<and> w = commit_outer now ?c v" by (auto split: sum.splits option.splits)
  have "same_rest (commit_outer now ?c v) (commit_outer now ?c v)" by (simp add: same_rest_def)
  then have rest: "same_rest (commit_outer now ?c v) w" using apply_rest[of "commit_outer now ?c v" L E ?merged] w by (auto simp: a)
  have fin: "finite (dom ?merged)" using assms(3,4) by simp
  have heads: "peer_heads (sv_dag w) z = (if z = sv_user v then Some \<lparr>ph_head = cs_id ?c, ph_index = ?merged, ph_updated_ms = now\<rparr>
      else peer_heads (sv_dag v) z)" for z
    using rest by (simp add: same_rest_def commit_outer_def peer_heads_commit ix)
  have own: "own_index w = ?merged" using rest heads[of "sv_user v"] by (simp add: own_index_def same_rest_def commit_outer_def)
  have "case ?merged p of Some a \<Rightarrow> holds_file L w p a | None \<Rightarrow> sv_disk w p = sv_disk v p \<and> sv_files w p = sv_files v p"
    if "r = Inr i" for i p
  proof -
    from run that obtain y where "q = Inr y" and w: "w = u" by (auto split: sum.splits option.splits)
    moreover have "sv_disk (commit_outer now ?c v) = sv_disk v" "sv_files (commit_outer now ?c v) = sv_files v" by (simp_all add: commit_outer_def)
    ultimately show ?thesis using apply_index_effect[OF fin, of L E "commit_outer now ?c v" y w p] a w by (simp del: map_add_None split: option.splits)
  qed
  moreover have "i = cs_id ?c" if "r = Inr i" for i using run that by (auto split: sum.splits option.splits)
  ultimately show ?thesis using own heads by (auto split: sum.splits)
qed

text \<open>
  C14: Garbage collection keeps what the braids refer to: a blob that a stored changeset or a head of the outer
  or the inner braid names, with its size, is loaded afterwards as before, so that no checkout that was
  possible becomes impossible; and nothing but blobs is touched.
\<close>

theorem gc_keeps_referenced:
  assumes "gc_blobs v = (g, w)" and "a \<in> all_referenced_addrs (sv_dag v) \<union> inner_referenced_addrs (sv_inner v)"
    and "blob_load (blake3 L) a (sv_blobs v) = Inr data" and "ca_size a = of_nat (length data)"
  shows "blob_load (blake3 L) a (sv_blobs w) = Inr data \<and> same_rest v w \<and> sv_disk w = sv_disk v \<and> sv_files w = sv_files v"
proof -
  let ?refs = "all_referenced_addrs (sv_dag v) \<union> inner_referenced_addrs (sv_inner v)"
  obtain s where s: "blob_gc (\<lambda>a. a \<in> ?refs) (sv_blobs v) = (g, s)" and w: "w = v\<lparr>sv_blobs := s\<rparr>"
    using assms(1) by (auto simp: gc_blobs_def Let_def split: prod.splits)
  have "ContentAddr (ca_hash a) (of_nat (length data)) = a" using assms(4) by (cases a) simp
  with assms(2,3) show ?thesis
    by (simp add: blob_load_iff blob_gc_exact(1)[OF s] w same_rest_def)
qed

text \<open>A relay that does not have the blob with a given hash never brings it.\<close>

definition relay_lacks :: "sync_env \<Rightarrow> bytes32 \<Rightarrow> bool" where
  "relay_lacks E h \<longleftrightarrow> (\<forall>pull n s. se_relay E = Some pull \<longrightarrow> bs_files s h = None \<longrightarrow> bs_files (pull n s) h = None)"

lemma retry_load_lacks:
  assumes "\<And>n s. bs_files s h = None \<Longrightarrow> bs_files (pull n s) h = None" and "bs_files s h = None"
    and "retry_load b3 pull n a s = (r, s')"
  shows "bs_files s' h = None \<and> (\<forall>data. r = Some data \<longrightarrow> blob_load b3 a s' = Inr data)"
  using assms(2,3)
proof (induction n arbitrary: s)
  case (Suc n)
  from assms(1)[OF Suc.prems(1)] have "bs_files (pull n s) h = None" .
  with Suc show ?case by (auto simp: Let_def split: sum.splits)
qed simp

lemma fetch_lacks:
  assumes "relay_lacks E h" and "bs_files (sv_blobs v) h = None" and "fetch_blob L E p a v = (r, v')"
  shows "bs_files (sv_blobs v') h = None \<and> (\<forall>data. r = Inr data \<longrightarrow> blake3 L data \<noteq> h \<and> ca_hash a \<noteq> h)"
proof -
  have "bs_files (sv_blobs v') h = None \<and> (\<forall>data. r = Inr data \<longrightarrow> blob_load (blake3 L) a (sv_blobs v') = Inr data)"
  proof (cases "blob_load (blake3 L) a (sv_blobs v)")
    case (Inl e)
    show ?thesis
    proof (cases "se_relay E")
      case (Some pull)
      obtain q s where q: "retry_load (blake3 L) pull 10 a (sv_blobs v) = (q, s)" by fastforce
      have "bs_files (pull n s) h = None" if "bs_files s h = None" for n s using assms(1) Some that by (simp add: relay_lacks_def)
      from retry_load_lacks[OF this assms(2) q] Inl Some q assms(3) show ?thesis by (auto simp: fetch_blob_def split: option.splits)
    qed (use Inl assms(2,3) in \<open>auto simp: fetch_blob_def\<close>)
  qed (use assms(2,3) in \<open>auto simp: fetch_blob_def\<close>)
  then show ?thesis by (auto simp: blob_load_iff)
qed

lemma write_lacks:
  assumes "bs_files (sv_blobs v) h = None" and "blake3 L data \<noteq> h" and "write_file_content L E p data v = (r, v')"
  shows "bs_files (sv_blobs v') h = None"
  using assms
  by (auto simp: write_file_content_def Let_def andThen_def modify_def file_defs blob_put_def split: if_splits sum.splits prod.splits)

lemma apply_lacks:
  assumes "relay_lacks E h" and "bs_files (sv_blobs v) h = None"
    and "forEach xs (\<lambda>(path, a). andThen (fetch_blob L E path a) (\<lambda>data. write_file_content L E path data)) v = (Inr ys, w)"
  shows "\<forall>(p, a) \<in> set xs. ca_hash a \<noteq> h"
  using assms(2,3)
proof (induction xs arbitrary: v ys)
  case (Cons x xs)
  obtain p a where x: "x = (p, a)" by fastforce
  from Cons.prems(2) obtain data u1 u2 zs where f: "fetch_blob L E p a v = (Inr data, u1)"
    and wr: "write_file_content L E p data u1 = (Inr (), u2)"
    and rest: "forEach xs (\<lambda>(path, a). andThen (fetch_blob L E path a) (\<lambda>data. write_file_content L E path data)) u2 = (Inr zs, w)"
    by (auto simp: x op_success)
  from fetch_lacks[OF assms(1) Cons.prems(1) f] have u1: "bs_files (sv_blobs u1) h = None" "blake3 L data \<noteq> h" "ca_hash a \<noteq> h" by simp_all
  from Cons.IH[OF write_lacks[OF u1(1,2) wr] rest] u1(3) show ?case by (auto simp: x)
qed simp

text \<open>
  C38: Garbage collection loses edits that are not committed yet. If the blob of an active file is named by no
  changeset or head of either braid, as after an edit that the watcher has indexed, and the relay does not have it, then collecting garbage and then syncing
  commits a changeset that names the lost blob, and its checkout fails: no local store and no relay has the content.
\<close>

theorem gc_loses_uncommitted_edit:
  assumes "sv_files v p = Some f" and "\<not> vf_deleted f" and "key_matches vf_path (sv_files v)" and "finite (dom (sv_files v))"
    and "\<And>a. a \<in> all_referenced_addrs (sv_dag v) \<union> inner_referenced_addrs (sv_inner v) \<Longrightarrow> ca_hash a \<noteq> vf_hash f"
    and "gc_blobs v = (g, v1)" and "sync_commit L E approved ts now intent message v1 = (Inr i, v2)"
    and "no_collision (sv_dag v1) (sync_changeset L approved ts intent message v1)" and "relay_lacks E (vf_hash f)"
  shows "\<exists>e. fst (checkout L E i v2) = Inl e"
proof (rule ccontr)
  assume "\<nexists>e. fst (checkout L E i v2) = Inl e"
  then obtain w where ok: "checkout L E i v2 = (Inr (), w)" by (cases "checkout L E i v2"; cases "fst (checkout L E i v2)") auto
  let ?refs = "all_referenced_addrs (sv_dag v) \<union> inner_referenced_addrs (sv_inner v)"
  obtain s where s: "blob_gc (\<lambda>a. a \<in> ?refs) (sv_blobs v) = (g, s)" and v1: "v1 = v\<lparr>sv_blobs := s\<rparr>"
    using assms(6) by (auto simp: gc_blobs_def Let_def split: prod.splits)
  have "ContentAddr (vf_hash f) n \<notin> ?refs" for n using assms(5)[of "ContentAddr (vf_hash f) n"] by auto
  then have gone: "bs_files s (vf_hash f) = None" by (simp add: blob_gc_exact(1)[OF s] split: option.splits)
  let ?c = "sync_changeset L approved ts intent message v1"
  have cs: "sync_changeset L approved ts intent message (v1\<lparr>sv_dirty := {}\<rparr>) = ?c" by (simp add: sync_changeset_def split: option.split)
  from assms(7) have i: "i = cs_id ?c" and v2: "v2 = commit_outer now ?c (v1\<lparr>sv_dirty := {}\<rparr>)"
    by (auto simp: sync_commit_def take_dirty_def Let_def cs andThen_def ok_def update_dag_def split: if_splits option.splits)
  have ix: "cs_index ?c = snapshot_index (sv_files v)" by (simp add: sync_changeset_def v1 split: option.splits prod.splits)
  from commit_stored[OF assms(8), of now "sv_user v1"] obtain x where
    x: "changesets (sv_dag v2) i = Some x" "cs_index x = snapshot_index (sv_files v)"
    by (auto simp: v2 commit_outer_def i ix)
  have entry: "snapshot_index (sv_files v) p = Some (ContentAddr (vf_hash f) (vf_size f))"
    using assms(1,2) by (simp add: snapshot_index_eq[OF assms(3,4)])
  have "dom (snapshot_index (sv_files v)) \<subseteq> dom (sv_files v)"
    unfolding dom_def by (auto simp: snapshot_index_eq[OF assms(3,4)] split: option.splits)
  then have fin: "finite (dom (snapshot_index (sv_files v)))" using assms(4) by (rule finite_subset)
  from ok x obtain ys where "forEach (btree_entries (snapshot_index (sv_files v)))
      (\<lambda>(path, a). andThen (fetch_blob L E path a) (\<lambda>data. write_file_content L E path data)) v2 = (Inr ys, w)"
    by (auto simp: checkout_def op_success dag_get_def apply_index_def)
  moreover have "bs_files (sv_blobs v2) (vf_hash f) = None" using gone by (simp add: v2 commit_outer_def v1)
  ultimately have all: "\<forall>(p, a) \<in> set (btree_entries (snapshot_index (sv_files v))). ca_hash a \<noteq> vf_hash f"
    by (intro apply_lacks[OF assms(9)])
  have "(p, ContentAddr (vf_hash f) (vf_size f)) \<in> set (btree_entries (snapshot_index (sv_files v)))"
    using entry by (simp add: set_btree_entries[OF fin])
  from bspec[OF all this] show False by simp
qed

text \<open>
  C15: What the user publishes is what the agents' work was merged to. \<open>promote\<close> returns. Without an inner
  head it fails and changes nothing. Otherwise the own head of the outer braid carries exactly the inner head's
  index and continues the former outer head, and nobody else's head moves. If the document was saved, the inner
  braid is then rolled up: the user's head is its only head, the user's head and the changesets that descend from it stay as they were, and
  every other changeset is gone. If it was not saved the call fails and leaves the inner braid as it was.
\<close>

theorem promote_publishes:
  assumes "backed (ab_dag (sv_inner v))" and "set ord = dom (changesets (ab_dag (sv_inner v)))" and "sv_user v = ab_user (sv_inner v)"
    and "pred_option (\<lambda>h. no_collision (sv_dag v) (promote_changeset L approved ts intent (ph_index h) v)) (user_head (sv_inner v))"
  shows "\<exists>r w. promote L E ord approved ts now intent v = Some (r, w) \<and>
    (case user_head (sv_inner v) of
       None \<Rightarrow> r = Inl NothingToPromote \<and> w = v
     | Some h \<Rightarrow> \<exists>i c. own_index w = ph_index h \<and> changesets (sv_dag w) i = Some c \<and> cs_index c = ph_index h \<and>
         cs_parents c = (case peer_heads (sv_dag v) (sv_user v) of Some prev \<Rightarrow> [ph_head prev] | None \<Rightarrow> []) \<and>
         (\<forall>u. u \<noteq> sv_user v \<longrightarrow> peer_heads (sv_dag w) u = peer_heads (sv_dag v) u) \<and>
         (case se_document E of
            Some m \<Rightarrow> r = Inl (DocumentError m) \<and> sv_inner w = sv_inner v
          | None \<Rightarrow> r = Inr i \<and> peer_heads (ab_dag (sv_inner w)) = [sv_user v \<mapsto> h] \<and> backed (ab_dag (sv_inner w)) \<and>
              (\<forall>j. changesets (ab_dag (sv_inner w)) j =
                (if j = ph_head h \<or> ph_head h \<in> the (ancestors (ab_dag (sv_inner v)) j)
                 then changesets (ab_dag (sv_inner v)) j else None))))"
proof (cases "user_head (sv_inner v)")
  case None
  then show ?thesis by (simp add: promote_def)
next
  case (Some h)
  let ?d = "ab_dag (sv_inner v)" and ?u = "ab_user (sv_inner v)" and ?c = "promote_changeset L approved ts intent (ph_index h) v"
  let ?r = "?d\<lparr>peer_heads := peer_heads ?d |` {?u}\<rparr>" and ?v = "commit_outer now ?c v"
  have head: "peer_heads ?d ?u = Some h" using Some by (simp add: user_head_def)
  have sel: "cs_index ?c = ph_index h" "cs_parents ?c = (case peer_heads (sv_dag v) (sv_user v) of Some prev \<Rightarrow> [ph_head prev] | None \<Rightarrow> [])"
    by (simp_all add: promote_changeset_def Let_def split: option.splits)
  have "no_collision (sv_dag v) ?c" using assms(4) Some by simp
  from commit_stored[OF this, of now "sv_user v"] obtain x where
    x: "changesets (sv_dag ?v) (cs_id ?c) = Some x" "cs_index x = ph_index h" "cs_parents x = cs_parents ?c" by (auto simp: commit_outer_def sel)
  have own: "own_index ?v = ph_index h" by (simp add: own_index_def commit_outer_def peer_heads_commit sel)
  have others: "\<forall>u. u \<noteq> sv_user v \<longrightarrow> peer_heads (sv_dag ?v) u = peer_heads (sv_dag v) u" by (simp add: commit_outer_def peer_heads_commit)
  show ?thesis
  proof (cases "se_document E")
    case (Some m)
    then have "promote L E ord approved ts now intent v = Some (Inl (DocumentError m), ?v)"
      using \<open>user_head (sv_inner v) = Some h\<close> by (simp add: promote_def update_dag_def Let_def)
    moreover have "sv_inner ?v = sv_inner v" by (simp add: commit_outer_def)
    ultimately show ?thesis using x own others sel Some \<open>user_head (sv_inner v) = Some h\<close> by auto
  next
    case None
    have "dag_ok ?r" "set ord = dom (changesets ?r)" using assms(1,2) by (simp_all add: backed_def dag_ok_def)
    from descendants_exact[OF this, of "ph_head h"] obtain freed d' where r: "rollup ord (ph_head h) ?r = Some (freed, d')"
      by (auto simp: rollup_def Let_def)
    let ?w = "?v\<lparr>sv_inner := (sv_inner v)\<lparr>ab_dag := d'\<rparr>\<rparr>"
    have run: "promote L E ord approved ts now intent v = Some (Inr (cs_id ?c), ?w)"
      using r head None by (simp add: promote_def Some Let_def rollup_to_user_head_def commit_outer_def update_dag_def)
    note roll = rollup_backed[OF assms(1,2) head r]
    have "finite (dom (changesets ?d))" using assms(1) by (simp add: backed_def dag_ok_def)
    then have "(j, ph_head h) \<in> (parent_rel ?d)\<^sup>* \<longleftrightarrow> j = ph_head h \<or> ph_head h \<in> the (ancestors ?d j)" for j
      by (auto simp: ancestors_exact rtrancl_eq_or_trancl)
    with roll have "\<forall>j. changesets (ab_dag (sv_inner ?w)) j =
        (if j = ph_head h \<or> ph_head h \<in> the (ancestors ?d j) then changesets ?d j else None)" by simp
    moreover have "peer_heads (ab_dag (sv_inner ?w)) = [sv_user v \<mapsto> h]" "backed (ab_dag (sv_inner ?w))" using roll assms(3) by simp_all
    moreover have "own_index ?w = ph_index h" "sv_dag ?w = sv_dag ?v" using own by (simp_all add: own_index_def)
    ultimately show ?thesis using run x others sel None by (auto simp: Some)
  qed
qed

lemma adopt_heads_rest:
  "sv_user (adopt_heads L E clk new_state ps v) = sv_user v \<and> sv_trust (adopt_heads L E clk new_state ps v) = sv_trust v \<and>
    sv_last_heads (adopt_heads L E clk new_state ps v) = sv_last_heads v"
proof (induction ps arbitrary: v)
  case (Cons p ps)
  show ?case
    using materialize_rest[of v L E]
    by (simp add: Cons.IH split: option.splits prod.splits) (auto simp: commit_outer_def same_rest_def Let_def split: prod.splits)
qed simp

lemma adopt_heads_append: "adopt_heads L E clk new_state (ps @ qs) v = adopt_heads L E clk new_state qs (adopt_heads L E clk new_state ps v)"
  by (induction ps arbitrary: v) simp_all

text \<open>
  C39: The background task does not merge a trusted peer, it adopts it: when the head of a trusted peer has
  changed, the own head carries the peer's index and nothing else afterwards, so that every own
  file the peer does not have is missing from the own head.
\<close>

theorem trusted_peer_adopted:
  assumes "peer_heads new_state peer = Some ps" and "peer \<noteq> sv_user v" and "sv_last_heads v peer \<noteq> Some (ph_head ps)"
    and "is_peer_trusted peer v"
  shows "own_index (on_dag_change L E clk (before @ [peer]) True new_state v) = ph_index ps"
proof -
  let ?v = "adopt_heads L E clk new_state before v"
  have r: "sv_user ?v = sv_user v" "sv_trust ?v = sv_trust v" "sv_last_heads ?v = sv_last_heads v"
    using adopt_heads_rest[of L E clk new_state before v] by simp_all
  obtain ap ts now where t: "clk peer = (ap, ts, now)" by (cases "clk peer") auto
  have "same_rest ?v (snd (materialize_index L E (ph_index ps) ?v))" by (rule materialize_rest)
  then have "own_index (adopt_heads L E clk new_state (before @ [peer]) v) = ph_index ps"
    using assms r by (simp add: adopt_heads_append is_peer_trusted_def t Let_def own_index_def commit_outer_def peer_heads_commit
      auto_merge_changeset_def same_rest_def)
  then show ?thesis by (simp add: on_dag_change_def Let_def own_index_def)
qed

section \<open>The watcher and the availability of files\<close>

text \<open>The relay only brings blobs: it keeps the store sound and the blobs it has.\<close>

definition relay_ok :: "('sk, 'pk, 'x) crypto_lib_scheme \<Rightarrow> sync_env \<Rightarrow> bool" where
  "relay_ok L E \<longleftrightarrow> (\<forall>pull. se_relay E = Some pull \<longrightarrow> (\<forall>n s. blobs_sound (blake3 L) s \<longrightarrow>
    blobs_sound (blake3 L) (pull n s) \<and> dom (bs_files s) \<subseteq> dom (bs_files (pull n s))))"

text \<open>Every file that is not deleted is indexed under its path and has its blob in the store.\<close>

definition files_available :: "('sk, 'pk, 'x) crypto_lib_scheme \<Rightarrow> 'sk sync_vault \<Rightarrow> bool" where
  "files_available L v \<longleftrightarrow> blobs_sound (blake3 L) (sv_blobs v) \<and> key_matches vf_path (sv_files v) \<and> finite (dom (sv_files v)) \<and>
    (\<forall>p f. sv_files v p = Some f \<longrightarrow> \<not> vf_deleted f \<longrightarrow> vf_hash f \<in> dom (bs_files (sv_blobs v)))"

lemma files_available_blobs:
  assumes "files_available L v" and "blobs_sound (blake3 L) s" and "dom (bs_files (sv_blobs v)) \<subseteq> dom (bs_files s)"
  shows "files_available L (v\<lparr>sv_blobs := s\<rparr>)"
proof -
  have "vf_hash f \<in> dom (bs_files s)" if "sv_files v p = Some f" "\<not> vf_deleted f" for p f
    using that assms(1,3) unfolding files_available_def by blast
  with assms(1,2) show ?thesis by (simp add: files_available_def)
qed

lemma files_available_cong:
  "sv_files w = sv_files v \<Longrightarrow> sv_blobs w = sv_blobs v \<Longrightarrow> files_available L w = files_available L v"
  by (simp add: files_available_def)

lemma store_blob_available:
  assumes "files_available L v" and "store_blob L data v = (r, w)"
  shows "files_available L w \<and> sv_files w = sv_files v \<and> (\<forall>a. r = Inr a \<longrightarrow> blake3 L data \<in> dom (bs_files (sv_blobs w)))"
proof -
  obtain q s where put: "blob_put (blake3 L) data (sv_blobs v) = (q, s)" by fastforce
  have "blobs_sound (blake3 L) s" using blobs.put_sound[OF _ put] assms(1) by (simp add: files_available_def)
  moreover have "dom (bs_files (sv_blobs v)) \<subseteq> dom (bs_files s)" "\<forall>a. q = Inr a \<longrightarrow> blake3 L data \<in> dom (bs_files s)"
    using put by (auto simp: blob_put_def Let_def blob_exists_def split: if_splits)
  ultimately show ?thesis using files_available_blobs[OF assms(1)] assms(2) put
    by (auto simp: store_blob_def split: sum.splits)
qed

lemma upsert_available:
  assumes "files_available L v" and "h \<in> dom (bs_files (sv_blobs v))"
  shows "files_available L (upsert_file now p h n u v)"
  using assms by (auto simp: files_available_def upsert_file_def doc_upsert_def new_vault_file_def)

lemma delete_available: "files_available L v \<Longrightarrow> files_available L (delete_file now p u v)"
  by (auto simp: files_available_def delete_file_def doc_remove_def key_matches_def split: option.splits if_splits)

lemma retry_load_keeps:
  assumes "\<And>n s. blobs_sound b3 s \<Longrightarrow> blobs_sound b3 (pull n s) \<and> dom (bs_files s) \<subseteq> dom (bs_files (pull n s))" and "blobs_sound b3 s"
  shows "blobs_sound b3 (snd (retry_load b3 pull n a s)) \<and> dom (bs_files s) \<subseteq> dom (bs_files (snd (retry_load b3 pull n a s)))"
  using assms(2)
proof (induction n arbitrary: s)
  case (Suc n)
  from assms(1)[OF Suc.prems, of n] Suc.IH[of "pull n s"] show ?case by (auto simp: Let_def split: sum.splits)
qed simp

lemma fetch_available:
  assumes "relay_ok L E"
  shows "keeps (files_available L) (fetch_blob L E p a)"
  unfolding keeps_def
proof (intro allI impI)
  fix v assume v: "files_available L v"
  show "files_available L (snd (fetch_blob L E p a v))"
  proof (cases "se_relay E")
    case None
    with v show ?thesis by (simp add: fetch_blob_def split: sum.splits)
  next
    case (Some pull)
    obtain q s where r: "retry_load (blake3 L) pull 10 a (sv_blobs v) = (q, s)" by fastforce
    have "blobs_sound (blake3 L) s \<and> dom (bs_files (sv_blobs v)) \<subseteq> dom (bs_files s)"
      using retry_load_keeps[of "blake3 L" pull "sv_blobs v" 10 a] assms Some v r by (simp add: relay_ok_def files_available_def)
    with files_available_blobs[OF v, of s] v show ?thesis by (simp add: fetch_blob_def Some r split: sum.splits option.splits)
  qed
qed

lemma write_available: "keeps (files_available L) (write_file_content L E p data)"
  unfolding keeps_def
proof (intro allI impI)
  fix v assume v: "files_available L v"
  let ?v = "record_hash p (blake3 L data) (suppress (se_instant E p) p v)"
  show "files_available L (snd (write_file_content L E p data v))"
  proof (cases "se_writable E p")
    case False
    then show ?thesis using v files_available_cong[of ?v v L] by (simp add: write_file_content_def Let_def andThen_def modify_def file_defs)
  next
    case True
    let ?d = "?v\<lparr>sv_disk := (sv_disk ?v)(p \<mapsto> data)\<rparr>"
    have d: "files_available L ?d" using v files_available_cong[of ?d v L] by (simp add: file_defs)
    obtain r w where st: "store_blob L data ?d = (r, w)" by fastforce
    note av = store_blob_available[OF d st]
    have e: "write_file_content L E p data v = (case r of Inl x \<Rightarrow> (Inl x, w)
        | Inr _ \<Rightarrow> (Inr (), upsert_file (se_clock E p) p (blake3 L data) (of_nat (length data)) (sv_user w) w))"
      using st True by (simp add: write_file_content_def Let_def andThen_def modify_def write_disk_def split: sum.splits)
    show ?thesis using av by (cases r) (auto simp: e intro: upsert_available)
  qed
qed

lemma keeps_files: "(\<And>v. sv_files (f v) = sv_files v \<and> sv_blobs (f v) = sv_blobs v) \<Longrightarrow> keeps (files_available L) (modify f)"
  by (rule keeps_modify) (simp add: files_available_def)

lemma keeps_available_disk: "keeps (files_available L) (write_disk E p data)" "keeps (files_available L) (remove_disk E p)"
  by (auto simp: keeps_def write_disk_def remove_disk_def files_available_def)

lemma apply_available: "relay_ok L E \<Longrightarrow> keeps (files_available L) (apply_index L E index)"
  unfolding apply_index_def
  by (intro keeps_intros) (auto intro!: keeps_intros fetch_available write_available split: prod.splits)

lemma materialize_available: "relay_ok L E \<Longrightarrow> keeps (files_available L) (materialize_index L E index)"
  unfolding materialize_index_def
  by (intro keeps_intros)
    (auto intro!: keeps_andThen keeps_files fetch_available keeps_available_disk simp: suppress_def record_hash_def split: prod.splits)

lemma delete_content_available: "keeps (files_available L) (delete_file_content E p)"
  unfolding delete_file_content_def
  by (intro keeps_andThen keeps_files keeps_available_disk keeps_modify delete_available) (simp_all add: suppress_def)

lemma ignore_available: "keeps P m \<Longrightarrow> keeps P (ignore_error m)"
  by (simp add: keeps_def ignore_error_def)

lemma commit_outer_available [simp]: "files_available L (commit_outer now c v) = files_available L v"
  by (simp add: files_available_def commit_outer_def)

lemma update_dag_available: "keeps (files_available L) (update_dag E now c)"
  by (simp add: keeps_def update_dag_def)

lemma merge_from_peer_available: "relay_ok L E \<Longrightarrow> keeps (files_available L) (merge_from_peer L E ap ts now peer)"
  unfolding merge_from_peer_def Let_def
  by (intro keeps_intros update_dag_available apply_available)
    (auto intro!: ignore_available delete_content_available keeps_ok split: prod.splits)

section \<open>Histories of a vault\<close>

datatype sync_call =
    EditDisk string "bytes option"
  | Watch nat int string fs_event
  | Scan "string list"
  | Sync int int int string "string option"
  | Checkout change_id
  | MergeFromPeer int int int user_id
  | SetPeerTrust int int int user_id bool
  | DagChange "user_id \<Rightarrow> int \<times> int \<times> int" "user_id list" bool braid_dag

text \<open>A call, or an edit of the directory by the user; a change of the braid by a peer comes with the state it produced.\<close>

fun sync_run :: "('sk, 'pk, 'x) braid_lib_scheme \<Rightarrow> sync_env \<times> sync_call \<Rightarrow> 'sk sync_vault \<Rightarrow> 'sk sync_vault" where
  "sync_run L (E, EditDisk p data) v = v\<lparr>sv_disk := (sv_disk v)(p := data)\<rparr>"
| "sync_run L (E, Watch inst now p kind) v = watch_event L inst now (p, kind) v"
| "sync_run L (E, Scan ord) v = snd (initial_scan L E ord v)"
| "sync_run L (E, Sync ap ts now intent message) v = snd (sync_commit L E ap ts now intent message v)"
| "sync_run L (E, Checkout i) v = snd (checkout L E i v)"
| "sync_run L (E, MergeFromPeer ap ts now peer) v = snd (merge_from_peer L E ap ts now peer v)"
| "sync_run L (E, SetPeerTrust ap ts now peer trusted) v = set_peer_trust L E ap ts now peer trusted v"
| "sync_run L (E, DagChange clk ord remote new_state) v = on_dag_change L E clk ord remote new_state (v\<lparr>sv_dag := new_state\<rparr>)"

lemma watch_event_available: "files_available L v \<Longrightarrow> files_available L (watch_event L inst now ev v)"
proof -
  assume v: "files_available L v"
  obtain p kind where ev: "ev = (p, kind)" by fastforce
  obtain sup v1 where s: "is_suppressed inst p v = (sup, v1)" by fastforce
  have "sv_files v1 = sv_files v" "sv_blobs v1 = sv_blobs v" using s by (auto simp: is_suppressed_def split: option.splits if_splits)
  then have v1: "files_available L v1" using v by (simp add: files_available_def)
  have create: "files_available L (case sv_disk v1 p of None \<Rightarrow> v1 | Some data \<Rightarrow>
      let hash = blake3 L data in if sv_known v1 p = Some hash then v1
      else case store_blob L data v1 of (Inl _, v) \<Rightarrow> v
        | (Inr _, v) \<Rightarrow> mark_dirty p (record_hash p hash (upsert_file now p hash (of_nat (length data)) (sv_user v) v)))"
  proof (cases "sv_disk v1 p")
    case (Some data)
    obtain r w where st: "store_blob L data v1 = (r, w)" by fastforce
    note av = store_blob_available[OF v1 st]
    show ?thesis
    proof (cases r)
      case (Inr a)
      with av have "files_available L (upsert_file now p (blake3 L data) (of_nat (length data)) (sv_user w) w)" by (intro upsert_available) auto
      then show ?thesis using v1 by (simp add: Some st Inr Let_def mark_dirty_def record_hash_def files_available_def)
    qed (use av v1 Some st in \<open>simp add: Let_def\<close>)
  qed (simp add: v1)
  have remove: "files_available L (mark_dirty p (delete_file now p (sv_user v1) v1))"
    using delete_available[OF v1] by (simp add: mark_dirty_def files_available_def)
  show ?thesis using v v1 create remove by (cases kind) (simp_all add: watch_event_def ev s)
qed

lemma scan_available: "keeps (files_available L) (initial_scan L E ord)"
proof -
  have "keeps (files_available L) (scan_file L E p)" for p
    unfolding keeps_def
  proof (intro allI impI)
    fix v assume v: "files_available L v"
    show "files_available L (snd (scan_file L E p v))"
    proof (cases "sv_disk v p")
      case (Some data)
      obtain r w where st: "store_blob L data v = (r, w)" by fastforce
      from store_blob_available[OF v st] show ?thesis
        by (cases r) (auto simp: scan_file_def andThen_def reads_def ok_or_def modify_def ok_def Some st intro: upsert_available)
    qed (simp add: scan_file_def andThen_def reads_def ok_or_def v)
  qed
  then show ?thesis unfolding initial_scan_def by (intro keeps_intros)
qed

lemma adopt_available:
  assumes "relay_ok L E"
  shows "files_available L v \<Longrightarrow> files_available L (adopt_heads L E clk new_state ps v)"
proof (induction ps arbitrary: v)
  case (Cons p ps)
  have "files_available L (snd (materialize_index L E index v))" for index
    using keepsD_snd[OF materialize_available[OF assms] Cons.prems] .
  then show ?case using Cons.prems by (auto intro!: Cons.IH simp: Let_def split: option.splits prod.splits)
qed simp

lemma sync_run_available:
  assumes "relay_ok L E" and "files_available L v"
  shows "files_available L (sync_run L (E, call) v)"
proof (cases call)
  case (Checkout i)
  have "keeps (files_available L) (checkout L E i)" unfolding checkout_def by (intro keeps_intros apply_available assms(1))
  with assms(2) Checkout show ?thesis by (simp add: keepsD_snd)
next
  case (SetPeerTrust ap ts now peer trusted)
  let ?v = "v\<lparr>sv_trust := (sv_trust v)(peer \<mapsto> trusted)\<rparr>"
  have "files_available L ?v" using assms(2) by (simp add: files_available_def)
  with keepsD_snd[OF merge_from_peer_available[OF assms(1)] this] SetPeerTrust show ?thesis
    by (simp only: sync_run.simps set_peer_trust_def Let_def split: if_split) blast
next
  case (DagChange clk ord remote new_state)
  have "files_available L (v\<lparr>sv_dag := new_state\<rparr>)" using assms(2) by (simp add: files_available_def)
  with adopt_available[OF assms(1) this] DagChange show ?thesis
    by (cases remote) (simp_all add: on_dag_change_def Let_def files_available_def)
next
  case (Sync ap ts now intent message)
  have "files_available L (v\<lparr>sv_dirty := {}\<rparr>)" using assms(2) by (simp add: files_available_def)
  then have "files_available L (snd (andThen (update_dag E now c) (\<lambda>_. ok i) (v\<lparr>sv_dirty := {}\<rparr>)))" for c and i :: change_id
    by (intro keepsD_snd[OF keeps_andThen[OF update_dag_available keeps_ok]])
  with \<open>files_available L (v\<lparr>sv_dirty := {}\<rparr>)\<close> Sync show ?thesis by (simp add: sync_commit_def take_dirty_def Let_def)
next
  case (EditDisk q data)
  with assms(2) show ?thesis by (simp add: files_available_def)
qed (use assms in \<open>simp_all add: watch_event_available keepsD_snd[OF scan_available] keepsD_snd[OF merge_from_peer_available]\<close>)

text \<open>
  C10: Nothing a user has edited is lost while the vault runs: through any sequence of edits, file events,
  scans, syncs, checkouts, merges, trust decisions and changes from peers, failing ones
  included, every file that is not marked as deleted is indexed under its path and its content can be
  loaded from the blob store with the recorded hash; provided that relays only add blobs.
\<close>

theorem files_stay_available:
  assumes "blobs_sound (blake3 L) blobs" and "list_all (\<lambda>(E, call). relay_ok L E) calls"
    and "v = fold (sync_run L) calls (setup_vault u identity dag blobs disk trust)"
    and "sv_files v p = Some f" and "\<not> vf_deleted f"
  shows "vf_path f = p \<and> (\<exists>data. blob_load (blake3 L) (ContentAddr (vf_hash f) (vf_size f)) (sv_blobs v) = Inr data \<and>
    blake3 L data = vf_hash f)"
proof -
  have "files_available L w \<Longrightarrow> files_available L (fold (sync_run L) calls w)" for w
    using assms(2) by (induction calls arbitrary: w) (auto intro!: sync_run_available)
  moreover have "files_available L (setup_vault u identity dag blobs disk trust)"
    using assms(1) by (simp add: files_available_def setup_vault_def)
  ultimately have "files_available L v" using assms(3) by simp
  then have "blobs_sound (blake3 L) (sv_blobs v)" "vf_path f = p" "vf_hash f \<in> dom (bs_files (sv_blobs v))"
    using assms(4,5) by (auto simp: files_available_def key_matches_def)
  then show ?thesis by (auto simp: blob_load_iff blobs_sound_def)
qed

section \<open>Examples and further behaviour of the watcher\<close>

text \<open>A vault whose directory has one file, which the watcher has indexed, and that has been synced.\<close>

definition sample_env :: sync_env where
  "sample_env = \<lparr>se_relay = Some (\<lambda>n s. s), se_writable = (\<lambda>p. True), se_instant = (\<lambda>p. 0), se_clock = (\<lambda>p. 3), se_document = None\<rparr>"

lemma sample_env_document [simp]: "se_document sample_env = None"
  by (simp add: sample_env_def)

lemma update_dag_ok: "se_document E = None \<Longrightarrow> andThen (update_dag E now c) f v = f () (commit_outer now c v)"
  by (simp add: update_dag_def andThen_def)

definition sample_vault :: "unit sync_vault" where
  "sample_vault = watch_event sample_braid_lib 0 5 (''f'', FsCreate)
    (setup_vault [1] () new_dag \<lparr>bs_files = Map.empty, bs_max_blob_size = 100\<rparr> [''f'' \<mapsto> [7]] [[2] \<mapsto> True])"

definition sample_synced :: "unit sync_vault" where
  "sample_synced = snd (sync_commit sample_braid_lib sample_env 6 7 8 ''add'' None sample_vault)"

definition sample_sync_changeset :: changeset where
  "sample_sync_changeset = sync_changeset sample_braid_lib 6 7 ''add'' None sample_vault"

lemma sample_not_ignored: "\<not> should_ignore ''f''"
  by code_simp

lemma sample_vault_eq:
  "sample_vault = (setup_vault [1] () new_dag \<lparr>bs_files = [[7] \<mapsto> [7]], bs_max_blob_size = 100\<rparr> [''f'' \<mapsto> [7]] [[2] \<mapsto> True])
    \<lparr>sv_files := [''f'' \<mapsto> new_vault_file 5 ''f'' [7] 1 [1]], sv_known := [''f'' \<mapsto> [7]], sv_dirty := {''f''}\<rparr>"
  by (simp add: sample_vault_def watch_event_def sample_not_ignored is_suppressed_def setup_vault_def store_blob_def blob_put_def
      blob_exists_def addr_from_bytes_def mark_dirty_def record_hash_def upsert_file_def doc_upsert_def new_vault_file_def sample_braid_lib_def Let_def)

lemma sample_vault_sel:
  "sv_files sample_vault = [''f'' \<mapsto> new_vault_file 5 ''f'' [7] 1 [1]]" "sv_dag sample_vault = new_dag" "sv_dirty sample_vault = {''f''}"
  "sv_user sample_vault = [1]" "sv_blobs sample_vault = \<lparr>bs_files = [[7] \<mapsto> [7]], bs_max_blob_size = 100\<rparr>"
  "sv_inner sample_vault = new_agent_braid [1]" "sv_trust sample_vault = [[2] \<mapsto> True]" "sv_last_heads sample_vault = Map.empty"
  by (simp_all add: sample_vault_eq setup_vault_def)

lemma sample_keys: "key_matches vf_path (sv_files sample_vault)" "finite (dom (sv_files sample_vault))"
  by (simp_all add: sample_vault_sel key_matches_def new_vault_file_def)

lemma sample_snapshot: "snapshot_index (sv_files sample_vault) = [''f'' \<mapsto> ContentAddr [7] 1]"
  unfolding fun_eq_iff snapshot_index_eq[OF sample_keys] by (simp add: sample_vault_sel new_vault_file_def)

lemma no_collision_new [simp]: "no_collision new_dag c"
  by (simp add: no_collision_def new_dag_def)

lemma sample_sync:
  "sync_commit sample_braid_lib sample_env 6 7 8 ''add'' None sample_vault = (Inr (cs_id sample_sync_changeset), sample_synced)"
  "sample_synced = commit_outer 8 sample_sync_changeset (sample_vault\<lparr>sv_dirty := {}\<rparr>)"
proof -
  have c: "sync_changeset sample_braid_lib 6 7 ''add'' None (sample_vault\<lparr>sv_dirty := {}\<rparr>) = sample_sync_changeset"
    by (simp add: sync_changeset_def sample_sync_changeset_def split: option.split)
  have d: "dom (snapshot_index (sv_files (sample_vault\<lparr>sv_dirty := {}\<rparr>))) \<noteq> {}" by (simp add: sample_snapshot)
  show "sync_commit sample_braid_lib sample_env 6 7 8 ''add'' None sample_vault = (Inr (cs_id sample_sync_changeset), sample_synced)"
    "sample_synced = commit_outer 8 sample_sync_changeset (sample_vault\<lparr>sv_dirty := {}\<rparr>)"
    using d by (simp_all add: sample_synced_def sync_commit_def take_dirty_def Let_def sample_vault_sel(3) c update_dag_ok ok_def)
qed

lemma sample_dag_ok_new [simp]: "dag_ok new_dag"
  by (simp add: dag_ok_def new_dag_def key_matches_def)

theorem sync_commits_snapshot_witness:
  "\<exists>i. fst (sync_commit sample_braid_lib sample_env 6 7 8 ''add'' None sample_vault) = Inr i \<and>
    own_index sample_synced ''f'' = Some (ContentAddr [7] 1) \<and> sv_dirty sample_synced = {}"
proof -
  have f: "sv_files sample_vault ''f'' = Some (new_vault_file 5 ''f'' [7] 1 [1])" by (simp add: sample_vault_sel)
  moreover have "\<not> vf_deleted (new_vault_file 5 ''f'' [7] 1 [1])" by (simp add: new_vault_file_def)
  ultimately have active: "\<not> (\<forall>p f. sv_files sample_vault p = Some f \<longrightarrow> vf_deleted f)" by blast
  have dirty: "sv_dirty sample_vault \<noteq> {}" by (simp add: sample_vault_sel(3))
  have ok: "dag_ok (sv_dag sample_vault)" "no_collision (sv_dag sample_vault) c" for c by (simp_all add: sample_vault_sel)
  note sync = sync_commits_snapshot[OF sample_keys sample_sync(1) ok, unfolded if_not_P[OF dirty] if_not_P[OF active]]
  from sync have "sv_dirty sample_synced = {}" by (elim exE conjE)
  moreover from sync have "\<forall>p. own_index sample_synced p = (case sv_files sample_vault p of None \<Rightarrow> None
          | Some f \<Rightarrow> if vf_deleted f then None else Some (ContentAddr (vf_hash f) (vf_size f)))" by (elim exE conjE)
  from spec[OF this, of "''f''"] f have "own_index sample_synced ''f'' = Some (ContentAddr [7] 1)" by (simp add: new_vault_file_def)
  ultimately show ?thesis using sample_sync(1) by simp
qed

lemma sample_synced_sel:
  "cs_index sample_sync_changeset = [''f'' \<mapsto> ContentAddr [7] 1]"
  "changesets (sv_dag sample_synced) = [cs_id sample_sync_changeset \<mapsto> sample_sync_changeset]"
  "sv_blobs sample_synced = \<lparr>bs_files = [[7] \<mapsto> [7]], bs_max_blob_size = 100\<rparr>"
  "sv_user sample_synced = [1]" "sv_last_heads sample_synced = Map.empty" "sv_trust sample_synced = [[2] \<mapsto> True]"
  "own_index sample_synced = [''f'' \<mapsto> ContentAddr [7] 1]"
proof -
  show ix: "cs_index sample_sync_changeset = [''f'' \<mapsto> ContentAddr [7] 1]"
    by (simp add: sample_sync_changeset_def sync_changeset_def sample_vault_sel(2) new_dag_def sample_snapshot)
  show "changesets (sv_dag sample_synced) = [cs_id sample_sync_changeset \<mapsto> sample_sync_changeset]"
    by (rule ext) (simp add: sample_sync(2) commit_outer_def sample_vault_sel changesets_commit new_dag_def)
  show "sv_blobs sample_synced = \<lparr>bs_files = [[7] \<mapsto> [7]], bs_max_blob_size = 100\<rparr>"
    "sv_user sample_synced = [1]" "sv_last_heads sample_synced = Map.empty" "sv_trust sample_synced = [[2] \<mapsto> True]"
    "own_index sample_synced = [''f'' \<mapsto> ContentAddr [7] 1]"
    by (simp_all add: sample_sync(2) commit_outer_def sample_vault_sel own_index_def peer_heads_commit ix)
qed

theorem checkout_restores_witness:
  "\<exists>w. checkout sample_braid_lib sample_env (cs_id sample_sync_changeset) (sample_synced\<lparr>sv_disk := Map.empty\<rparr>) = (Inr (), w) \<and>
    holds_file sample_braid_lib w ''f'' (ContentAddr [7] 1)"
proof -
  let ?v = "sample_synced\<lparr>sv_disk := Map.empty\<rparr>"
  have c: "changesets (sv_dag ?v) (cs_id sample_sync_changeset) = Some sample_sync_changeset" by (simp add: sample_synced_sel)
  have f: "finite (dom (cs_index sample_sync_changeset))" "blobs_fit (sv_blobs ?v)" by (simp_all add: sample_synced_sel blobs_fit_def)
  have a: "se_writable sample_env p \<and> available sample_braid_lib a ?v" if "cs_index sample_sync_changeset p = Some a" for p a
    using that by (auto simp: sample_synced_sel available_def blob_load_iff sample_env_def sample_braid_lib_def split: if_splits)
  obtain w where w: "checkout sample_braid_lib sample_env (cs_id sample_sync_changeset) ?v = (Inr (), w)"
    "\<forall>p. case cs_index sample_sync_changeset p of Some a \<Rightarrow> holds_file sample_braid_lib w p a
        | None \<Rightarrow> sv_disk w p = sv_disk ?v p \<and> sv_files w p = sv_files ?v p" by (rule exE[OF checkout_restores[OF c f a]], assumption, elim conjE, rule that)
  from spec[OF w(2), of "''f''"] w(1) show ?thesis by (simp add: sample_synced_sel)
qed

theorem merge_from_peer_union_witness:
  "\<exists>r w. merge_from_peer sample_braid_lib sample_env 1 2 3 [2]
      (sample_synced\<lparr>sv_dag := update_peer_head 4 [2] [5] [''g'' \<mapsto> ContentAddr [7] 1] (sv_dag sample_synced)\<rparr>) = (r, w) \<and>
    own_index w = [''f'' \<mapsto> ContentAddr [7] 1, ''g'' \<mapsto> ContentAddr [7] 1]"
proof -
  let ?v = "sample_synced\<lparr>sv_dag := update_peer_head 4 [2] [5] [''g'' \<mapsto> ContentAddr [7] 1] (sv_dag sample_synced)\<rparr>"
  let ?h = "\<lparr>ph_head = [5], ph_index = [''g'' \<mapsto> ContentAddr [7] 1], ph_updated_ms = 4\<rparr>"
  obtain r w where m: "merge_from_peer sample_braid_lib sample_env 1 2 3 [2] ?v = (r, w)" by fastforce
  have "own_index ?v = own_index sample_synced" by (simp add: own_index_def update_peer_head_def sample_synced_sel(4))
  then have own: "own_index ?v = [''f'' \<mapsto> ContentAddr [7] 1]" by (simp add: sample_synced_sel)
  have h: "peer_heads (sv_dag ?v) [2] = Some ?h" by (simp add: update_peer_head_def)
  have "own_index w = own_index ?v ++ ph_index ?h" using merge_from_peer_union[OF m h] own by simp
  with m own show ?thesis by auto
qed

theorem gc_keeps_referenced_witness:
  "blob_load (blake3 sample_braid_lib) (ContentAddr [7] 1) (sv_blobs (snd (gc_blobs sample_synced))) = Inr [7]"
proof -
  obtain g w where g: "gc_blobs sample_synced = (g, w)" by fastforce
  have "ContentAddr [7] 1 \<in> ran (cs_index sample_sync_changeset)" by (simp add: sample_synced_sel(1))
  moreover have "sample_sync_changeset \<in> ran (changesets (sv_dag sample_synced))" by (simp add: sample_synced_sel(2))
  ultimately have r: "ContentAddr [7] 1 \<in> all_referenced_addrs (sv_dag sample_synced) \<union> inner_referenced_addrs (sv_inner sample_synced)"
    unfolding all_referenced_addrs_def by blast
  have l: "blob_load (blake3 sample_braid_lib) (ContentAddr [7] 1) (sv_blobs sample_synced) = Inr [7]"
    by (simp add: blob_load_iff sample_synced_sel(3)) (simp add: sample_braid_lib_def)
  from gc_keeps_referenced[OF g r l] g show ?thesis by simp
qed

theorem gc_loses_uncommitted_edit_witness:
  "\<exists>i e. fst (sync_commit sample_braid_lib sample_env 6 7 8 ''add'' None (snd (gc_blobs sample_vault))) = Inr i \<and>
    fst (checkout sample_braid_lib sample_env i (snd (sync_commit sample_braid_lib sample_env 6 7 8 ''add'' None (snd (gc_blobs sample_vault))))) = Inl e"
proof -
  let ?f = "new_vault_file 5 ''f'' [7] 1 [1]"
  obtain g v1 where g: "gc_blobs sample_vault = (g, v1)" by fastforce
  then obtain s where v1: "v1 = sample_vault\<lparr>sv_blobs := s\<rparr>" by (auto simp: gc_blobs_def Let_def split: prod.splits)
  have "dom (snapshot_index (sv_files (v1\<lparr>sv_dirty := {}\<rparr>))) \<noteq> {}" by (simp add: v1 sample_snapshot)
  then obtain i v2 where s: "sync_commit sample_braid_lib sample_env 6 7 8 ''add'' None v1 = (Inr i, v2)"
    by (simp add: v1 sync_commit_def take_dirty_def Let_def sample_vault_sel(3) update_dag_ok ok_def)
  have f: "sv_files sample_vault ''f'' = Some ?f" "\<not> vf_deleted ?f" by (simp_all add: sample_vault_sel new_vault_file_def)
  have n: "a \<in> all_referenced_addrs (sv_dag sample_vault) \<union> inner_referenced_addrs (sv_inner sample_vault) \<Longrightarrow> ca_hash a \<noteq> vf_hash ?f" for a
    by (simp add: sample_vault_sel all_referenced_addrs_def inner_referenced_addrs_def new_agent_braid_def new_dag_def)
  have "no_collision (sv_dag v1) c" for c by (simp add: v1 sample_vault_sel)
  moreover have "relay_lacks sample_env (vf_hash ?f)" by (simp add: relay_lacks_def sample_env_def)
  ultimately show ?thesis using gc_loses_uncommitted_edit[OF f sample_keys n g s] g s by simp
qed

theorem promote_publishes_witness:
  "\<exists>i w. promote sample_braid_lib sample_env (map cs_id [agent_changeset sample_braid_lib 5 ''a'' ''add'' [''f'' \<mapsto> ContentAddr [9] 1]
        (EvidenceHuman [1] 4 None) (new_agent_braid [1])]) 1 2 3 ''go''
      (sample_vault\<lparr>sv_inner := sample_inner\<lparr>ab_user := derive_agent_id sample_braid_lib [1] ''a''\<rparr>,
        sv_user := derive_agent_id sample_braid_lib [1] ''a''\<rparr>) = Some (Inr i, w) \<and> own_index w = [''f'' \<mapsto> ContentAddr [9] 1]"
proof -
  let ?u = "derive_agent_id sample_braid_lib [1] ''a''"
  let ?ord = "map cs_id [agent_changeset sample_braid_lib 5 ''a'' ''add'' [''f'' \<mapsto> ContentAddr [9] 1] (EvidenceHuman [1] 4 None) (new_agent_braid [1])]"
  let ?v = "sample_vault\<lparr>sv_inner := sample_inner\<lparr>ab_user := ?u\<rparr>, sv_user := ?u\<rparr>"
  have "backed (ab_dag sample_inner)" using agent_reach_backed[OF sample_inner_reach] by simp
  then have b: "backed (ab_dag (sv_inner ?v))" by simp
  have o1: "set ?ord = dom (changesets (ab_dag (sv_inner ?v)))" by (simp add: sample_inner_dag)
  obtain h where h: "user_head (sv_inner ?v) = Some h" "ph_index h = [''f'' \<mapsto> ContentAddr [9] 1]"
    by (simp add: user_head_def sample_inner_def agent_land_def Let_def peer_heads_commit agent_user_id_def new_agent_braid_def)
  have nc: "pred_option (\<lambda>h. no_collision (sv_dag ?v) (promote_changeset sample_braid_lib 1 2 ''go'' (ph_index h) ?v)) (user_head (sv_inner ?v))"
    unfolding h(1) by (simp add: sample_vault_sel)
  from promote_publishes[OF b o1 _ nc, of sample_env 3] h show ?thesis by auto
qed

theorem trusted_peer_adopted_witness:
  "own_index (on_dag_change sample_braid_lib sample_env (\<lambda>u. (1, 2, 3)) ([] @ [[2]]) True
      (update_peer_head 4 [2] [5] [''g'' \<mapsto> ContentAddr [7] 1] (sv_dag sample_synced)) sample_synced) = [''g'' \<mapsto> ContentAddr [7] 1] \<and>
    own_index sample_synced ''f'' = Some (ContentAddr [7] 1)"
proof -
  let ?d = "update_peer_head 4 [2] [5] [''g'' \<mapsto> ContentAddr [7] 1] (sv_dag sample_synced)"
  let ?h = "\<lparr>ph_head = [5], ph_index = [''g'' \<mapsto> ContentAddr [7] 1], ph_updated_ms = 4\<rparr>"
  have "peer_heads ?d [2] = Some ?h" "[2] \<noteq> sv_user sample_synced" "sv_last_heads sample_synced [2] \<noteq> Some (ph_head ?h)"
    "is_peer_trusted [2] sample_synced" by (simp_all add: update_peer_head_def sample_synced_sel is_peer_trusted_def)
  from trusted_peer_adopted[OF this, of sample_braid_lib sample_env "\<lambda>u. (1, 2, 3)" "[]"] show ?thesis by (simp add: sample_synced_sel)
qed

theorem files_stay_available_witness:
  "\<exists>data. blob_load (blake3 sample_braid_lib) (ContentAddr [7] 1)
    (sv_blobs (fold (sync_run sample_braid_lib) [(sample_env, EditDisk ''f'' (Some [7])), (sample_env, Watch 0 5 ''f'' FsCreate)]
      (setup_vault [1] () new_dag \<lparr>bs_files = Map.empty, bs_max_blob_size = 100\<rparr> Map.empty [[2] \<mapsto> True]))) = Inr data"
proof -
  let ?calls = "[(sample_env, EditDisk ''f'' (Some [7])), (sample_env, Watch 0 5 ''f'' FsCreate)]"
  let ?v0 = "setup_vault [1] () new_dag \<lparr>bs_files = Map.empty, bs_max_blob_size = 100\<rparr> Map.empty [[2] \<mapsto> True]"
  have e: "fold (sync_run sample_braid_lib) ?calls ?v0 = sample_vault" by (simp add: sample_vault_def setup_vault_def)
  have "blobs_sound (blake3 sample_braid_lib) \<lparr>bs_files = Map.empty, bs_max_blob_size = 100\<rparr>" by (simp add: blobs_sound_def)
  moreover have "list_all (\<lambda>(E, call). relay_ok sample_braid_lib E) ?calls" by (simp add: relay_ok_def sample_env_def)
  ultimately show ?thesis
    using files_stay_available[of sample_braid_lib "\<lparr>bs_files = Map.empty, bs_max_blob_size = 100\<rparr>" ?calls _ "[1]" "()" new_dag Map.empty
        "[[2] \<mapsto> True]" "''f''" "new_vault_file 5 ''f'' [7] 1 [1]"] e
    by (auto simp: sample_vault_sel new_vault_file_def)
qed

text \<open>
  A file that is deleted and created again with the same content stays deleted in the index: the
  hash remembered from before makes the watcher skip it.
\<close>

lemma recreated_file_stays_deleted:
  assumes "\<not> should_ignore p" and "sv_suppressed v p = None" and "sv_known v p = Some (blake3 L data)" and "sv_files v p = Some f"
  shows "\<exists>g. sv_files (fold (sync_run L) [(E, EditDisk p None), (E, Watch i1 t1 p FsRemove),
      (E, EditDisk p (Some data)), (E, Watch i2 t2 p FsCreate)] v) p = Some g \<and> vf_deleted g"
  using assms
  by (simp add: watch_event_def is_suppressed_def mark_dirty_def delete_file_def doc_remove_def Let_def)

text \<open>
  The scan of a directory never enters \<open>.obsidian\<close>, although files below it are meant to be let through: the
  directory itself counts as a hidden file.
\<close>

lemma obsidian_never_scanned: "\<not> scanned (''.obsidian/'' @ s)"
proof -
  have "should_ignore ''.obsidian''" by code_simp
  then show ?thesis by (simp add: scanned_def)
qed

end
