(* ===== verification/Spec2Isabelle.thy ===== *)
theory Spec2Isabelle
  imports Certificate Intention Router Simulation Dtn_Manager Compact Low_Memory Duty_Cycle Landing Sync_Vault
begin

text \<open>
  Verification of IndrasNetwork, a peer-to-peer network in Rust. Paths below are relative to
  \<open>src/crates\<close>, except for \<open>src/simulation\<close>.

  \<^bold>\<open>The program and its parts.\<close> Players keep \<^emph>\<open>artifacts\<close> in vaults (\<open>indras-artifacts\<close>): leaves with a
  payload and trees of references, each with one steward, grants and a status. What a player looks
  at is recorded as a hash-linked, signed chain of switch events, which peers replicate, validate
  and certify by quorums of witnesses; equivocation is proved by two events of one author in one
  slot. Exchanges, intentions and stories are protocols on artifacts. Packets between peers
  (\<open>indras-core\<close>) are routed by a store-and-forward router (\<open>indras-routing\<close>) over in-memory stores
  with quotas (\<open>indras-storage\<close>) and delivery probabilities (\<open>indras-dtn\<close>); messages for peers that are away travel as bundles,
  kept in a database (\<open>indras-node\<close>) and handed over with custody (\<open>indras-dtn\<close>); \<open>simulation\<close> runs a
  whole network of peers in discrete time. Small devices (\<open>indras-iot\<close>) use a compact wire format,
  a memory budget shared by threads and a power cycle. Files are synchronised through a braid
  of changesets over content-addressed indexes (\<open>indras-sync-engine\<close>), a replicated document. A user's
  agents commit to an inner braid; the user merges their work and promotes it to the braid
  shared with peers, from which files are written to disk out of a blob store.

  \<^bold>\<open>Theories.\<close>
  \<^item> \<open>Prelude\<close>: machine types, results of fallible stateful code (\<open>op\<close>, with \<open>ok\<close>, \<open>fail\<close>, \<open>andThen\<close>)
    and shared lemmas. \<open>Formatting\<close>: the formatting and parsing functions of the standard library
    that build labels and metadata keys. \<open>Bytes\<close>: integers as bytes. \<open>Crypto\<close>: the functions of the
    cryptographic library as fields of a record, with the wrappers of \<open>indras-crypto/src/pq_identity.rs\<close>.
  \<^item> \<open>Access\<close> (\<open>access.rs\<close>), \<open>Artifact\<close> (\<open>artifact.rs\<close>), \<open>Store\<close> (\<open>store.rs\<close>), \<open>Peering\<close> (\<open>peering.rs\<close>, and the
    choice of witnesses in \<open>attention/certificate.rs\<close>), \<open>Vault\<close> (\<open>vault.rs\<close>), \<open>Exchange\<close> (\<open>exchange.rs\<close>),
    \<open>Story\<close> (\<open>story.rs\<close>, \<open>request.rs\<close>), \<open>Intention\<close> (\<open>intention.rs\<close>), all of \<open>indras-artifacts/src\<close>. A vault is
    a record of its stores, log and peers; each method is one definition of type \<open>vault_op\<close>, which
    returns an error or a value together with the vault after the call.
  \<^item> \<open>Attention\<close> and \<open>Attention_Log\<close> (\<open>attention/mod.rs\<close>), \<open>Validate\<close> (\<open>attention/validate.rs\<close>,
    \<open>attention/fraud.rs\<close>), \<open>Certificate\<close> (\<open>attention/certificate.rs\<close>, \<open>attention/witness.rs\<close>, and what a
    witness signs in \<open>indras-sync-engine/src/realm_attention.rs\<close>), with \<open>Sample\<close>
    for concrete values.
  \<^item> \<open>Packet\<close> (\<open>indras-core/src\<close>), \<open>Routing\<close> (\<open>table.rs\<close>, \<open>mutual.rs\<close>, \<open>backprop.rs\<close>) and \<open>Router\<close>
    (\<open>router.rs\<close>) of \<open>indras-routing/src\<close>, \<open>Pending_Store\<close> and \<open>Packet_Store\<close> (\<open>indras-storage/src/memory.rs\<close>,
    \<open>quota.rs\<close>), \<open>Prophet\<close> (\<open>indras-dtn/src/prophet.rs\<close>), \<open>Mesh\<close> (\<open>simulation/src/types.rs\<close>, \<open>topology.rs\<close>) and
    \<open>Simulation\<close> (\<open>simulation/src/simulation.rs\<close>).
  \<^item> \<open>Bundle\<close> (\<open>bundle.rs\<close>, \<open>custody.rs\<close>) and \<open>Dtn_Routing\<close> (\<open>expiration.rs\<close>, \<open>epidemic.rs\<close>, \<open>strategy.rs\<close>, \<open>lib.rs\<close>) of
    \<open>indras-dtn/src\<close>, and \<open>Dtn_Manager\<close> (\<open>bundle_store.rs\<close>, \<open>dtn_manager.rs\<close> of \<open>indras-node/src\<close>), whose state is one
    record of the two tables, probabilities, custody, expiration and the bundles seen.
  \<^item> \<open>Compact\<close>, \<open>Low_Memory\<close> and \<open>Duty_Cycle\<close> (\<open>indras-iot/src\<close>).
  \<^item> \<open>Content_Index\<close> (\<open>content_addr.rs\<close>), \<open>Replication\<close> (the contract of \<open>DocumentSchema::merge\<close>) and \<open>Braid\<close>
    (\<open>braid/changeset.rs\<close>, \<open>dag.rs\<close>, \<open>gate.rs\<close>, \<open>gc.rs\<close>) of \<open>indras-sync-engine/src\<close>; on top of them \<open>Agent_Braid\<close>
    (\<open>braid/agent_braid.rs\<close>), \<open>Landing\<close> (\<open>braid/verification.rs\<close>, \<open>realm_braid.rs\<close>, \<open>heal.rs\<close>), \<open>Blob_Store\<close>
    (\<open>indras-storage/src/blobs\<close>) and \<open>Sync_Vault\<close> (\<open>vault/mod.rs\<close>, \<open>vault_document.rs\<close>, \<open>watcher.rs\<close>,
    \<open>sync_to_disk.rs\<close>), whose state is one record of index, disk, blobs, braids, trust and watcher.

  \<^bold>\<open>How the code is represented.\<close> A \<open>HashMap\<close> or \<open>DashMap\<close> is a map; where the order of its iteration
  matters, the order is an argument. A \<open>BTreeMap\<close> is a map read in sorted order. Counters keep their
  width where the source lets them wrap or saturates them; the tick, the statistics and the packet numbers of the
  simulation, which only count up, are natural numbers. Floating-point numbers are rationals; where a bound
  depends on rounding, the rounding is an argument with the monotonicity it has; infinities and NaN are outside the model. The current
  time and random numbers are arguments. A panic is the value \<open>None\<close>. Third-party functions
  (BLAKE3, ML-DSA, \<open>postcard\<close>), cargo, the writability of files, the failures of databases and of saving a document and the relay's answers are fields of a record or arguments, and what is needed of them
  (absence of collisions, verification of what was signed, injectivity of an encoding) is a
  hypothesis of the theorem that needs it. Threads of \<open>Low_Memory\<close> take one atomic operation at a
  time, in any order; calls of the other components that are safe for threads are taken one after the other. Paths of
  files are normal: two different ones name different files.

  \<^bold>\<open>What is shown.\<close>
  \<^item> Ledger: the validator accepts exactly the linked chains, attention is conserved, dwell times add up, the author's log always validates,
    heads determine chains, equivocation is detected exactly at forks, certificates overlap in more than the tolerated number of
    faulty witnesses; and witnesses that answer as the code does certify both sides of a fork.
  \<^item> Vault: its invariant under every sequence of calls, the guard of the steward methods with nothing
    changed on failure, finality of transfers up to placements under the same identifier, exchanges, and payload round trips.
  \<^item> Network: conservation of messages and at-most-once delivery in the simulation, termination
    of its run, the routing decision on every branch, refinement of the stores to plain maps and sets, quotas, the
    bounds of delivery probabilities, custody that is never lost to delayed or lost messages, and bundles that stay until they are delivered or expire.
  \<^item> Devices: round trip and error detection of frames, fragmentation, memory budgets under every
    interleaving, clean buffers, and the power cycle.
  \<^item> Files: exactness of differences and three-way merges, searches over the braid, rollup,
    convergence of replicas, and the grace period of deletions. Agents: heads of the inner braid stay
    backed by changesets, merging keeps everybody's files, only verified work lands. Vaults on disk: what a sync
    commits, what a checkout restores, the union of a merge, what promotion publishes, the availability
    of indexed content, and what garbage collection keeps; and two ways in which work is lost.

  \<^bold>\<open>Bounds and loops.\<close> No definition takes fuel. The searches of \<open>Braid\<close> are partial functions that are proved
  to return on every finite DAG, with cycles or without; the loop of the simulation's run is a partial function that is
  proved to return at the configured tick. The relay is asked ten times for a blob, as in the source.

  \<^bold>\<open>Not modelled.\<close> Asynchronous tasks, sockets, files and databases (the tasks of \<open>indras-node\<close>, \<open>indras-transport\<close>,
  \<open>indras-gossip\<close>, the services of \<open>indras-relay\<close>, the persistent stores of \<open>indras-storage\<close>) have
  no content without their third-party libraries; \<open>indras-sync\<close> wraps Automerge; the
  encryption, secret-sharing and erasure-coding wrappers of \<open>indras-crypto\<close> are calls of libraries; the
  user interfaces are rendering and event wiring; Lua bindings and scenarios script the simulation.
\<close>

end
